(* ===== verification/Prelude.thy ===== *)
theory Prelude
  imports "HOL-Library.Word"
begin

text \<open>
  Shared vocabulary of the development.

  The C code runs over one mutable machine state and stops abnormally in a handful of ways.  A C
  function of type \<open>T f(...)\<close> becomes a program \<open>('s, 'a) prog\<close>: a function from the state to
  either a fault or a result together with the new state.  \<open>fault\<close> lists the abnormal ends:

  \<^item> \<open>DebugBreakHit\<close>: the macro \<open>ASSERT(x)\<close> (utils/debug.h) found \<open>x\<close> false;
  \<^item> \<open>FatalError\<close>: \<open>fatal_error\<close> (utils/debug.c) was called, which terminates the process;
  \<^item> \<open>AccessViolation\<close>: a pointer outside the memory it may address was dereferenced;
  \<^item> \<open>SpinForever\<close>: a spin lock was requested that no other thread is going to release;
  \<^item> \<open>WaitForever\<close>: an event was awaited that no other thread is going to set.

  The rest of the theory holds the combinators, their evaluation rules (collection
  \<open>prog_simps\<close>), total-correctness triples, and generic facts on lists and words.
\<close>

named_theorems prog_simps \<open>evaluation rules of programs\<close>
named_theorems prog_defs \<open>definitions of the primitive steps\<close>

type_synonym u16 = "16 word"
type_synonym u32 = "32 word"
type_synonym u64 = "64 word"

datatype fault =
    DebugBreakHit
  | FatalError string
  | AccessViolation
  | SpinForever
  | WaitForever

type_synonym ('s, 'a) prog = "'s \<Rightarrow> fault + 'a \<times> 's"


section \<open>Combinators\<close>

definition return :: "'a \<Rightarrow> ('s, 'a) prog" where
  "return x = (\<lambda>s. Inr (x, s))"

definition raise :: "fault \<Rightarrow> ('s, 'a) prog" where
  "raise e = (\<lambda>s. Inl e)"

definition bind :: "('s, 'a) prog \<Rightarrow> ('a \<Rightarrow> ('s, 'b) prog) \<Rightarrow> ('s, 'b) prog" where
  "bind m f = (\<lambda>s. case m s of Inl e \<Rightarrow> Inl e | Inr (x, s') \<Rightarrow> f x s')"

definition gets :: "('s \<Rightarrow> 'a) \<Rightarrow> ('s, 'a) prog" where
  "gets g = (\<lambda>s. Inr (g s, s))"

definition modify :: "('s \<Rightarrow> 's) \<Rightarrow> ('s, unit) prog" where
  "modify g = (\<lambda>s. Inr ((), g s))"

definition assert_that :: "bool \<Rightarrow> ('s, unit) prog" where
  "assert_that b = (if b then return () else raise DebugBreakHit)"

definition check_access :: "bool \<Rightarrow> ('s, unit) prog" where
  "check_access b = (if b then return () else raise AccessViolation)"

definition run_if :: "bool \<Rightarrow> ('s, unit) prog \<Rightarrow> ('s, unit) prog" where
  "run_if b m = (if b then m else return ())"

text \<open>A block of statements without results, run in order.\<close>

primrec block :: "('s, unit) prog list \<Rightarrow> ('s, unit) prog" where
  "block [] = return ()"
| "block (m # ms) = bind m (\<lambda>_. block ms)"

declare block.simps [simp del]

lemma block_Nil [simp]: "block [] = return ()"
  and block_Cons [simp]: "block (m # ms) = bind m (\<lambda>_. block ms)"
  by (simp_all only: block.simps)

text \<open>A block of statements followed by the value the function returns.\<close>

definition block_return :: "('s, unit) prog list \<Rightarrow> 'a \<Rightarrow> ('s, 'a) prog" where
  "block_return ms x = bind (block ms) (\<lambda>_. return x)"

text \<open>\<open>for (x in xs) body(x)\<close>.\<close>

primrec for_each :: "'a list \<Rightarrow> ('a \<Rightarrow> ('s, unit) prog) \<Rightarrow> ('s, unit) prog" where
  "for_each [] f = return ()"
| "for_each (x # xs) f = bind (f x) (\<lambda>_. for_each xs f)"

declare for_each.simps [simp del]

lemma for_each_Nil [simp]: "for_each [] f = return ()"
  and for_each_Cons [simp]: "for_each (x # xs) f = bind (f x) (\<lambda>_. for_each xs f)"
  by (simp_all only: for_each.simps)

text \<open>
  A program on a part of the state, run on the whole: \<open>get\<close> reads the part, \<open>put\<close> writes it back.
\<close>

definition zoom :: "('s \<Rightarrow> 't) \<Rightarrow> ('t \<Rightarrow> 's \<Rightarrow> 's) \<Rightarrow> ('t, 'a) prog \<Rightarrow> ('s, 'a) prog" where
  "zoom get put m = (\<lambda>s. case m (get s) of Inl e \<Rightarrow> Inl e | Inr (x, t) \<Rightarrow> Inr (x, put t s))"


section \<open>Evaluation\<close>

lemma return_apply [prog_simps]: "return x s = Inr (x, s)"
  by (simp add: return_def)

lemma raise_apply [prog_simps]: "raise e s = Inl e"
  by (simp add: raise_def)

lemma gets_apply [prog_simps]: "gets g s = Inr (g s, s)"
  by (simp add: gets_def)

lemma modify_apply [prog_simps]: "modify g s = Inr ((), g s)"
  by (simp add: modify_def)

lemma assert_that_True [prog_simps]: "b \<Longrightarrow> assert_that b s = Inr ((), s)"
  and assert_that_False [prog_simps]: "\<not> b \<Longrightarrow> assert_that b s = Inl DebugBreakHit"
  by (simp_all add: assert_that_def return_def raise_def)

lemma check_access_True [prog_simps]: "b \<Longrightarrow> check_access b s = Inr ((), s)"
  and check_access_False [prog_simps]: "\<not> b \<Longrightarrow> check_access b s = Inl AccessViolation"
  by (simp_all add: check_access_def return_def raise_def)

lemma run_if_True [prog_simps]: "b \<Longrightarrow> run_if b m = m"
  and run_if_False [prog_simps]: "\<not> b \<Longrightarrow> run_if b m = return ()"
  by (simp_all add: run_if_def)

lemma bind_apply [prog_simps]:
  "bind m f s = (case m s of Inl e \<Rightarrow> Inl e | Inr (x, s') \<Rightarrow> f x s')"
  by (simp add: bind_def)

lemma bind_Inr: "m s = Inr (x, s') \<Longrightarrow> bind m f s = f x s'"
  and bind_Inl: "m s = Inl e \<Longrightarrow> bind m f s = Inl e"
  by (simp_all add: bind_def)

lemma bind_return [prog_simps]: "bind (return x) f = f x"
  and bind_raise [prog_simps]: "bind (raise e) f = raise e"
  and bind_gets [prog_simps]: "bind (gets g) f s = f (g s) s"
  and bind_modify [prog_simps]: "bind (modify h) k s = k () (h s)"
  by (simp_all add: bind_def return_def raise_def gets_def modify_def fun_eq_iff)

lemma bind_assert [prog_simps]:
  "bind (assert_that b) k s = (if b then k () s else Inl DebugBreakHit)"
  by (simp add: bind_def assert_that_def return_def raise_def)

lemma bind_check_access [prog_simps]:
  "bind (check_access b) k s = (if b then k () s else Inl AccessViolation)"
  by (simp add: bind_def check_access_def return_def raise_def)

lemma bind_assoc: "bind (bind m f) g = bind m (\<lambda>x. bind (f x) g)"
  by (auto simp: bind_def fun_eq_iff split: sum.splits)

lemma bind_if: "bind (if b then m else n) f = (if b then bind m f else bind n f)"
  by simp

lemma block_return_apply [prog_simps]: "block_return ms x = bind (block ms) (\<lambda>_. return x)"
  by (simp add: block_return_def)

lemma bind_eq_Inr:
  "bind m f s = Inr (y, t) \<longleftrightarrow> (\<exists>x s'. m s = Inr (x, s') \<and> f x s' = Inr (y, t))"
  by (auto simp: bind_def split: sum.splits)

lemma block_append: "block (ms @ ns) = bind (block ms) (\<lambda>_. block ns)"
  by (induction ms) (simp_all add: bind_return bind_assoc)

lemma for_each_append:
  "for_each (xs @ ys) f = bind (for_each xs f) (\<lambda>_. for_each ys f)"
  by (induction xs) (simp_all add: bind_return bind_assoc)

lemma zoom_Inr: "m (get s) = Inr (x, t) \<Longrightarrow> zoom get put m s = Inr (x, put t s)"
  by (simp add: zoom_def)


section \<open>Total-correctness triples\<close>

text \<open>\<open>triple P m Q\<close>: from every state satisfying \<open>P\<close>, \<open>m\<close> ends without a fault in \<open>Q\<close>.\<close>

definition triple :: "('s \<Rightarrow> bool) \<Rightarrow> ('s, 'a) prog \<Rightarrow> ('a \<Rightarrow> 's \<Rightarrow> bool) \<Rightarrow> bool" where
  "triple P m Q \<longleftrightarrow> (\<forall>s. P s \<longrightarrow> (\<exists>x s'. m s = Inr (x, s') \<and> Q x s'))"

lemma tripleI: "(\<And>s. P s \<Longrightarrow> \<exists>x s'. m s = Inr (x, s') \<and> Q x s') \<Longrightarrow> triple P m Q"
  by (simp add: triple_def)

lemma tripleE:
  assumes "triple P m Q" and "P s"
  obtains x s' where "m s = Inr (x, s')" and "Q x s'"
  using assms by (auto simp: triple_def)

lemma triple_return: "triple (Q x) (return x) Q"
  by (simp add: triple_def return_def)

lemma triple_bind:
  "triple P m R \<Longrightarrow> (\<And>x. triple (R x) (f x) Q) \<Longrightarrow> triple P (bind m f) Q"
  by (fastforce simp: triple_def bind_def)

lemma triple_conseq:
  "triple P m Q \<Longrightarrow> (\<And>s. P' s \<Longrightarrow> P s) \<Longrightarrow> (\<And>x s. Q x s \<Longrightarrow> Q' x s) \<Longrightarrow> triple P' m Q'"
  by (fastforce simp: triple_def)

text \<open>The loop rule: \<open>I\<close> speaks of the elements still to come.\<close>

lemma triple_for_each:
  assumes "\<And>x rest. triple (I (x # rest)) (f x) (\<lambda>_. I rest)"
  shows "triple (I xs) (for_each xs f) (\<lambda>_. I [])"
proof (induction xs)
  case Nil
  show ?case by (simp add: triple_def return_def)
next
  case (Cons x xs)
  show ?case using assms [of x xs] Cons.IH by (simp add: triple_bind)
qed


section \<open>Words and lists\<close>

lemma unat_add_1: "unat (w :: u64) < 2 ^ 63 \<Longrightarrow> unat (w + 1) = unat w + 1"
  by (simp add: unat_word_ariths)

lemma unat_sub_1: "0 < unat (w :: u64) \<Longrightarrow> unat (w - 1) = unat w - 1"
  by (metis unat_minus_one unat_eq_0 less_irrefl)

lemma sint_small: "unat (w :: u64) < 2 ^ 63 \<Longrightarrow> sint w = int (unat w)"
proof -
  assume "unat w < 2 ^ 63"
  then have "int (unat w) < int (2 ^ 63)" by (simp only: of_nat_less_iff)
  then have "uint w < 2 ^ 63" by simp
  moreover have "- (2 ^ 63) \<le> uint w" by (rule order_trans [of _ 0]) simp_all
  ultimately have "signed_take_bit 63 (uint w) = uint w"
    by (simp only: signed_take_bit_int_eq_self_iff)
  then show ?thesis by (simp add: sint_uint)
qed

lemma rotate_in_range: "n \<noteq> 0 \<Longrightarrow> (i + 1) mod n < (n :: nat)"
  by simp

lemma distinct_middle:
  "distinct (as @ x # bs) \<longleftrightarrow> distinct (as @ bs) \<and> x \<notin> set as \<and> x \<notin> set bs"
  by auto

end
