(* ===== verification/Bitfield.thy ===== *)
theory Bitfield
  imports Prelude
begin

unbundle bit_operations_syntax

text \<open>
  C bit-fields packed into one unsigned word, low bits first, as the compilers the project targets
  lay them out.  \<open>get_bits off len\<close> reads the field of \<open>len\<close> bits at bit \<open>off\<close>, \<open>put_bits\<close> stores
  the low \<open>len\<close> bits of a value there and keeps the rest of the word, which is what an assignment
  to a bit-field member does.  The locale \<open>bit_field\<close> is the contract of a member; \<open>field_pair\<close> adds
  that two members do not overlap.
\<close>

definition get_bits :: "nat \<Rightarrow> nat \<Rightarrow> 'a::len word \<Rightarrow> 'a word" where
  "get_bits off len w = take_bit len (drop_bit off w)"

definition put_bits :: "nat \<Rightarrow> nat \<Rightarrow> 'a::len word \<Rightarrow> 'a word \<Rightarrow> 'a word" where
  "put_bits off len v w =
     (w AND NOT (push_bit off (mask len))) OR push_bit off (take_bit len v)"

lemma word_bits_eq_iff:
  "(v :: 'a::len word) = w \<longleftrightarrow> (\<forall>n < LENGTH('a). bit v n \<longleftrightarrow> bit w n)"
  by (auto intro: bit_word_eqI)

lemma bit_get_bits: "bit (get_bits off len w) n \<longleftrightarrow> n < len \<and> bit w (off + n)"
  by (auto simp: get_bits_def bit_simps)

lemma bit_put_bits:
  "bit (put_bits off len v (w :: 'a::len word)) n \<longleftrightarrow>
     (if off \<le> n \<and> n < off + len then bit v (n - off) \<and> n < LENGTH('a) else bit w n)"
  by (auto simp: put_bits_def bit_simps dest: bit_imp_le_length)

lemma get_put_bits:
  "off + len \<le> LENGTH('a) \<Longrightarrow>
   get_bits off len (put_bits off len v (w :: 'a::len word)) = take_bit len v"
  by (rule bit_word_eqI) (auto simp: bit_get_bits bit_put_bits bit_simps)

lemma get_put_bits_other:
  "off + len \<le> off' \<or> off' + len' \<le> off \<Longrightarrow>
   get_bits off len (put_bits off' len' v (w :: 'a::len word)) = get_bits off len w"
  by (rule bit_word_eqI) (auto simp: bit_get_bits bit_put_bits)

lemma put_put_bits:
  "put_bits off len v (put_bits off len v' (w :: 'a::len word)) = put_bits off len v w"
  by (rule bit_word_eqI) (auto simp: bit_put_bits)

lemma put_get_bits:
  "off + len \<le> LENGTH('a) \<Longrightarrow> put_bits off len (get_bits off len w) (w :: 'a::len word) = w"
  by (rule bit_word_eqI) (auto simp: bit_get_bits bit_put_bits)

lemma put_bits_commute:
  "off + len \<le> off' \<or> off' + len' \<le> off \<Longrightarrow>
   put_bits off len v (put_bits off' len' v' (w :: 'a::len word)) =
   put_bits off' len' v' (put_bits off len v w)"
  by (rule bit_word_eqI) (auto simp: bit_put_bits)

lemma get_bits_zero [simp]: "get_bits off len (0 :: 'a::len word) = 0"
  by (simp add: get_bits_def)

lemma take_bit_get_bits: "take_bit len (get_bits off len w) = get_bits off len w"
  by (simp add: get_bits_def)

lemma get_bits_bound: "unat (get_bits off len (w :: 'a::len word)) < 2 ^ len"
  by (simp add: get_bits_def unsigned_take_bit_eq)

lemma take_bit_less_iff: "take_bit n (w :: 'a::len word) = w \<longleftrightarrow> unat w < 2 ^ n"
  by (metis take_bit_nat_eq_self_iff unsigned_take_bit_eq unsigned_word_eqI)

text \<open>The contract of one member of width \<open>width\<close>.\<close>

locale bit_field =
  fixes width :: nat
    and get :: "u64 \<Rightarrow> u64"
    and put :: "u64 \<Rightarrow> u64 \<Rightarrow> u64"
  assumes get_put: "get (put v w) = take_bit width v"
    and put_put: "put v (put v' w) = put v w"
    and put_get: "put (get w) w = w"
begin

lemma get_put_small: "take_bit width v = v \<Longrightarrow> get (put v w) = v"
  by (simp add: get_put)

lemma get_width: "take_bit width (get w) = get w"
  using get_put [of "get w" w] by (simp add: put_get)

lemma put_eq_self_iff: "put v w = w \<longleftrightarrow> put v w = put (get w) w"
  by (simp add: put_get)

lemma get_inj_on_field: "get (put u w) = get (put v w) \<longleftrightarrow> take_bit width u = take_bit width v"
  by (simp add: get_put)

end

text \<open>Two members that do not overlap.\<close>

locale field_pair =
  one: bit_field width get put + other: bit_field width' get' put'
  for width :: nat and get :: "u64 \<Rightarrow> u64" and put :: "u64 \<Rightarrow> u64 \<Rightarrow> u64"
    and width' :: nat and get' :: "u64 \<Rightarrow> u64" and put' :: "u64 \<Rightarrow> u64 \<Rightarrow> u64" +
  assumes get_put_other: "get (put' v w) = get w"
    and get_other_put: "get' (put v w) = get' w"
    and put_commute: "put v (put' v' w) = put' v' (put v w)"
begin

lemma both_after: "get (put v (put' v' w)) = take_bit width v"
  "get' (put v (put' v' w)) = take_bit width' v'"
  by (simp_all add: one.get_put other.get_put get_other_put)

end

lemma bits_bit_field:
  "off + len \<le> 64 \<Longrightarrow> bit_field len (get_bits off len) (put_bits off len)"
  by unfold_locales (simp_all add: get_put_bits put_put_bits put_get_bits)

lemma bits_field_pair:
  "off + len \<le> 64 \<Longrightarrow> off' + len' \<le> 64 \<Longrightarrow> off + len \<le> off' \<or> off' + len' \<le> off \<Longrightarrow>
   field_pair len (get_bits off len) (put_bits off len)
              len' (get_bits off' len') (put_bits off' len')"
  by unfold_locales
    (auto simp: get_put_bits put_put_bits put_get_bits get_put_bits_other put_bits_commute)

end
