(* ===== verification/Config.thy ===== *)
theory Config
  imports Prelude Complex_Main
begin

text \<open>
  Compile-time constants and switches (utils/config.h, threads/threads.h, data_structures/*.h,
  threads/*.h) and the two global bookkeeping structures \<open>VM\<close> and \<open>STATS\<close> of utils/config.h.

  The switches are the ones of the checked-in configuration: \<open>AGING\<close>, \<open>SCHEDULING\<close> and
  \<open>USER_SIMULATION\<close> are on; \<open>DEBUG\<close>, \<open>PRUNING\<close>, \<open>LOGGING_MODE\<close>, \<open>STATS_MODE\<close> and
  \<open>RUN_FOREVER\<close> are off.  Members of C type \<open>double\<close> are rationals: rounding of floating-point
  arithmetic is not modelled.
\<close>

definition PAGE_SIZE :: u64 where [simp]: "PAGE_SIZE = 4096"
definition BYTES_PER_VA :: u64 where [simp]: "BYTES_PER_VA = 8"
definition BITS_PER_BYTE :: u64 where [simp]: "BITS_PER_BYTE = 8"
definition KB :: "u64 \<Rightarrow> u64" where "KB x = x * 1024"
definition MB :: "u64 \<Rightarrow> u64" where "MB x = KB x * 1024"
definition GB :: "u64 \<Rightarrow> u64" where "GB x = MB x * 1024"

definition NUM_WORKER_THREADS :: nat where [simp]: "NUM_WORKER_THREADS = 5"
definition DEFAULT_NUM_USER_THREADS :: u32 where [simp]: "DEFAULT_NUM_USER_THREADS = 8"
definition DEFAULT_ITERATIONS :: u64 where "DEFAULT_ITERATIONS = MB 1"
definition FREE_LIST_COUNT :: u32 where [simp]: "FREE_LIST_COUNT = 16"
definition LOW_PAGE_THRESHOLD :: int where [simp]: "LOW_PAGE_THRESHOLD = 512"
definition PRUNING_THRESHOLD :: int where [simp]: "PRUNING_THRESHOLD = 128"
definition MAX_WRITE_BATCH_SIZE :: u64 where [simp]: "MAX_WRITE_BATCH_SIZE = 4096"
definition MIN_WRITE_BATCH_SIZE :: u64 where [simp]: "MIN_WRITE_BATCH_SIZE = 1"
definition MAX_TRIM_BATCH_SIZE :: u64 where [simp]: "MAX_TRIM_BATCH_SIZE = 2048"
definition MAX_PRUNE_BATCH_SIZE :: u64 where [simp]: "MAX_PRUNE_BATCH_SIZE = 256"
definition MAX_TRIM_ATTEMPTS :: u64 where [simp]: "MAX_TRIM_ATTEMPTS = MAX_TRIM_BATCH_SIZE * 4"
definition BATCH_ATTEMPTS :: u16 where [simp]: "BATCH_ATTEMPTS = 5"
definition DEFAULT_NUMBER_OF_PHYSICAL_PAGES :: u64 where
  "DEFAULT_NUMBER_OF_PHYSICAL_PAGES = KB 256"
definition DEFAULT_PAGES_IN_PAGE_FILE :: u64 where "DEFAULT_PAGES_IN_PAGE_FILE = KB 128"

definition NUM_KERNEL_READ_ADDRESSES :: u32 where [simp]: "NUM_KERNEL_READ_ADDRESSES = 16"
definition FREE_PAGE_CACHE_SIZE :: u16 where [simp]: "FREE_PAGE_CACHE_SIZE = 64"
definition TRIMMING_THREAD_ID :: nat where [simp]: "TRIMMING_THREAD_ID = 0"
definition WRITING_THREAD_ID :: nat where [simp]: "WRITING_THREAD_ID = 1"
definition PRUNING_THREAD_ID :: nat where [simp]: "PRUNING_THREAD_ID = 2"
definition SCHEDULING_THREAD_ID :: nat where [simp]: "SCHEDULING_THREAD_ID = 3"
definition AGING_THREAD_ID :: nat where [simp]: "AGING_THREAD_ID = 4"
definition MAX_HARD_ACCESS_ATTEMPTS :: nat where [simp]: "MAX_HARD_ACCESS_ATTEMPTS = 30"
definition MAX_SOFT_ACCESS_ATTEMPTS :: nat where [simp]: "MAX_SOFT_ACCESS_ATTEMPTS = 30"

definition DEFAULT_WRITE_DURATION :: rat where "DEFAULT_WRITE_DURATION = 1 / 100"
definition DEFAULT_TRIM_DURATION :: rat where "DEFAULT_TRIM_DURATION = 1 / 100"
definition DEFAULT_PRUNE_DURATION :: rat where "DEFAULT_PRUNE_DURATION = 1 / 100"
definition DEFAULT_PAGE_CONSUMPTION_RATE :: rat where
  "DEFAULT_PAGE_CONSUMPTION_RATE = of_nat (unat (MB 300)) / 4096"
definition EWMA_SMOOTHING_FACTOR :: rat where "EWMA_SMOOTHING_FACTOR = 1 / 2"
definition VA_TO_PHYSICAL_RATIO :: rat where "VA_TO_PHYSICAL_RATIO = 91 / 100"

text \<open>
  \<open>VA_SPAN(x, y)\<close>: number of virtual pages for \<open>x\<close> frames and \<open>y\<close> page-file slots.  The cast to
  \<open>int\<close> of the positive product truncates.
\<close>

definition VA_SPAN :: "u64 \<Rightarrow> u64 \<Rightarrow> int" where
  "VA_SPAN x y = \<lfloor>VA_TO_PHYSICAL_RATIO * of_nat (unat (x + y))\<rfloor>"

text \<open>\<open>MEM_EXTENDED_PARAMETER\<close>: a tagged value handed to the memory calls; zeroed it is of the invalid type.\<close>

datatype parameter_type = InvalidType | UserPhysicalHandle | UserPhysicalFlags

record mem_extended_parameter =
  parameter_type :: parameter_type
  parameter_value :: u64

text \<open>
  \<open>VM\<close>: the configuration of a run.  Addresses are byte addresses, handles are numbers with 0 for
  null.  \<open>prune_count\<close> is declared and never used.
\<close>

record vm_state =
  num_user_threads :: u32
  pages_in_page_file :: u64
  iterations :: u64
  va_size_in_bytes :: u64
  va_size_in_pointers :: u64
  application_va_base :: u64
  kernel_write_va :: u64
  num_ptes :: u64
  max_frame_number :: u64
  min_frame_number :: u64
  allocated_frame_numbers :: "u64 list"
  allocated_frame_count :: u64
  physical_page_handle :: u64
  virtual_alloc_shared_parameter :: mem_extended_parameter
  prune_count :: u64

text \<open>
  \<open>STATS\<close>.  The members \<open>n_free\<close>, \<open>n_modified\<close> and \<open>n_standby\<close> of the C structure are pointers to
  the counters of the free, modified and standby lists; the model reads those counters directly.
\<close>

record stats_state =
  page_consumption_per_second :: rat
  n_available :: u64
  n_hard :: u64
  n_soft :: u64
  wait_time_total :: u64
  hard_faults_missed :: u64
  timer_frequency :: u64
  worker_runtimes :: "nat \<Rightarrow> rat"

text \<open>The structures as the loader leaves them: every member zero.\<close>

definition zero_vm :: vm_state where
  "zero_vm = \<lparr>num_user_threads = 0, pages_in_page_file = 0, iterations = 0, va_size_in_bytes = 0,
     va_size_in_pointers = 0, application_va_base = 0, kernel_write_va = 0, num_ptes = 0,
     max_frame_number = 0, min_frame_number = 0, allocated_frame_numbers = [],
     allocated_frame_count = 0, physical_page_handle = 0,
     virtual_alloc_shared_parameter = \<lparr>parameter_type = InvalidType, parameter_value = 0\<rparr>, prune_count = 0\<rparr>"

definition zero_stats :: stats_state where
  "zero_stats = \<lparr>page_consumption_per_second = 0, n_available = 0, n_hard = 0, n_soft = 0,
     wait_time_total = 0, hard_faults_missed = 0, timer_frequency = 0, worker_runtimes = (\<lambda>_. 0)\<rparr>"

lemma VA_SPAN_floor_le: "\<lfloor>VA_TO_PHYSICAL_RATIO * of_nat n\<rfloor> \<le> int n"
  by (simp add: VA_TO_PHYSICAL_RATIO_def floor_le_iff)

lemma VA_SPAN_le: "VA_SPAN x y \<le> int (unat (x + y))"
  unfolding VA_SPAN_def by (rule VA_SPAN_floor_le)

text \<open>
  The virtual pages fit into the frames and the usable page-file slots (slot 0 is never handed
  out) as soon as there is any storage at all.
\<close>

lemma VA_SPAN_floor_less: "0 < n \<Longrightarrow> \<lfloor>VA_TO_PHYSICAL_RATIO * of_nat n\<rfloor> < int n"
  by (simp add: VA_TO_PHYSICAL_RATIO_def floor_less_iff)

lemma VA_SPAN_leaves_room: "0 < unat (x + y) \<Longrightarrow> VA_SPAN x y < int (unat (x + y))"
  unfolding VA_SPAN_def by (rule VA_SPAN_floor_less)

end
