(* ===== verification/Locks.thy ===== *)
theory Locks
  imports Config
begin

text \<open>
  Byte locks (data_structures/locks.h, locks.c).  A lock is one 16-bit semaphore.  \<open>lock\<close> and
  \<open>try_lock\<close> look at it twice, a plain read and a compare-exchange, and other threads may write it
  between the two, so the functions here take the value each access observes.  The last section
  interleaves any number of threads running this code on one lock.
\<close>

definition UNLOCKED :: u16 where [simp]: "UNLOCKED = 0"
definition LOCKED :: u16 where [simp]: "LOCKED = 1"
definition MAX_WAIT_TIME_BEFORE_RETRY :: u32 where [simp]: "MAX_WAIT_TIME_BEFORE_RETRY = 64"

text \<open>\<open>InterlockedCompareExchange16(dest, exchange, comparand)\<close>: the old value and the new one.\<close>

definition compare_exchange :: "'a \<Rightarrow> 'a \<Rightarrow> 'a \<Rightarrow> 'a \<times> 'a" where
  "compare_exchange cur exchange comparand =
     (cur, if cur = comparand then exchange else cur)"

definition initialize_byte_lock :: "u16 \<Rightarrow> u16" where
  "initialize_byte_lock _ = UNLOCKED"

text \<open>The backoff after a read that found the lock taken: \<open>min(backoff << 1, MAX)\<close>.\<close>

definition next_backoff :: "u32 \<Rightarrow> u32" where
  "next_backoff backoff = min (push_bit 1 backoff) MAX_WAIT_TIME_BEFORE_RETRY"

text \<open>
  \<open>lock\<close> over the observations of its successive rounds, each the value of the plain read and the
  value the compare-exchange finds.  \<open>Some (rounds, yields)\<close>: the lock was taken, after that many
  failed rounds and calls of \<open>YieldProcessor\<close>; \<open>None\<close>: still spinning when the observations end.
\<close>

fun lock_spin :: "(u16 \<times> u16) list \<Rightarrow> u32 \<Rightarrow> nat \<Rightarrow> nat \<Rightarrow> (nat \<times> nat) option" where
  "lock_spin [] backoff rounds yields = None"
| "lock_spin ((seen, found) # obs) backoff rounds yields =
     (let yields' = (if seen = LOCKED then yields + unat backoff else yields);
          backoff' = (if seen = LOCKED then next_backoff backoff else backoff)
      in if fst (compare_exchange found LOCKED UNLOCKED) = UNLOCKED then Some (rounds, yields')
         else lock_spin obs backoff' (Suc rounds) yields')"

definition lock :: "(u16 \<times> u16) list \<Rightarrow> (nat \<times> nat) option" where
  "lock obs = lock_spin obs 1 0 0"

text \<open>\<open>try_lock\<close>: the result and the semaphore after it.\<close>

definition try_lock :: "u16 \<Rightarrow> u16 \<Rightarrow> bool \<times> u16" where
  "try_lock seen found =
     (if seen = LOCKED then (False, found)
      else let (original, new) = compare_exchange found LOCKED UNLOCKED
           in (original = UNLOCKED, new))"

text \<open>\<open>unlock\<close>: asserts that the lock is taken, then decrements the semaphore.\<close>

definition unlock :: "u16 \<Rightarrow> u16 \<Rightarrow> fault + u16" where
  "unlock seen found = (if seen = LOCKED then Inr (found - 1) else Inl DebugBreakHit)"

text \<open>\<open>wait\<close>: the number of \<open>YieldProcessor\<close> calls made for a requested time.\<close>

definition wait_yields :: "u32 \<Rightarrow> u32" where
  "wait_yields time = min time MAX_WAIT_TIME_BEFORE_RETRY"

text \<open>
  The retry loops of page_list.c compute their next delay as
  \<open>max(wait_time << 1, MAX_WAIT_TIME_BEFORE_RETRY)\<close>.
\<close>

definition next_wait_time :: "u32 \<Rightarrow> u32" where
  "next_wait_time wait_time = max (push_bit 1 wait_time) MAX_WAIT_TIME_BEFORE_RETRY"


section \<open>Backoff\<close>

lemma next_backoff_le: "next_backoff b \<le> 64"
  by (simp add: next_backoff_def)

lemma wait_yields_next_wait_time [simp]: "wait_yields (next_wait_time t) = 64"
  by (simp add: wait_yields_def next_wait_time_def)

lemma lock_spin_Cons:
  "lock_spin ((seen, found) # obs) b rounds yields =
     (if found = UNLOCKED then Some (rounds, if seen = LOCKED then yields + unat b else yields)
      else lock_spin obs (if seen = LOCKED then next_backoff b else b) (Suc rounds)
             (if seen = LOCKED then yields + unat b else yields))"
  by (simp add: compare_exchange_def)

declare lock_spin.simps(2) [simp del]

lemma lock_spin_bounds:
  "lock_spin obs b rounds yields = Some (r, y) \<Longrightarrow> unat b \<le> 64 \<Longrightarrow>
   rounds \<le> r \<and> r < rounds + length obs \<and> y \<le> yields + 64 * (Suc r - rounds)"
proof (induction obs arbitrary: b rounds yields)
  case Nil
  then show ?case by simp
next
  case (Cons ob obs)
  obtain seen found where ob: "ob = (seen, found)" by (cases ob)
  let ?y = "if seen = LOCKED then yields + unat b else yields"
  let ?b = "if seen = LOCKED then next_backoff b else b"
  have y: "?y \<le> yields + 64" using Cons.prems(2) by simp
  show ?case
  proof (cases "found = UNLOCKED")
    case True
    then have "r = rounds" "y = ?y" using Cons.prems(1) by (simp_all add: ob lock_spin_Cons)
    then show ?thesis using y by simp
  next
    case False
    have "lock_spin obs ?b (Suc rounds) ?y = Some (r, y)"
      using Cons.prems(1) False by (simp add: ob lock_spin_Cons)
    moreover have "unat ?b \<le> 64"
      using Cons.prems(2) next_backoff_le [of b] by (simp add: word_le_nat_alt)
    ultimately have "Suc rounds \<le> r \<and> r < Suc rounds + length obs \<and>
        y \<le> ?y + 64 * (Suc r - Suc rounds)"
      by (rule Cons.IH)
    then show ?thesis using y by auto
  qed
qed

lemma lock_spin_returns:
  "(\<exists>z. lock_spin obs b rounds yields = Some z) \<longleftrightarrow> (\<exists>ob \<in> set obs. snd ob = UNLOCKED)"
proof (induction obs arbitrary: b rounds yields)
  case (Cons ob obs)
  then show ?case by (cases ob) (simp add: lock_spin_Cons)
qed simp


section \<open>Any number of threads on one lock\<close>

text \<open>
  \<open>Outside\<close>: not using the lock.  \<open>LockRead b\<close>, \<open>LockCas b\<close>: inside \<open>lock\<close>, about to read or to
  compare-exchange, with backoff \<open>b\<close>.  \<open>TryCas v\<close>: inside \<open>try_lock\<close>, having read \<open>v\<close>.
  \<open>Inside\<close>: the thread holds the lock.
\<close>

datatype lock_pc = Outside | LockRead u32 | LockCas u32 | TryCas u16 | Inside

record lock_sys =
  lock_word :: u16
  lock_pcs :: "nat \<Rightarrow> lock_pc"

definition init_lock_sys :: lock_sys where
  "init_lock_sys = \<lparr>lock_word = initialize_byte_lock 0, lock_pcs = (\<lambda>_. Outside)\<rparr>"

inductive lock_step :: "lock_sys \<Rightarrow> lock_sys \<Rightarrow> bool" where
  call_lock: "lock_pcs s i = Outside \<Longrightarrow> lock_step s (s\<lparr>lock_pcs := (lock_pcs s)(i := LockRead 1)\<rparr>)"
| lock_read: "lock_pcs s i = LockRead b \<Longrightarrow>
    b' = (if lock_word s = LOCKED then next_backoff b else b) \<Longrightarrow>
    lock_step s (s\<lparr>lock_pcs := (lock_pcs s)(i := LockCas b')\<rparr>)"
| lock_cas: "lock_pcs s i = LockCas b \<Longrightarrow>
    compare_exchange (lock_word s) LOCKED UNLOCKED = (original, new) \<Longrightarrow>
    pc = (if original = UNLOCKED then Inside else LockRead b) \<Longrightarrow>
    lock_step s (s\<lparr>lock_word := new, lock_pcs := (lock_pcs s)(i := pc)\<rparr>)"
| call_try_lock: "lock_pcs s i = Outside \<Longrightarrow>
    lock_step s (s\<lparr>lock_pcs := (lock_pcs s)(i := TryCas (lock_word s))\<rparr>)"
| try_cas: "lock_pcs s i = TryCas seen \<Longrightarrow> try_lock seen (lock_word s) = (ok, new) \<Longrightarrow>
    pc = (if ok then Inside else Outside) \<Longrightarrow>
    lock_step s (s\<lparr>lock_word := new, lock_pcs := (lock_pcs s)(i := pc)\<rparr>)"
| call_unlock: "lock_pcs s i = Inside \<Longrightarrow> unlock (lock_word s) (lock_word s) = Inr new \<Longrightarrow>
    lock_step s (s\<lparr>lock_word := new, lock_pcs := (lock_pcs s)(i := Outside)\<rparr>)"

inductive lock_reachable :: "lock_sys \<Rightarrow> bool" where
  start: "lock_reachable init_lock_sys"
| step: "lock_reachable s \<Longrightarrow> lock_step s t \<Longrightarrow> lock_reachable t"

inductive_cases lock_stepE: "lock_step s t"

text \<open>The semaphore is taken exactly while one thread is inside.\<close>

definition lock_inv :: "lock_sys \<Rightarrow> bool" where
  "lock_inv s \<longleftrightarrow>
     (lock_word s = UNLOCKED \<and> (\<forall>i. lock_pcs s i \<noteq> Inside)) \<or>
     (lock_word s = LOCKED \<and> (\<exists>i. lock_pcs s i = Inside \<and> (\<forall>j. lock_pcs s j = Inside \<longrightarrow> j = i)))"

lemma lock_inv_init: "lock_inv init_lock_sys"
  by (simp add: lock_inv_def init_lock_sys_def initialize_byte_lock_def)

lemma lock_inv_free: "lock_word s = UNLOCKED \<Longrightarrow> lock_inv s \<longleftrightarrow> (\<forall>i. lock_pcs s i \<noteq> Inside)"
  by (auto simp: lock_inv_def)

lemma lock_inv_taken:
  "lock_word s = LOCKED \<Longrightarrow>
   lock_inv s \<longleftrightarrow> (\<exists>i. lock_pcs s i = Inside \<and> (\<forall>j. lock_pcs s j = Inside \<longrightarrow> j = i))"
  by (auto simp: lock_inv_def)

lemma lock_inv_move:
  "lock_inv s \<Longrightarrow> lock_pcs s i \<noteq> Inside \<Longrightarrow> pc \<noteq> Inside \<Longrightarrow>
   lock_inv (s\<lparr>lock_pcs := (lock_pcs s)(i := pc)\<rparr>)"
proof -
  assume *: "lock_inv s" "lock_pcs s i \<noteq> Inside" "pc \<noteq> Inside"
  let ?t = "s\<lparr>lock_pcs := (lock_pcs s)(i := pc)\<rparr>"
  have "lock_pcs ?t j = Inside \<longleftrightarrow> lock_pcs s j = Inside" for j using * by simp
  moreover have "lock_word ?t = lock_word s" by simp
  ultimately show ?thesis using *(1) unfolding lock_inv_def by metis
qed

lemma lock_inv_enter:
  "lock_inv s \<Longrightarrow> lock_word s = UNLOCKED \<Longrightarrow>
   lock_inv (s\<lparr>lock_word := LOCKED, lock_pcs := (lock_pcs s)(i := Inside)\<rparr>)"
  by (auto simp: lock_inv_def)

lemma lock_inv_leave:
  "lock_inv s \<Longrightarrow> lock_pcs s i = Inside \<Longrightarrow>
   lock_inv (s\<lparr>lock_word := UNLOCKED, lock_pcs := (lock_pcs s)(i := Outside)\<rparr>)"
  by (auto simp: lock_inv_def)

lemma lock_step_inv: "lock_step s t \<Longrightarrow> lock_inv s \<Longrightarrow> lock_inv t"
proof (induction rule: lock_step.induct)
  case (lock_cas s i b original new pc)
  then show ?case
    using lock_inv_enter [of s i] lock_inv_move [of s i "LockRead b"]
    by (auto simp: compare_exchange_def split: if_splits)
next
  case (try_cas s i seen ok new pc)
  then show ?case
    using lock_inv_enter [of s i] lock_inv_move [of s i Outside]
    by (auto simp: try_lock_def compare_exchange_def split: if_splits)
next
  case (call_unlock s i new)
  then show ?case
    using lock_inv_leave [of s i] by (auto simp: unlock_def lock_inv_def split: if_splits)
qed (auto intro!: lock_inv_move)

lemma lock_reachable_inv: "lock_reachable s \<Longrightarrow> lock_inv s"
  by (induction rule: lock_reachable.induct) (auto intro: lock_inv_init lock_step_inv)

lemma lock_inv_unique: "lock_inv s \<Longrightarrow> lock_pcs s i = Inside \<Longrightarrow> lock_pcs s j = Inside \<Longrightarrow> i = j"
  by (auto simp: lock_inv_def)

lemma lock_inv_semaphore: "lock_inv s \<Longrightarrow> lock_pcs s i = Inside \<Longrightarrow> lock_word s = LOCKED"
  by (auto simp: lock_inv_def)


section \<open>Properties\<close>

text \<open>
  C27: mutual exclusion.  However the threads interleave their calls of \<open>lock\<close>, \<open>try_lock\<close> and
  \<open>unlock\<close>, at most one of them is inside, and when that one leaves, \<open>unlock\<close> passes its assertion
  and the semaphore is free again.
\<close>

theorem lock_mutual_exclusion:
  assumes "lock_reachable s" and "lock_pcs s i = Inside"
  shows "unlock (lock_word s) (lock_word s) = Inr UNLOCKED \<and>
         (\<forall>j. lock_pcs s j = Inside \<longleftrightarrow> j = i)"
proof -
  have inv: "lock_inv s" using assms(1) by (rule lock_reachable_inv)
  then have "lock_word s = LOCKED" using assms(2) by (rule lock_inv_semaphore)
  then have "unlock (lock_word s) (lock_word s) = Inr UNLOCKED" by (simp add: unlock_def)
  moreover have "\<forall>j. lock_pcs s j = Inside \<longleftrightarrow> j = i"
    using lock_inv_unique [OF inv assms(2)] assms(2) by metis
  ultimately show ?thesis ..
qed

lemma lock_reachable_inside:
  "lock_reachable (init_lock_sys\<lparr>lock_word := LOCKED, lock_pcs := (\<lambda>_. Outside)(0 := Inside)\<rparr>)"
proof -
  let ?s = "init_lock_sys\<lparr>lock_pcs := (lock_pcs init_lock_sys)(0 := TryCas (lock_word init_lock_sys))\<rparr>"
  have r: "lock_reachable ?s"
    by (rule lock_reachable.step [OF lock_reachable.start call_try_lock]) (simp add: init_lock_sys_def)
  have "lock_step ?s (?s\<lparr>lock_word := LOCKED, lock_pcs := (lock_pcs ?s)(0 := Inside)\<rparr>)"
    by (rule try_cas [of _ _ "0 :: u16" True])
      (simp_all add: init_lock_sys_def initialize_byte_lock_def try_lock_def compare_exchange_def)
  then have "lock_reachable (?s\<lparr>lock_word := LOCKED, lock_pcs := (lock_pcs ?s)(0 := Inside)\<rparr>)"
    using r by (rule lock_reachable.step [rotated])
  then show ?thesis by (simp add: init_lock_sys_def)
qed

lemma lock_mutual_exclusion_witness:
  "unlock LOCKED LOCKED = Inr UNLOCKED \<and>
   (\<forall>j. ((\<lambda>_. Outside)(0 := Inside)) j = Inside \<longleftrightarrow> j = (0 :: nat))"
  using lock_mutual_exclusion [OF lock_reachable_inside, of 0] by (simp add: init_lock_sys_def)

text \<open>
  C37: \<open>lock\<close> returns as soon as one of its compare-exchanges finds the semaphore free, and only
  then; it then has spun for at most 64 yields per round, however long it waited.
\<close>

theorem lock_returns_bounded:
  "(lock obs \<noteq> None \<longleftrightarrow> (\<exists>ob \<in> set obs. snd ob = UNLOCKED)) \<and>
   (lock obs = Some (rounds, yields) \<longrightarrow> rounds < length obs \<and> yields \<le> 64 * (rounds + 1))"
proof -
  have "lock obs = Some (rounds, yields) \<Longrightarrow> 0 \<le> rounds \<and> rounds < 0 + length obs \<and>
      yields \<le> 0 + 64 * (Suc rounds - 0)"
    using lock_spin_bounds [of obs 1 0 0 rounds yields] by (simp add: lock_def)
  then show ?thesis using lock_spin_returns [of obs 1 0 0] by (auto simp: lock_def)
qed

lemma lock_returns_bounded_witness:
  "lock [(1, 1), (1, 1), (0, 0)] = Some (2, 3) \<and> (2 :: nat) < 3 \<and> (3 :: nat) \<le> 64 * (2 + 1)"
proof -
  have "lock [(1, 1), (1, 1), (0, 0)] = Some (2, 3)" by code_simp
  then show ?thesis using lock_returns_bounded [of "[(1, 1), (1, 1), (0, 0)]" 2 3] by simp
qed

text \<open>
  The retry loops of the page lists do not back off exponentially.  \<open>max\<close> in the place of \<open>min\<close>
  makes every delay at least 64, which \<open>wait\<close> cuts to exactly 64 yields; the loop of \<open>lock\<close>, which
  has \<open>min\<close>, doubles from 1 up to 64.
\<close>

theorem retry_wait_is_constant:
  "wait_yields (next_wait_time wait_time) = MAX_WAIT_TIME_BEFORE_RETRY \<and>
   map (\<lambda>n. (next_backoff ^^ n) 1) [0..<9] = [1, 2, 4, 8, 16, 32, 64, 64, 64]"
proof -
  have "map (\<lambda>n. (next_backoff ^^ n) 1) [0..<9] = [1, 2, 4, 8, 16, 32, 64, 64, 64]" by code_simp
  then show ?thesis by simp
qed

end
