(* ===== verification/Pte.thy ===== *)
theory Pte
  imports Bitfield Locks
begin

text \<open>
  Page table entries (data_structures/pte.h, pte.c).  An entry is a 64-bit word shared by three
  overlapping formats and, beside it, a byte lock.  \<open>valid\<close>, \<open>status\<close>, \<open>readwrite\<close>, \<open>dirty\<close> and
  \<open>accessed\<close> sit at the same bits in all formats; bits 5 to 44 hold the frame number of the memory
  and transition formats and the disk index of the disk format.  A pointer to an entry is its index
  in the page table \<open>PTE_base\<close>.

  \<open>pte_view\<close> reads a word as the state it encodes; the lemmas show what each update of pte.c does
  to that state, and that the translations between addresses and entries are inverse.
\<close>

definition PTE_INVALID :: u64 where [simp]: "PTE_INVALID = 0"
definition PTE_VALID :: u64 where [simp]: "PTE_VALID = 1"
definition PTE_IN_TRANSITION :: u64 where [simp]: "PTE_IN_TRANSITION = 0"
definition PTE_ON_DISK :: u64 where [simp]: "PTE_ON_DISK = 1"
definition PTE_ACCESSED :: u64 where [simp]: "PTE_ACCESSED = 1"
definition PTE_STATUS_BIT_FOR_VALID :: u64 where [simp]: "PTE_STATUS_BIT_FOR_VALID = 0"
definition STATE_BITS :: nat where [simp]: "STATE_BITS = 5"
definition DISK_INDEX_BITS :: nat where [simp]: "DISK_INDEX_BITS = 40"
definition FRAME_NUMBER_BITS :: nat where [simp]: "FRAME_NUMBER_BITS = 40"
definition ACCESSED_BIT_POSITION :: nat where [simp]: "ACCESSED_BIT_POSITION = 4"
definition NO_FRAME_ASSIGNED :: u64 where [simp]: "NO_FRAME_ASSIGNED = 0"
definition ZERO_PTE :: u64 where [simp]: "ZERO_PTE = 0"

text \<open>The members of \<open>VALID_PTE\<close>, \<open>TRANSITION_PTE\<close> and \<open>INVALID_PTE\<close>.\<close>

definition get_valid :: "u64 \<Rightarrow> u64" where "get_valid = get_bits 0 1"
definition put_valid :: "u64 \<Rightarrow> u64 \<Rightarrow> u64" where "put_valid = put_bits 0 1"
definition get_status :: "u64 \<Rightarrow> u64" where "get_status = get_bits 1 1"
definition put_status :: "u64 \<Rightarrow> u64 \<Rightarrow> u64" where "put_status = put_bits 1 1"
definition get_accessed :: "u64 \<Rightarrow> u64" where "get_accessed = get_bits 4 1"
definition put_accessed :: "u64 \<Rightarrow> u64 \<Rightarrow> u64" where "put_accessed = put_bits 4 1"
definition get_frame_number :: "u64 \<Rightarrow> u64" where
  "get_frame_number = get_bits STATE_BITS FRAME_NUMBER_BITS"
definition put_frame_number :: "u64 \<Rightarrow> u64 \<Rightarrow> u64" where
  "put_frame_number = put_bits STATE_BITS FRAME_NUMBER_BITS"
definition get_disk_index :: "u64 \<Rightarrow> u64" where
  "get_disk_index = get_bits STATE_BITS DISK_INDEX_BITS"
definition put_disk_index :: "u64 \<Rightarrow> u64 \<Rightarrow> u64" where
  "put_disk_index = put_bits STATE_BITS DISK_INDEX_BITS"

lemmas pte_field_defs = get_valid_def put_valid_def get_status_def put_status_def
  get_accessed_def put_accessed_def get_frame_number_def put_frame_number_def
  get_disk_index_def put_disk_index_def

interpretation valid_field: bit_field 1 get_valid put_valid
  unfolding pte_field_defs by (rule bits_bit_field) simp

interpretation status_field: bit_field 1 get_status put_status
  unfolding pte_field_defs by (rule bits_bit_field) simp

interpretation accessed_field: bit_field 1 get_accessed put_accessed
  unfolding pte_field_defs by (rule bits_bit_field) simp

interpretation frame_field: bit_field 40 get_frame_number put_frame_number
  unfolding pte_field_defs STATE_BITS_def FRAME_NUMBER_BITS_def by (rule bits_bit_field) simp

interpretation disk_field: bit_field 40 get_disk_index put_disk_index
  unfolding pte_field_defs STATE_BITS_def DISK_INDEX_BITS_def by (rule bits_bit_field) simp

interpretation valid_status: field_pair 1 get_valid put_valid 1 get_status put_status
  unfolding pte_field_defs by (rule bits_field_pair) simp_all

interpretation valid_frame: field_pair 1 get_valid put_valid 40 get_frame_number put_frame_number
  unfolding pte_field_defs STATE_BITS_def FRAME_NUMBER_BITS_def by (rule bits_field_pair) simp_all

interpretation valid_disk: field_pair 1 get_valid put_valid 40 get_disk_index put_disk_index
  unfolding pte_field_defs STATE_BITS_def DISK_INDEX_BITS_def by (rule bits_field_pair) simp_all

interpretation status_frame: field_pair 1 get_status put_status 40 get_frame_number put_frame_number
  unfolding pte_field_defs STATE_BITS_def FRAME_NUMBER_BITS_def by (rule bits_field_pair) simp_all

interpretation status_disk: field_pair 1 get_status put_status 40 get_disk_index put_disk_index
  unfolding pte_field_defs STATE_BITS_def DISK_INDEX_BITS_def by (rule bits_field_pair) simp_all

interpretation accessed_valid: field_pair 1 get_accessed put_accessed 1 get_valid put_valid
  unfolding pte_field_defs by (rule bits_field_pair) simp_all

interpretation accessed_status: field_pair 1 get_accessed put_accessed 1 get_status put_status
  unfolding pte_field_defs by (rule bits_field_pair) simp_all

interpretation accessed_frame:
  field_pair 1 get_accessed put_accessed 40 get_frame_number put_frame_number
  unfolding pte_field_defs STATE_BITS_def FRAME_NUMBER_BITS_def by (rule bits_field_pair) simp_all

interpretation accessed_disk:
  field_pair 1 get_accessed put_accessed 40 get_disk_index put_disk_index
  unfolding pte_field_defs STATE_BITS_def DISK_INDEX_BITS_def by (rule bits_field_pair) simp_all

text \<open>Reading a member after writing one.\<close>

lemmas pte_fields =
  valid_field.get_put status_field.get_put accessed_field.get_put frame_field.get_put
  disk_field.get_put
  valid_status.get_put_other valid_status.get_other_put
  valid_frame.get_put_other valid_frame.get_other_put
  valid_disk.get_put_other valid_disk.get_other_put
  status_frame.get_put_other status_frame.get_other_put
  status_disk.get_put_other status_disk.get_other_put
  accessed_valid.get_put_other accessed_valid.get_other_put
  accessed_status.get_put_other accessed_status.get_other_put
  accessed_frame.get_put_other accessed_frame.get_other_put
  accessed_disk.get_put_other accessed_disk.get_other_put

lemma get_disk_index_eq_frame: "get_disk_index = get_frame_number"
  by (simp add: pte_field_defs)


section \<open>Tests and updates\<close>

definition IS_PTE_ZEROED :: "u64 \<Rightarrow> bool" where
  "IS_PTE_ZEROED pte \<longleftrightarrow> pte = ZERO_PTE"

definition IS_PTE_VALID :: "u64 \<Rightarrow> bool" where
  "IS_PTE_VALID pte \<longleftrightarrow> get_valid pte = PTE_VALID"

definition IS_PTE_TRANSITION :: "u64 \<Rightarrow> bool" where
  "IS_PTE_TRANSITION pte \<longleftrightarrow> get_valid pte = PTE_INVALID \<and> get_status pte = PTE_IN_TRANSITION
     \<and> get_frame_number pte \<noteq> NO_FRAME_ASSIGNED"

definition IS_PTE_ON_DISK :: "u64 \<Rightarrow> bool" where
  "IS_PTE_ON_DISK pte \<longleftrightarrow> get_valid pte = PTE_INVALID \<and> get_status pte = PTE_ON_DISK"

definition IS_PTE_ACCESSED :: "u64 \<Rightarrow> bool" where
  "IS_PTE_ACCESSED pte \<longleftrightarrow> get_accessed pte = PTE_ACCESSED"

definition set_PTE_to_transition :: "u64 \<Rightarrow> u64" where
  "set_PTE_to_transition raw = put_status PTE_IN_TRANSITION (put_valid PTE_INVALID raw)"

definition set_PTE_to_valid :: "u64 \<Rightarrow> u64 \<Rightarrow> u64" where
  "set_PTE_to_valid frame_number raw =
     put_frame_number frame_number
       (put_status PTE_STATUS_BIT_FOR_VALID (put_valid PTE_VALID raw))"

text \<open>\<open>map_pte_to_disk\<close> after its check of the disk slot (which Disk.thy models).\<close>

definition map_pte_to_disk :: "u64 \<Rightarrow> u64 \<Rightarrow> u64" where
  "map_pte_to_disk disk_index raw =
     put_disk_index disk_index
       (put_status PTE_ON_DISK (put_valid PTE_INVALID (put_frame_number NO_FRAME_ASSIGNED raw)))"

text \<open>
  \<open>set_accessed_bit\<close> on the entry's word.  The code hands the compare-exchange the \<^emph>\<open>addresses\<close> of
  its local variables \<open>accessed\<close> and \<open>snapshot\<close>, cast to integers, and these addresses are arguments
  here: the word becomes \<open>accessed_addr\<close> if it equals \<open>snapshot_addr\<close>.
\<close>

definition set_accessed_bit :: "u64 \<Rightarrow> u64 \<Rightarrow> u64 \<Rightarrow> u64" where
  "set_accessed_bit accessed_addr snapshot_addr pte =
     (if \<not> IS_PTE_VALID pte then pte
      else if IS_PTE_ACCESSED pte then pte
      else snd (compare_exchange pte accessed_addr snapshot_addr))"

text \<open>\<open>clear_accessed_bit\<close>: resets the bit and asserts that it was set.\<close>

definition clear_accessed_bit :: "u64 \<Rightarrow> fault + u64" where
  "clear_accessed_bit pte =
     (if bit pte ACCESSED_BIT_POSITION then Inr (put_accessed 0 pte) else Inl DebugBreakHit)"

text \<open>Address translation.  \<open>ASSERT\<close> compares pointers, so \<open>va_size_in_bytes\<close> counts words there.\<close>

definition get_PTE_from_VA :: "vm_state \<Rightarrow> u64 \<Rightarrow> fault + nat" where
  "get_PTE_from_VA vm va =
     (if application_va_base vm \<le> va
         \<and> va \<le> application_va_base vm + va_size_in_bytes vm * BYTES_PER_VA
      then Inr (unat ((va - application_va_base vm) div PAGE_SIZE))
      else Inl DebugBreakHit)"

definition get_VA_from_PTE :: "vm_state \<Rightarrow> nat \<Rightarrow> fault + u64" where
  "get_VA_from_PTE vm pte =
     (if pte \<le> unat (num_ptes vm)
      then Inr (application_va_base vm + of_nat pte * PAGE_SIZE)
      else Inl DebugBreakHit)"



section \<open>The state an entry encodes\<close>

text \<open>
  \<open>LimboView\<close> is any invalid word that is neither on disk, nor in transition, nor zero: no branch of
  the fault handler applies to it.
\<close>

datatype pte_view = ZeroedView | ValidView u64 | TransitionView u64 | DiskView u64 | LimboView

definition pte_view :: "u64 \<Rightarrow> pte_view" where
  "pte_view pte =
     (if IS_PTE_VALID pte then ValidView (get_frame_number pte)
      else if IS_PTE_ON_DISK pte then DiskView (get_disk_index pte)
      else if IS_PTE_TRANSITION pte then TransitionView (get_frame_number pte)
      else if IS_PTE_ZEROED pte then ZeroedView
      else LimboView)"

lemma one_bit_cases: "get_bits off 1 w = (0 :: u64) \<or> get_bits off 1 w = 1"
proof -
  have "unat (get_bits off 1 w) < 2" using get_bits_bound [of off 1 w] by simp
  then have "unat (get_bits off 1 w) = unat (0 :: u64) \<or> unat (get_bits off 1 w) = unat (1 :: u64)"
    by auto
  then show ?thesis by (simp only: word_unat_eq_iff)
qed

lemma get_valid_cases: "get_valid w = 0 \<or> get_valid w = 1"
  and get_status_cases: "get_status w = 0 \<or> get_status w = 1"
  and get_accessed_cases: "get_accessed w = 0 \<or> get_accessed w = 1"
  unfolding pte_field_defs by (rule one_bit_cases)+

lemma get_field_zero [simp]: "get_valid 0 = 0" "get_status 0 = 0" "get_accessed 0 = 0"
  "get_frame_number 0 = 0" "get_disk_index 0 = 0"
  by (simp_all add: pte_field_defs)

lemma get_frame_number_small: "unat (get_frame_number w) < 2 ^ 40"
  unfolding get_frame_number_def FRAME_NUMBER_BITS_def by (rule get_bits_bound)

lemma frame_number_fits: "take_bit 40 (get_frame_number w) = get_frame_number w"
  by (rule frame_field.get_width)

lemmas pte_tests = IS_PTE_ZEROED_def IS_PTE_VALID_def IS_PTE_TRANSITION_def IS_PTE_ON_DISK_def
  IS_PTE_ACCESSED_def

lemma pte_view_valid_iff: "IS_PTE_VALID w \<longleftrightarrow> (\<exists>f. pte_view w = ValidView f)"
  and pte_view_disk_iff: "IS_PTE_ON_DISK w \<longleftrightarrow> (\<exists>d. pte_view w = DiskView d)"
  and pte_view_transition_iff: "IS_PTE_TRANSITION w \<longleftrightarrow> (\<exists>f. pte_view w = TransitionView f)"
  and pte_view_zeroed_iff: "IS_PTE_ZEROED w \<longleftrightarrow> pte_view w = ZeroedView"
  using get_valid_cases [of w] by (auto simp: pte_view_def pte_tests)

lemma pte_view_ValidD: "pte_view w = ValidView f \<Longrightarrow> IS_PTE_VALID w \<and> get_frame_number w = f"
  and pte_view_DiskD: "pte_view w = DiskView d \<Longrightarrow> IS_PTE_ON_DISK w \<and> get_disk_index w = d"
  and pte_view_TransitionD:
    "pte_view w = TransitionView f \<Longrightarrow> IS_PTE_TRANSITION w \<and> get_frame_number w = f"
  by (auto simp: pte_view_def split: if_splits)

lemma pte_view_zero [simp]: "pte_view 0 = ZeroedView"
  by (simp add: pte_view_def pte_tests)

lemma view_set_PTE_to_valid: "pte_view (set_PTE_to_valid f w) = ValidView (take_bit 40 f)"
  by (simp add: pte_view_def set_PTE_to_valid_def pte_tests pte_fields)

lemma view_map_pte_to_disk: "pte_view (map_pte_to_disk d w) = DiskView (take_bit 40 d)"
  by (simp add: pte_view_def map_pte_to_disk_def pte_tests pte_fields)

lemma view_set_PTE_to_transition:
  "get_frame_number w \<noteq> 0 \<Longrightarrow>
   pte_view (set_PTE_to_transition w) = TransitionView (get_frame_number w)"
  by (simp add: pte_view_def set_PTE_to_transition_def pte_tests pte_fields)

text \<open>
  Trimming the page in frame 0 would lose it: the entry turns into the zero entry (when no other
  bit is set), and the next fault hands out a fresh zero page.
\<close>

lemma transition_of_frame_zero:
  "IS_PTE_TRANSITION (set_PTE_to_transition (set_PTE_to_valid 0 0)) = False"
  "pte_view (set_PTE_to_transition (set_PTE_to_valid 0 0)) = ZeroedView"
proof -
  have "set_PTE_to_transition (set_PTE_to_valid 0 0) = 0"
    by (rule bit_word_eqI)
      (auto simp: set_PTE_to_transition_def set_PTE_to_valid_def pte_field_defs bit_put_bits bit_1_iff)
  then show "IS_PTE_TRANSITION (set_PTE_to_transition (set_PTE_to_valid 0 0)) = False"
    "pte_view (set_PTE_to_transition (set_PTE_to_valid 0 0)) = ZeroedView"
    by (simp_all add: IS_PTE_TRANSITION_def)
qed

lemma accessed_unchanged:
  "get_accessed (set_PTE_to_valid f w) = get_accessed w"
  "get_accessed (map_pte_to_disk d w) = get_accessed w"
  "get_accessed (set_PTE_to_transition w) = get_accessed w"
  by (simp_all add: set_PTE_to_valid_def map_pte_to_disk_def set_PTE_to_transition_def pte_fields)

lemma view_clear_accessed: "pte_view (put_accessed 0 w) = pte_view w \<or> pte_view w = LimboView"
proof -
  have "put_accessed 0 w = 0 \<Longrightarrow> w \<noteq> 0 \<Longrightarrow> pte_view w = LimboView"
    by (metis IS_PTE_ON_DISK_def IS_PTE_TRANSITION_def IS_PTE_VALID_def IS_PTE_ZEROED_def
        NO_FRAME_ASSIGNED_def PTE_ON_DISK_def PTE_VALID_def ZERO_PTE_def accessed_frame.get_other_put
        accessed_status.get_other_put accessed_valid.get_other_put get_field_zero pte_view_def
        zero_neq_one)
  moreover have "put_accessed 0 0 = 0" by (simp add: pte_field_defs put_bits_def)
  ultimately show ?thesis
    by (auto simp: pte_view_def pte_tests pte_fields)
qed


section \<open>The accessed bit\<close>

lemma bit_put_accessed: "bit (put_accessed v w) n \<longleftrightarrow> (if n = 4 then bit v 0 else bit w n)"
  by (auto simp: put_accessed_def bit_put_bits)

lemma valid_bit0: "IS_PTE_VALID w \<Longrightarrow> bit w 0"
proof -
  assume "IS_PTE_VALID w"
  then have "bit (get_valid w) 0" by (simp add: IS_PTE_VALID_def)
  then show ?thesis by (simp add: get_valid_def bit_get_bits)
qed

text \<open>
  A \<open>PTE\<close> object contains a 64-bit member, so the address of the local copy \<open>snapshot\<close> is a multiple
  of 8, while a valid entry is odd: the compare-exchange never succeeds.
\<close>

lemma set_accessed_bit_noop:
  assumes "8 dvd unat snapshot_addr"
  shows "set_accessed_bit accessed_addr snapshot_addr w = w"
proof (cases "w = snapshot_addr")
  case True
  have "even (unat snapshot_addr)" using assms by (meson dvd_trans even_numeral)
  then have "\<not> bit (unat snapshot_addr) 0" by (simp add: bit_0)
  then have "\<not> bit snapshot_addr 0" by (simp add: bit_unsigned_iff)
  then have "\<not> IS_PTE_VALID w" using True valid_bit0 by blast
  then show ?thesis by (simp add: set_accessed_bit_def)
next
  case False
  then show ?thesis by (simp add: set_accessed_bit_def compare_exchange_def)
qed


section \<open>Addresses and entries\<close>

lemma len64: "2 ^ LENGTH(64) = (2 ^ 64 :: nat)"
  by simp

text \<open>A sound configuration: the table covers the region, which does not wrap around.\<close>

definition va_region_ok :: "vm_state \<Rightarrow> bool" where
  "va_region_ok vm \<longleftrightarrow>
     va_size_in_bytes vm = num_ptes vm * PAGE_SIZE \<and>
     unat (application_va_base vm) + unat (num_ptes vm) * 4096 * 8 < 2 ^ 64 \<and>
     4096 dvd unat (application_va_base vm) \<and>
     va_size_in_pointers vm = num_ptes vm * 512"

lemma entry_va_unat:
  assumes "va_region_ok vm" and "i \<le> unat (num_ptes vm)"
  shows "unat (application_va_base vm + of_nat i * PAGE_SIZE) =
         unat (application_va_base vm) + i * 4096"
proof -
  have "unat (application_va_base vm) + i * 4096 < 2 ^ 64"
    using assms by (simp add: va_region_ok_def)
  moreover have "application_va_base vm + of_nat i * PAGE_SIZE =
      (of_nat (unat (application_va_base vm) + i * 4096) :: u64)"
    by simp
  ultimately show ?thesis by (simp only: unat_of_nat mod_less len64)
qed


lemma va_offset:
  assumes "b \<le> (va :: u64)"
  shows "unat ((va - b) div PAGE_SIZE) = (unat va - unat b) div 4096"
  using assms by (simp add: unat_div unat_sub)

lemma assert_bound:
  assumes "va_region_ok vm"
  shows "unat (application_va_base vm + va_size_in_bytes vm * BYTES_PER_VA) =
         unat (application_va_base vm) + unat (num_ptes vm) * 4096 * 8"
proof -
  have "application_va_base vm + va_size_in_bytes vm * BYTES_PER_VA =
      (of_nat (unat (application_va_base vm) + unat (num_ptes vm) * 4096 * 8) :: u64)"
    using assms by (simp add: va_region_ok_def)
  moreover have "unat (application_va_base vm) + unat (num_ptes vm) * 4096 * 8 < 2 ^ 64"
    using assms by (simp add: va_region_ok_def)
  ultimately show ?thesis by (simp only: unat_of_nat mod_less len64)
qed

text \<open>
  The check in \<open>get_PTE_from_VA\<close> accepts eight times the region and its end; \<open>pte_of_va\<close> is what the
  function returns then.
\<close>

definition pte_of_va :: "vm_state \<Rightarrow> u64 \<Rightarrow> nat" where
  "pte_of_va vm va = (unat va - unat (application_va_base vm)) div 4096"

lemma get_PTE_from_VA_accepts:
  assumes "va_region_ok vm" and "application_va_base vm \<le> va"
    and "unat va \<le> unat (application_va_base vm) + unat (num_ptes vm) * 4096 * 8"
  shows "get_PTE_from_VA vm va = Inr (pte_of_va vm va)"
proof -
  have "va \<le> application_va_base vm + va_size_in_bytes vm * BYTES_PER_VA"
    using assms by (simp only: word_le_nat_alt assert_bound)
  then show ?thesis
    using assms(2) by (simp only: get_PTE_from_VA_def va_offset pte_of_va_def if_True conj_absorb simp_thms)
qed

definition in_va_region :: "vm_state \<Rightarrow> u64 \<Rightarrow> bool" where
  "in_va_region vm va \<longleftrightarrow> application_va_base vm \<le> va \<and>
     unat va < unat (application_va_base vm) + unat (num_ptes vm) * 4096"

lemma pte_of_va_less:
  "in_va_region vm va \<Longrightarrow> pte_of_va vm va < unat (num_ptes vm)"
  by (auto simp: in_va_region_def pte_of_va_def word_le_nat_alt)

lemma get_PTE_from_VA_region:
  assumes "va_region_ok vm" and "in_va_region vm va"
  shows "get_PTE_from_VA vm va = Inr (pte_of_va vm va)"
  using assms by (intro get_PTE_from_VA_accepts) (auto simp: in_va_region_def)

lemma get_VA_from_PTE_ok:
  "i \<le> unat (num_ptes vm) \<Longrightarrow>
   get_VA_from_PTE vm i = Inr (application_va_base vm + of_nat i * PAGE_SIZE)"
  by (simp add: get_VA_from_PTE_def)

lemma entry_va_in_region:
  assumes "va_region_ok vm" and "i < unat (num_ptes vm)"
  shows "in_va_region vm (application_va_base vm + of_nat i * PAGE_SIZE)"
    and "pte_of_va vm (application_va_base vm + of_nat i * PAGE_SIZE) = i"
proof -
  have *: "unat (application_va_base vm + of_nat i * PAGE_SIZE) =
      unat (application_va_base vm) + i * 4096"
    using assms by (intro entry_va_unat) simp_all
  then show "in_va_region vm (application_va_base vm + of_nat i * PAGE_SIZE)"
    unfolding in_va_region_def word_le_nat_alt using assms(2) by simp
  show "pte_of_va vm (application_va_base vm + of_nat i * PAGE_SIZE) = i"
    unfolding pte_of_va_def using * by simp
qed

text \<open>\<open>initialize_page_table\<close>: the number of entries; every entry starts zeroed and unlocked.\<close>

record pte =
  entire_pte :: u64
  pte_lock :: u16

definition zero_pte :: pte where
  "zero_pte = \<lparr>entire_pte = ZERO_PTE, pte_lock = initialize_byte_lock 0\<rparr>"

definition initialize_page_table :: "vm_state \<Rightarrow> vm_state \<times> (nat \<Rightarrow> pte)" where
  "initialize_page_table vm =
     (vm\<lparr>num_ptes := va_size_in_bytes vm div PAGE_SIZE\<rparr>, (\<lambda>_. zero_pte))"


section \<open>Properties\<close>



text \<open>
  C31: every address of page \<open>i\<close> of the application region translates to entry \<open>i\<close>, and the entry
  translates back to the first address of the page.
\<close>

theorem va_pte_roundtrip:
  assumes "va_region_ok vm" and "i < unat (num_ptes vm)" and "k < 4096"
  shows "\<exists>va. get_VA_from_PTE vm i = Inr va \<and> get_PTE_from_VA vm va = Inr i \<and>
              get_PTE_from_VA vm (va + of_nat k) = Inr i"
proof -
  let ?va = "application_va_base vm + of_nat i * PAGE_SIZE"
  have le: "unat (application_va_base vm) + unat (num_ptes vm) * 4096 * 8 < 2 ^ 64"
    using assms(1) by (simp add: va_region_ok_def)
  have va: "unat ?va = unat (application_va_base vm) + i * 4096"
    using assms by (intro entry_va_unat) simp_all
  have "Suc i * 4096 \<le> unat (num_ptes vm) * 4096 * 8" using assms(2) by simp
  then have *: "unat ?va + k < unat (application_va_base vm) + unat (num_ptes vm) * 4096 * 8"
    using va assms(3) by simp
  have "?va + of_nat k = (of_nat (unat ?va + k) :: u64)" by simp
  moreover have "unat ?va + k < 2 ^ 64" using * le by simp
  ultimately have k: "unat (?va + of_nat k) = unat ?va + k" by (simp only: unat_of_nat mod_less len64)
  have "get_PTE_from_VA vm (?va + of_nat k) = Inr (pte_of_va vm (?va + of_nat k))"
    using assms(1) * k va by (intro get_PTE_from_VA_accepts) (simp_all add: word_le_nat_alt)
  moreover have "pte_of_va vm (?va + of_nat k) = i"
    using k va assms(3) by (simp add: pte_of_va_def)
  moreover have "get_PTE_from_VA vm ?va = Inr i"
    using get_PTE_from_VA_region [OF assms(1)] entry_va_in_region [OF assms(1,2)] by simp
  ultimately show ?thesis using get_VA_from_PTE_ok [of i vm] assms(2) by auto
qed

text \<open>A region of ten pages at address 65536.\<close>

definition small_va_region :: vm_state where
  "small_va_region = zero_vm\<lparr>va_size_in_bytes := 40960, va_size_in_pointers := 5120,
     application_va_base := 65536, num_ptes := 10\<rparr>"

lemma small_va_region_ok: "va_region_ok small_va_region"
  by (simp add: va_region_ok_def small_va_region_def dvd_def)

lemma va_pte_roundtrip_witness:
  "\<exists>va. get_VA_from_PTE small_va_region 3 = Inr va \<and>
        get_PTE_from_VA small_va_region (va + 4095) = Inr 3"
  using va_pte_roundtrip [OF small_va_region_ok, of 3 4095] by (auto simp: small_va_region_def)

text \<open>
  The bounds check of \<open>get_PTE_from_VA\<close> is too weak.  It adds a byte count to a pointer to
  words, so it accepts the address eight regions above the base and answers with an entry far
  outside the page table.
\<close>

theorem get_PTE_from_VA_accepts_outside:
  assumes "va_region_ok vm" and "0 < unat (num_ptes vm)"
  shows "\<exists>va i. \<not> in_va_region vm va \<and> get_PTE_from_VA vm va = Inr i \<and> unat (num_ptes vm) < i"
proof -
  let ?n = "unat (num_ptes vm) * 8"
  let ?va = "application_va_base vm + of_nat (?n * 4096)"
  have le: "unat (application_va_base vm) + ?n * 4096 < 2 ^ 64"
    using assms(1) by (simp add: va_region_ok_def algebra_simps)
  have "?va = (of_nat (unat (application_va_base vm) + ?n * 4096) :: u64)" by simp
  then have va: "unat ?va = unat (application_va_base vm) + ?n * 4096"
    using le by (simp only: unat_of_nat mod_less len64)
  then have "get_PTE_from_VA vm ?va = Inr (pte_of_va vm ?va)"
    using assms(1) by (intro get_PTE_from_VA_accepts) (simp_all add: word_le_nat_alt)
  moreover have "pte_of_va vm ?va = ?n" unfolding pte_of_va_def va by simp
  moreover have "\<not> in_va_region vm ?va" using va by (simp add: in_va_region_def)
  ultimately show ?thesis using assms(2) by (intro exI [of _ ?va] exI [of _ ?n]) simp
qed

lemma get_PTE_from_VA_accepts_outside_witness:
  "\<exists>va i. \<not> in_va_region small_va_region va \<and>
          get_PTE_from_VA small_va_region va = Inr i \<and> 10 < i"
  using get_PTE_from_VA_accepts_outside [OF small_va_region_ok]
  by (simp add: small_va_region_def)

text \<open>
  C38: \<open>set_accessed_bit\<close> never sets the bit.  Its compare-exchange is given the addresses of two
  local variables in the place of their values, and the address of a \<open>PTE\<close> (a multiple of 8) never
  equals a valid entry (which is odd).
\<close>

theorem accessed_bit_is_never_set:
  assumes "8 dvd unat snapshot_addr"
  shows "set_accessed_bit accessed_addr snapshot_addr entry = entry"
  using assms by (rule set_accessed_bit_noop)

lemma accessed_bit_is_never_set_witness:
  "set_accessed_bit 0x1000 0x1010 (set_PTE_to_valid 7 0) = set_PTE_to_valid 7 0 \<and>
   IS_PTE_VALID (set_PTE_to_valid 7 0)"
  using accessed_bit_is_never_set [where snapshot_addr = "0x1010" and accessed_addr = "0x1000"
      and entry = "set_PTE_to_valid 7 0"]
  by (simp add: pte_view_valid_iff view_set_PTE_to_valid dvd_def)


end
