(* ===== verification/Pfn.thy ===== *)
theory Pfn
  imports Pte
begin

text \<open>
  Page frame descriptors (data_structures/pfn.h, pfn.c).  A \<open>PFN\<close> links a page into the list it is
  on (\<open>flink\<close>, \<open>blink\<close>), names the page table entry that owns it and packs its lock, disk index and
  status into one 64-bit word: bits 0-15 lock, 16-55 disk index, 56-58 status, 59-63 reserved.

  A \<open>PPFN\<close> is either null, the descriptor of a frame in \<open>PFN_array\<close>, or a list head, which
  \<open>initialize_page_list\<close> allocates apart.
\<close>

datatype pfn_ptr = NullPfn | FramePfn u64 | HeadPfn nat

definition PFN_FREE :: u64 where [simp]: "PFN_FREE = 0"
definition PFN_ACTIVE :: u64 where [simp]: "PFN_ACTIVE = 1"
definition PFN_MID_TRIM :: u64 where [simp]: "PFN_MID_TRIM = 2"
definition PFN_MODIFIED :: u64 where [simp]: "PFN_MODIFIED = 3"
definition PFN_MID_WRITE :: u64 where [simp]: "PFN_MID_WRITE = 4"
definition PFN_STANDBY :: u64 where [simp]: "PFN_STANDBY = 5"
definition PFN_STATUS_BITS :: nat where [simp]: "PFN_STATUS_BITS = 3"
definition PFN_LOCK_SIZE_IN_BITS :: nat where [simp]: "PFN_LOCK_SIZE_IN_BITS = 16"
definition NO_DISK_INDEX :: u64 where [simp]: "NO_DISK_INDEX = 0"

record pfn =
  flink :: pfn_ptr
  blink :: pfn_ptr
  PTE :: "nat option"
  raw_pfn_data :: u64

text \<open>The members of \<open>FIELDS\<close>; \<open>lock.semaphore\<close> of the union is the same 16 bits as \<open>lock\<close>.\<close>

definition get_lock :: "u64 \<Rightarrow> u64" where "get_lock = get_bits 0 PFN_LOCK_SIZE_IN_BITS"
definition put_lock :: "u64 \<Rightarrow> u64 \<Rightarrow> u64" where "put_lock = put_bits 0 PFN_LOCK_SIZE_IN_BITS"
definition get_slot :: "u64 \<Rightarrow> u64" where "get_slot = get_bits 16 DISK_INDEX_BITS"
definition put_slot :: "u64 \<Rightarrow> u64 \<Rightarrow> u64" where "put_slot = put_bits 16 DISK_INDEX_BITS"
definition get_pfn_status :: "u64 \<Rightarrow> u64" where "get_pfn_status = get_bits 56 PFN_STATUS_BITS"
definition put_pfn_status :: "u64 \<Rightarrow> u64 \<Rightarrow> u64" where "put_pfn_status = put_bits 56 PFN_STATUS_BITS"

lemmas pfn_field_defs = get_lock_def put_lock_def get_slot_def put_slot_def
  get_pfn_status_def put_pfn_status_def

interpretation lock_field: bit_field 16 get_lock put_lock
  unfolding pfn_field_defs PFN_LOCK_SIZE_IN_BITS_def by (rule bits_bit_field) simp

interpretation slot_field: bit_field 40 get_slot put_slot
  unfolding pfn_field_defs DISK_INDEX_BITS_def by (rule bits_bit_field) simp

interpretation pfn_status_field: bit_field 3 get_pfn_status put_pfn_status
  unfolding pfn_field_defs PFN_STATUS_BITS_def by (rule bits_bit_field) simp

interpretation lock_slot: field_pair 16 get_lock put_lock 40 get_slot put_slot
  unfolding pfn_field_defs DISK_INDEX_BITS_def PFN_LOCK_SIZE_IN_BITS_def
  by (rule bits_field_pair) simp_all

interpretation lock_status: field_pair 16 get_lock put_lock 3 get_pfn_status put_pfn_status
  unfolding pfn_field_defs PFN_STATUS_BITS_def PFN_LOCK_SIZE_IN_BITS_def
  by (rule bits_field_pair) simp_all

interpretation slot_status: field_pair 40 get_slot put_slot 3 get_pfn_status put_pfn_status
  unfolding pfn_field_defs PFN_STATUS_BITS_def DISK_INDEX_BITS_def
  by (rule bits_field_pair) simp_all

lemmas pfn_fields =
  lock_field.get_put slot_field.get_put pfn_status_field.get_put
  lock_slot.get_put_other lock_slot.get_other_put
  lock_status.get_put_other lock_status.get_other_put
  slot_status.get_put_other slot_status.get_other_put


section \<open>Updates\<close>

definition status_of :: "pfn \<Rightarrow> u64" where "status_of p = get_pfn_status (raw_pfn_data p)"
definition slot_of :: "pfn \<Rightarrow> u64" where "slot_of p = get_slot (raw_pfn_data p)"
definition lock_of :: "pfn \<Rightarrow> u64" where "lock_of p = get_lock (raw_pfn_data p)"

definition IS_PFN_FREE :: "pfn \<Rightarrow> bool" where "IS_PFN_FREE p \<longleftrightarrow> status_of p = PFN_FREE"
definition IS_PFN_ACTIVE :: "pfn \<Rightarrow> bool" where "IS_PFN_ACTIVE p \<longleftrightarrow> status_of p = PFN_ACTIVE"
definition IS_PFN_MODIFIED :: "pfn \<Rightarrow> bool" where "IS_PFN_MODIFIED p \<longleftrightarrow> status_of p = PFN_MODIFIED"
definition IS_PFN_MID_WRITE :: "pfn \<Rightarrow> bool" where "IS_PFN_MID_WRITE p \<longleftrightarrow> status_of p = PFN_MID_WRITE"
definition IS_PFN_MID_TRIM :: "pfn \<Rightarrow> bool" where "IS_PFN_MID_TRIM p \<longleftrightarrow> status_of p = PFN_MID_TRIM"
definition IS_PFN_STANDBY :: "pfn \<Rightarrow> bool" where "IS_PFN_STANDBY p \<longleftrightarrow> status_of p = PFN_STANDBY"

definition SET_PFN_STATUS :: "u64 \<Rightarrow> pfn \<Rightarrow> pfn" where
  "SET_PFN_STATUS st p = p\<lparr>raw_pfn_data := put_pfn_status st (raw_pfn_data p)\<rparr>"

text \<open>
  The setters build the new word from a zeroed temporary, copying the lock out of a snapshot, and
  write it back in one piece.
\<close>

definition fresh_pfn_data :: "u64 \<Rightarrow> u64 \<Rightarrow> u64 \<Rightarrow> u64" where
  "fresh_pfn_data sem st slot = put_slot slot (put_pfn_status st (put_lock sem 0))"

definition create_zeroed_pfn :: "pfn \<Rightarrow> pfn" where
  "create_zeroed_pfn p =
     p\<lparr>raw_pfn_data := fresh_pfn_data (ucast UNLOCKED) PFN_FREE NO_DISK_INDEX, PTE := None\<rparr>"

definition zero_pfn :: pfn where
  "zero_pfn = \<lparr>flink = NullPfn, blink = NullPfn, PTE = None, raw_pfn_data = 0\<rparr>"

definition set_PFN_active :: "nat \<Rightarrow> pfn \<Rightarrow> pfn" where
  "set_PFN_active pte p =
     p\<lparr>raw_pfn_data := fresh_pfn_data (lock_of p) PFN_ACTIVE NO_DISK_INDEX, PTE := Some pte\<rparr>"

definition set_PFN_free :: "pfn \<Rightarrow> pfn" where
  "set_PFN_free p =
     p\<lparr>raw_pfn_data := fresh_pfn_data (lock_of p) PFN_FREE NO_DISK_INDEX, PTE := None\<rparr>"

definition set_pfn_standby :: "u64 \<Rightarrow> pfn \<Rightarrow> pfn" where
  "set_pfn_standby disk_index p =
     p\<lparr>raw_pfn_data := fresh_pfn_data (lock_of p) PFN_STANDBY disk_index\<rparr>"

definition set_pfn_mid_trim :: "pfn \<Rightarrow> pfn" where
  "set_pfn_mid_trim p =
     p\<lparr>raw_pfn_data := fresh_pfn_data (lock_of p) PFN_MID_TRIM (slot_of p)\<rparr>"

definition set_pfn_mid_write :: "pfn \<Rightarrow> pfn" where
  "set_pfn_mid_write p =
     p\<lparr>raw_pfn_data := fresh_pfn_data (lock_of p) PFN_MID_WRITE (slot_of p)\<rparr>"

text \<open>Descriptors and frames.\<close>

definition validate_pfn :: "vm_state \<Rightarrow> pfn_ptr \<Rightarrow> bool" where
  "validate_pfn vm p = (case p of FramePfn f \<Rightarrow> f \<le> max_frame_number vm | _ \<Rightarrow> False)"

definition get_frame_from_PFN :: "vm_state \<Rightarrow> pfn_ptr \<Rightarrow> fault + u64" where
  "get_frame_from_PFN vm p =
     (if validate_pfn vm p then (case p of FramePfn f \<Rightarrow> Inr f | _ \<Rightarrow> Inl DebugBreakHit)
      else Inl DebugBreakHit)"

definition get_PFN_from_frame :: "vm_state \<Rightarrow> u64 \<Rightarrow> fault + pfn_ptr" where
  "get_PFN_from_frame vm frame_number =
     (if min_frame_number vm \<le> frame_number \<and> frame_number \<le> max_frame_number vm
      then Inr (FramePfn frame_number) else Inl DebugBreakHit)"

definition get_PFN_from_PTE :: "vm_state \<Rightarrow> u64 \<Rightarrow> fault + pfn_ptr" where
  "get_PFN_from_PTE vm pte =
     (if get_status pte = PTE_ON_DISK then Inr NullPfn
      else get_PFN_from_frame vm (get_frame_number pte))"


section \<open>What the updates do to the members\<close>

lemma fresh_pfn_data_fields:
  "get_lock (fresh_pfn_data l st d) = take_bit 16 l"
  "get_pfn_status (fresh_pfn_data l st d) = take_bit 3 st"
  "get_slot (fresh_pfn_data l st d) = take_bit 40 d"
  by (simp_all add: fresh_pfn_data_def pfn_fields)

lemma lock_fits: "take_bit 16 (lock_of p) = lock_of p"
  and slot_fits: "take_bit 40 (slot_of p) = slot_of p"
  and status_fits: "take_bit 3 (status_of p) = status_of p"
  by (simp_all add: lock_of_def slot_of_def status_of_def lock_field.get_width
      slot_field.get_width pfn_status_field.get_width)

lemmas pfn_observers = status_of_def slot_of_def lock_of_def

lemma lock_unchanged [simp]:
  "lock_of (SET_PFN_STATUS st p) = lock_of p"
  "lock_of (set_PFN_active i p) = lock_of p"
  "lock_of (set_PFN_free p) = lock_of p"
  "lock_of (set_pfn_standby d p) = lock_of p"
  "lock_of (set_pfn_mid_trim p) = lock_of p"
  "lock_of (set_pfn_mid_write p) = lock_of p"
  using lock_fits [of p]
  by (simp_all add: lock_of_def SET_PFN_STATUS_def set_PFN_active_def set_PFN_free_def
      set_pfn_standby_def set_pfn_mid_trim_def set_pfn_mid_write_def fresh_pfn_data_fields pfn_fields)

lemma status_after [simp]:
  "status_of (SET_PFN_STATUS st p) = take_bit 3 st"
  "status_of (set_PFN_active i p) = PFN_ACTIVE"
  "status_of (set_PFN_free p) = PFN_FREE"
  "status_of (set_pfn_standby d p) = PFN_STANDBY"
  "status_of (set_pfn_mid_trim p) = PFN_MID_TRIM"
  "status_of (set_pfn_mid_write p) = PFN_MID_WRITE"
  by (simp_all add: status_of_def SET_PFN_STATUS_def set_PFN_active_def set_PFN_free_def
      set_pfn_standby_def set_pfn_mid_trim_def set_pfn_mid_write_def fresh_pfn_data_fields pfn_fields)

lemma slot_after [simp]:
  "slot_of (SET_PFN_STATUS st p) = slot_of p"
  "slot_of (set_PFN_active i p) = NO_DISK_INDEX"
  "slot_of (set_PFN_free p) = NO_DISK_INDEX"
  "slot_of (set_pfn_standby d p) = take_bit 40 d"
  "slot_of (set_pfn_mid_trim p) = slot_of p"
  "slot_of (set_pfn_mid_write p) = slot_of p"
  using slot_fits [of p]
  by (simp_all add: slot_of_def SET_PFN_STATUS_def set_PFN_active_def set_PFN_free_def
      set_pfn_standby_def set_pfn_mid_trim_def set_pfn_mid_write_def fresh_pfn_data_fields pfn_fields)

lemma links_unchanged [simp]:
  "flink (SET_PFN_STATUS st p) = flink p" "blink (SET_PFN_STATUS st p) = blink p"
  "flink (set_PFN_active i p) = flink p" "blink (set_PFN_active i p) = blink p"
  "flink (set_PFN_free p) = flink p" "blink (set_PFN_free p) = blink p"
  "flink (set_pfn_standby d p) = flink p" "blink (set_pfn_standby d p) = blink p"
  "flink (set_pfn_mid_trim p) = flink p" "blink (set_pfn_mid_trim p) = blink p"
  "flink (set_pfn_mid_write p) = flink p" "blink (set_pfn_mid_write p) = blink p"
  by (simp_all add: SET_PFN_STATUS_def set_PFN_active_def set_PFN_free_def
      set_pfn_standby_def set_pfn_mid_trim_def set_pfn_mid_write_def)

lemma owner_after [simp]:
  "PTE (SET_PFN_STATUS st p) = PTE p"
  "PTE (set_PFN_active i p) = Some i"
  "PTE (set_PFN_free p) = None"
  "PTE (set_pfn_standby d p) = PTE p"
  "PTE (set_pfn_mid_trim p) = PTE p"
  "PTE (set_pfn_mid_write p) = PTE p"
  by (simp_all add: SET_PFN_STATUS_def set_PFN_active_def set_PFN_free_def
      set_pfn_standby_def set_pfn_mid_trim_def set_pfn_mid_write_def)

lemma created_pfn [simp]:
  "lock_of (create_zeroed_pfn p) = 0" "status_of (create_zeroed_pfn p) = PFN_FREE"
  "slot_of (create_zeroed_pfn p) = NO_DISK_INDEX" "PTE (create_zeroed_pfn p) = None"
  by (simp_all add: pfn_observers create_zeroed_pfn_def fresh_pfn_data_fields)

text \<open>The two directions between frames and descriptors are inverse on allocated frames.\<close>

lemma frame_pfn_roundtrip:
  "get_PFN_from_frame vm f = Inr p \<Longrightarrow> get_frame_from_PFN vm p = Inr f"
  by (auto simp: get_PFN_from_frame_def get_frame_from_PFN_def validate_pfn_def split: if_splits)

lemma get_PFN_from_PTE_valid:
  "pte_view w = ValidView f \<Longrightarrow> min_frame_number vm \<le> f \<Longrightarrow> f \<le> max_frame_number vm \<Longrightarrow>
   get_status w = 0 \<Longrightarrow> get_PFN_from_PTE vm w = Inr (FramePfn f)"
  by (auto dest!: pte_view_ValidD simp: get_PFN_from_PTE_def get_PFN_from_frame_def)


section \<open>Properties\<close>

text \<open>
  Each state change of pfn.c writes the status it is named after and the disk index its
  contract gives, moves no link, and keeps the lock, although it rebuilds the word that holds the
  lock from scratch.
\<close>

theorem pfn_updates_keep_lock:
  assumes "unat d < 2 ^ 40"
  shows "status_of (set_PFN_active i p) = PFN_ACTIVE \<and> slot_of (set_PFN_active i p) = NO_DISK_INDEX \<and>
         PTE (set_PFN_active i p) = Some i \<and>
         status_of (set_PFN_free p) = PFN_FREE \<and> slot_of (set_PFN_free p) = NO_DISK_INDEX \<and>
         PTE (set_PFN_free p) = None \<and>
         status_of (set_pfn_standby d p) = PFN_STANDBY \<and> slot_of (set_pfn_standby d p) = d \<and>
         status_of (set_pfn_mid_write p) = PFN_MID_WRITE \<and> slot_of (set_pfn_mid_write p) = slot_of p \<and>
         (\<forall>q \<in> {set_PFN_active i p, set_PFN_free p, set_pfn_standby d p, set_pfn_mid_write p,
                set_pfn_mid_trim p, SET_PFN_STATUS PFN_MODIFIED p}.
            lock_of q = lock_of p \<and> flink q = flink p \<and> blink q = blink p)"
proof -
  have "take_bit 40 d = d" using assms by (simp only: take_bit_less_iff)
  then show ?thesis by simp
qed

lemma pfn_updates_keep_lock_witness:
  "slot_of (set_pfn_standby 5 (create_zeroed_pfn zero_pfn)) = 5 \<and>
   lock_of (set_pfn_standby 5 (create_zeroed_pfn zero_pfn)) = 0"
  using pfn_updates_keep_lock [of 5 0 "create_zeroed_pfn zero_pfn"] by simp

end
