(* ===== verification/Disk.thy ===== *)
theory Disk
  imports Pfn
begin

text \<open>
  The page file and its slot allocator (data_structures/disk.h, disk.c).  One bit per slot, 64 slots
  to a bitmap row; the writer also keeps a stack of slots it has set in the bitmap but not used yet.
  Slot 0 stays set for ever, since disk index 0 means "none".

  Programs run on \<open>page_file_state\<close>, the model of \<open>PAGE_FILE_STRUCT\<close>.  Arrays are functions from
  the index; the rows of the bitmap and the entries of the stack are bounds-checked, and an access
  outside them is \<open>AccessViolation\<close>.  The abstraction is \<open>slots_used\<close>, the set of slots whose bit is
  set, and \<open>stash\<close>, the contents of the stack.
\<close>

type_synonym page = "nat \<Rightarrow> u64"

definition zero_page :: page where "zero_page = (\<lambda>_. 0)"

definition DISK_SLOT_IN_USE :: u64 where [simp]: "DISK_SLOT_IN_USE = 1"
definition BITS_PER_BITMAP_ROW :: u64 where [simp]: "BITS_PER_BITMAP_ROW = 64"
definition BITMAP_ROW_FULL :: u64 where "BITMAP_ROW_FULL = NOT 0"
definition BITMAP_ROW_EMPTY :: u64 where [simp]: "BITMAP_ROW_EMPTY = 0"
definition SLOT_STACK_SIZE :: nat where [simp]: "SLOT_STACK_SIZE = 8192"

record page_file_state =
  page_file :: "nat \<Rightarrow> page"
  page_file_bitmaps :: "nat \<Rightarrow> u64"
  page_file_bitmap_rows :: u64
  max_disk_index :: u64
  empty_disk_slots :: u64
  slot_stack :: "nat \<Rightarrow> u64"
  last_checked_bitmap_row :: u64
  num_stashed_slots :: u64

definition zero_pf :: page_file_state where
  "zero_pf = \<lparr>page_file = (\<lambda>_. zero_page), page_file_bitmaps = (\<lambda>_. 0), page_file_bitmap_rows = 0,
     max_disk_index = 0, empty_disk_slots = 0, slot_stack = (\<lambda>_. 0), last_checked_bitmap_row = 0,
     num_stashed_slots = 0\<rparr>"

type_synonym 'a disk_prog = "(page_file_state, 'a) prog"

definition BITMAP_ROW :: "u64 \<Rightarrow> nat" where
  "BITMAP_ROW disk_slot = unat (disk_slot div BITS_PER_BITMAP_ROW)"

definition BITMAP_OFFSET :: "u64 \<Rightarrow> nat" where
  "BITMAP_OFFSET disk_slot = unat (disk_slot mod BITS_PER_BITMAP_ROW)"

text \<open>Access to a bitmap row, as far as the allocation goes.\<close>

definition read_row :: "nat \<Rightarrow> u64 disk_prog" where
  "read_row row = bind (gets (\<lambda>s. row < unat (page_file_bitmap_rows s))) (\<lambda>ok.
     bind (check_access ok) (\<lambda>_. gets (\<lambda>s. page_file_bitmaps s row)))"

definition write_row :: "nat \<Rightarrow> u64 \<Rightarrow> unit disk_prog" where
  "write_row row v = modify (\<lambda>s. s\<lparr>page_file_bitmaps := (page_file_bitmaps s)(row := v)\<rparr>)"

definition add_empty_slots :: "u64 \<Rightarrow> unit disk_prog" where
  "add_empty_slots n = modify (\<lambda>s. s\<lparr>empty_disk_slots := empty_disk_slots s + n\<rparr>)"


section \<open>Operations\<close>

definition initialize_page_file_and_metadata :: "vm_state \<Rightarrow> page_file_state \<Rightarrow>
    fault + unit \<times> page_file_state" where
  "initialize_page_file_and_metadata vm = block
     [modify (\<lambda>s. s\<lparr>page_file := (\<lambda>_. zero_page), page_file_bitmaps := (\<lambda>_. 0),
        page_file_bitmap_rows := pages_in_page_file vm div BITS_PER_BITMAP_ROW\<rparr>),
      bind (read_row 0) (\<lambda>row. write_row 0 (row OR DISK_SLOT_IN_USE)),
      modify (\<lambda>s. s\<lparr>max_disk_index := pages_in_page_file vm - 1,
        slot_stack := (\<lambda>_. 0), last_checked_bitmap_row := 0, num_stashed_slots := 0,
        empty_disk_slots := pages_in_page_file vm - 1\<rparr>)]"

definition validate_disk_slot :: "u64 \<Rightarrow> unit disk_prog" where
  "validate_disk_slot disk_slot =
     bind (gets max_disk_index) (\<lambda>m. assert_that (disk_slot \<le> m))"

definition get_page_file_offset :: "u64 \<Rightarrow> nat disk_prog" where
  "get_page_file_offset disk_slot =
     bind (validate_disk_slot disk_slot) (\<lambda>_. return (unat disk_slot))"

definition clear_disk_slot :: "u64 \<Rightarrow> unit disk_prog" where
  "clear_disk_slot disk_slot =
     bind (validate_disk_slot disk_slot) (\<lambda>_.
     let mask = NOT (push_bit (BITMAP_OFFSET disk_slot) 1) in
     bind (read_row (BITMAP_ROW disk_slot)) (\<lambda>original_value.
     block
       [write_row (BITMAP_ROW disk_slot) (original_value AND mask),
        assert_that ((original_value AND NOT mask) = NOT mask),
        add_empty_slots 1]))"

definition set_disk_slot :: "u64 \<Rightarrow> unit disk_prog" where
  "set_disk_slot disk_slot =
     bind (validate_disk_slot disk_slot) (\<lambda>_.
     let mask = push_bit (BITMAP_OFFSET disk_slot) 1 in
     bind (read_row (BITMAP_ROW disk_slot)) (\<lambda>original_value.
     block
       [write_row (BITMAP_ROW disk_slot) (original_value OR mask),
        assert_that ((original_value AND mask) = 0),
        add_empty_slots (- 1)]))"

definition push_slot :: "u64 \<Rightarrow> unit disk_prog" where
  "push_slot slot =
     bind (gets (unat \<circ> num_stashed_slots)) (\<lambda>n.
     bind (check_access (n < SLOT_STACK_SIZE)) (\<lambda>_.
     modify (\<lambda>s. s\<lparr>slot_stack := (slot_stack s)(n := slot),
                  num_stashed_slots := num_stashed_slots s + 1\<rparr>)))"

definition pop_slot :: "u64 disk_prog" where
  "pop_slot =
     bind (gets num_stashed_slots) (\<lambda>n.
     bind (assert_that (0 < sint n)) (\<lambda>_.
     bind (modify (\<lambda>s. s\<lparr>num_stashed_slots := num_stashed_slots s - 1\<rparr>)) (\<lambda>_.
     bind (gets (unat \<circ> num_stashed_slots)) (\<lambda>i.
     bind (check_access (i < SLOT_STACK_SIZE)) (\<lambda>_.
     gets (\<lambda>s. slot_stack s i))))))"

text \<open>
  \<open>push_slots_from_bitmap_row\<close> after its first read of the row: other threads may have cleared bits
  of the row since.
\<close>

definition scan_slot :: "u64 \<Rightarrow> u64 \<Rightarrow> nat \<Rightarrow> unit disk_prog" where
  "scan_slot starting_disk_slot row_snapshot i =
     (if row_snapshot AND push_bit i 1 = push_bit i 1 then return ()
      else block [set_disk_slot (starting_disk_slot + of_nat i),
                  push_slot (starting_disk_slot + of_nat i)])"

definition push_slots_from_snapshot :: "vm_state \<Rightarrow> u64 \<Rightarrow> u64 \<Rightarrow> unit disk_prog" where
  "push_slots_from_snapshot vm bitmap_row row_snapshot =
     (let starting_disk_slot = bitmap_row * BITS_PER_BITMAP_ROW;
          scan = for_each [0..<64] (scan_slot starting_disk_slot row_snapshot)
      in if row_snapshot = BITMAP_ROW_EMPTY then
           bind (read_row (unat bitmap_row)) (\<lambda>current.
           let (original_value, new) = compare_exchange current BITMAP_ROW_FULL BITMAP_ROW_EMPTY in
           bind (write_row (unat bitmap_row) new) (\<lambda>_.
           if original_value = BITMAP_ROW_EMPTY then block
             [for_each [0..<64] (\<lambda>i. push_slot (starting_disk_slot + of_nat i)),
              add_empty_slots (- 64),
              bind (gets empty_disk_slots) (\<lambda>result.
                assert_that (sint result < sint (pages_in_page_file vm) \<and> 0 \<le> sint result))]
           else scan))
         else scan)"

definition push_slots_from_bitmap_row :: "vm_state \<Rightarrow> u64 \<Rightarrow> unit disk_prog" where
  "push_slots_from_bitmap_row vm bitmap_row =
     bind (read_row (unat bitmap_row)) (push_slots_from_snapshot vm bitmap_row)"

text \<open>The loop of \<open>set_and_add_slots_to_stack\<close>, over the rows still to visit.\<close>

primrec scan_rows :: "vm_state \<Rightarrow> u64 \<Rightarrow> nat \<Rightarrow> u64 \<Rightarrow> u64 disk_prog" where
  "scan_rows vm target_slot_count 0 current_bitmap_row = return current_bitmap_row"
| "scan_rows vm target_slot_count (Suc n) current_bitmap_row =
     bind (gets (\<lambda>s. (current_bitmap_row + 1) mod page_file_bitmap_rows s)) (\<lambda>row.
     bind (read_row (unat row)) (\<lambda>bitmap_snapshot.
     if bitmap_snapshot = BITMAP_ROW_FULL then scan_rows vm target_slot_count n row
     else bind (push_slots_from_bitmap_row vm row) (\<lambda>_.
       bind (gets num_stashed_slots) (\<lambda>k.
       if k \<ge> target_slot_count then return row else scan_rows vm target_slot_count n row))))"

definition set_and_add_slots_to_stack :: "vm_state \<Rightarrow> u64 \<Rightarrow> unit disk_prog" where
  "set_and_add_slots_to_stack vm target_slot_count =
     bind (gets last_checked_bitmap_row) (\<lambda>first.
     bind (gets (unat \<circ> page_file_bitmap_rows)) (\<lambda>rows.
     bind (scan_rows vm target_slot_count rows first) (\<lambda>current_bitmap_row.
     modify (\<lambda>s. s\<lparr>last_checked_bitmap_row := current_bitmap_row\<rparr>))))"

text \<open>
  \<open>pop_and_clear_all_slots\<close>: every round pops one slot, so the number of stashed slots plus one bounds
  the rounds.
\<close>

primrec pop_and_clear_loop :: "nat \<Rightarrow> unit disk_prog" where
  "pop_and_clear_loop 0 = raise SpinForever"
| "pop_and_clear_loop (Suc fuel) =
     bind (gets num_stashed_slots) (\<lambda>n.
     if 0 < sint n then
       bind pop_slot (\<lambda>slot. bind (clear_disk_slot slot) (\<lambda>_. pop_and_clear_loop fuel))
     else return ())"

definition pop_and_clear_all_slots :: "unit disk_prog" where
  "pop_and_clear_all_slots =
     bind (gets (unat \<circ> num_stashed_slots)) (\<lambda>n. pop_and_clear_loop (Suc n))"


section \<open>Abstraction and invariant\<close>

definition slot_count :: "page_file_state \<Rightarrow> nat" where
  "slot_count s = 64 * unat (page_file_bitmap_rows s)"

definition slots_used :: "page_file_state \<Rightarrow> nat set" where
  "slots_used s = {d. d < slot_count s \<and> bit (page_file_bitmaps s (d div 64)) (d mod 64)}"

definition stash :: "page_file_state \<Rightarrow> nat list" where
  "stash s = map (\<lambda>i. unat (slot_stack s i)) [0..<unat (num_stashed_slots s)]"

text \<open>The page file has a whole number of rows, at most \<open>2 ^ 40\<close> slots (the width of a disk index).\<close>

definition pf_shape :: "vm_state \<Rightarrow> page_file_state \<Rightarrow> bool" where
  "pf_shape vm s \<longleftrightarrow>
     0 < slot_count s \<and> slot_count s \<le> 2 ^ 40 \<and>
     unat (pages_in_page_file vm) = slot_count s \<and>
     unat (max_disk_index s) = slot_count s - 1"

definition pf_inv :: "vm_state \<Rightarrow> page_file_state \<Rightarrow> bool" where
  "pf_inv vm s \<longleftrightarrow> pf_shape vm s \<and> 0 \<in> slots_used s \<and>
     unat (empty_disk_slots s) + card (slots_used s) = slot_count s \<and>
     length (stash s) \<le> SLOT_STACK_SIZE \<and> distinct (stash s) \<and>
     set (stash s) \<subseteq> slots_used s - {0} \<and>
     last_checked_bitmap_row s < page_file_bitmap_rows s"

lemma finite_slots_used [simp, intro]: "finite (slots_used s)"
  by (rule finite_subset [of _ "{..<slot_count s}"]) (auto simp: slots_used_def)

lemma length_stash [simp]: "length (stash s) = unat (num_stashed_slots s)"
  by (simp add: stash_def)



section \<open>Single slots\<close>

lemma BITMAP_ROW_unat: "BITMAP_ROW d = unat d div 64"
  and BITMAP_OFFSET_unat: "BITMAP_OFFSET d = unat d mod 64"
  by (simp_all add: BITMAP_ROW_def BITMAP_OFFSET_def unat_div unat_mod)

lemma bit_one_shifted: "bit (2 ^ k :: u64) j \<longleftrightarrow> j = k \<and> k < 64"
  by (auto simp: bit_exp_iff)

lemma and_shifted_zero: "k < 64 \<Longrightarrow> (w :: u64) AND 2 ^ k = 0 \<longleftrightarrow> \<not> bit w k"
  by (auto simp: word_bits_eq_iff bit_and_iff bit_one_shifted)

lemma and_shifted_self: "k < 64 \<Longrightarrow> (w :: u64) AND 2 ^ k = 2 ^ k \<longleftrightarrow> bit w k"
  by (auto simp: word_bits_eq_iff bit_and_iff bit_one_shifted)

lemma not_not_shifted [simp]: "NOT (NOT (w :: u64)) = w"
  by simp

lemma slots_usedI: "d < slot_count s \<Longrightarrow> bit (page_file_bitmaps s (d div 64)) (d mod 64) \<Longrightarrow>
    d \<in> slots_used s"
  by (simp add: slots_used_def)

lemma slots_used_less: "d \<in> slots_used s \<Longrightarrow> d < slot_count s"
  by (simp add: slots_used_def)

lemma row_less: "d < slot_count s \<Longrightarrow> d div 64 < unat (page_file_bitmap_rows s)"
  by (simp add: slot_count_def less_mult_imp_div_less mult.commute)

lemma slot_split: "(d :: nat) div 64 = e div 64 \<Longrightarrow> d mod 64 = e mod 64 \<Longrightarrow> d = e"
  by (metis mult_div_mod_eq)

text \<open>The effect of setting and of clearing one slot.\<close>

definition use_slot :: "nat \<Rightarrow> page_file_state \<Rightarrow> page_file_state" where
  "use_slot d s = s\<lparr>page_file_bitmaps := (page_file_bitmaps s)
       (d div 64 := page_file_bitmaps s (d div 64) OR push_bit (d mod 64) 1),
     empty_disk_slots := empty_disk_slots s - 1\<rparr>"

definition free_slot :: "nat \<Rightarrow> page_file_state \<Rightarrow> page_file_state" where
  "free_slot d s = s\<lparr>page_file_bitmaps := (page_file_bitmaps s)
       (d div 64 := page_file_bitmaps s (d div 64) AND NOT (push_bit (d mod 64) 1)),
     empty_disk_slots := empty_disk_slots s + 1\<rparr>"

lemma use_slot_fields [simp]:
  "page_file (use_slot d s) = page_file s"
  "page_file_bitmap_rows (use_slot d s) = page_file_bitmap_rows s"
  "max_disk_index (use_slot d s) = max_disk_index s"
  "empty_disk_slots (use_slot d s) = empty_disk_slots s - 1"
  "slot_stack (use_slot d s) = slot_stack s"
  "last_checked_bitmap_row (use_slot d s) = last_checked_bitmap_row s"
  "num_stashed_slots (use_slot d s) = num_stashed_slots s"
  "slot_count (use_slot d s) = slot_count s" "stash (use_slot d s) = stash s"
  "pf_shape vm (use_slot d s) = pf_shape vm s"
  by (simp_all add: use_slot_def slot_count_def stash_def pf_shape_def)

lemma free_slot_fields [simp]:
  "page_file (free_slot d s) = page_file s"
  "page_file_bitmap_rows (free_slot d s) = page_file_bitmap_rows s"
  "max_disk_index (free_slot d s) = max_disk_index s"
  "empty_disk_slots (free_slot d s) = empty_disk_slots s + 1"
  "slot_stack (free_slot d s) = slot_stack s"
  "last_checked_bitmap_row (free_slot d s) = last_checked_bitmap_row s"
  "num_stashed_slots (free_slot d s) = num_stashed_slots s"
  "slot_count (free_slot d s) = slot_count s" "stash (free_slot d s) = stash s"
  "pf_shape vm (free_slot d s) = pf_shape vm s"
  by (simp_all add: free_slot_def slot_count_def stash_def pf_shape_def)

lemma slots_used_use_slot:
  "d < slot_count s \<Longrightarrow> slots_used (use_slot d s) = insert d (slots_used s)"
  by (auto simp: slots_used_def use_slot_def slot_count_def bit_or_iff bit_one_shifted
      dest: slot_split split: if_splits)

lemma slots_used_free_slot: "slots_used (free_slot d s) = slots_used s - {d}"
  by (auto simp: slots_used_def free_slot_def slot_count_def bit_and_iff bit_not_iff bit_one_shifted
      dest: slot_split split: if_splits)

lemma validate_disk_slot_ok:
  "pf_shape vm s \<Longrightarrow> unat d < slot_count s \<Longrightarrow> validate_disk_slot d s = Inr ((), s)"
  by (simp add: validate_disk_slot_def prog_simps pf_shape_def word_le_nat_alt)

lemma read_row_ok: "r < unat (page_file_bitmap_rows s) \<Longrightarrow> read_row r s = Inr (page_file_bitmaps s r, s)"
  by (simp add: read_row_def prog_simps)

lemma set_disk_slot_run:
  assumes "pf_shape vm s" and "unat d < slot_count s" and "unat d \<notin> slots_used s"
  shows "set_disk_slot d s = Inr ((), use_slot (unat d) s)"
proof -
  have free: "\<not> bit (page_file_bitmaps s (unat d div 64)) (unat d mod 64)"
    using assms(2,3) by (auto simp: slots_used_def)
  show ?thesis
    using assms(1,2) free
    by (simp add: set_disk_slot_def prog_simps validate_disk_slot_ok read_row_ok row_less BITMAP_ROW_unat BITMAP_OFFSET_unat Let_def
        write_row_def add_empty_slots_def and_shifted_zero use_slot_def)
qed

lemma clear_disk_slot_run:
  assumes "pf_shape vm s" and "unat d \<in> slots_used s"
  shows "clear_disk_slot d s = Inr ((), free_slot (unat d) s)"
proof -
  have d: "unat d < slot_count s" using assms(2) by (rule slots_used_less)
  have used: "bit (page_file_bitmaps s (unat d div 64)) (unat d mod 64)"
    using assms(2) by (auto simp: slots_used_def)
  show ?thesis
    using assms(1) d used
    by (simp add: clear_disk_slot_def prog_simps validate_disk_slot_ok read_row_ok row_less BITMAP_ROW_unat BITMAP_OFFSET_unat Let_def
        write_row_def add_empty_slots_def and_shifted_self free_slot_def)
qed

text \<open>A slot that is already set, or already clear, is caught by the assertion.\<close>

lemma set_disk_slot_twice:
  assumes "pf_shape vm s" and "unat d \<in> slots_used s"
  shows "set_disk_slot d s = Inl DebugBreakHit"
proof -
  have d: "unat d < slot_count s" using assms(2) by (rule slots_used_less)
  have used: "bit (page_file_bitmaps s (unat d div 64)) (unat d mod 64)"
    using assms(2) by (auto simp: slots_used_def)
  show ?thesis
    using assms(1) d used
    by (simp add: set_disk_slot_def prog_simps validate_disk_slot_ok read_row_ok row_less BITMAP_ROW_unat BITMAP_OFFSET_unat Let_def
        write_row_def and_shifted_zero)
qed

lemma clear_disk_slot_twice:
  assumes "pf_shape vm s" and "unat d < slot_count s" and "unat d \<notin> slots_used s"
  shows "clear_disk_slot d s = Inl DebugBreakHit"
proof -
  have free: "\<not> bit (page_file_bitmaps s (unat d div 64)) (unat d mod 64)"
    using assms(2,3) by (auto simp: slots_used_def)
  show ?thesis
    using assms(1,2) free
    by (simp add: clear_disk_slot_def prog_simps validate_disk_slot_ok read_row_ok row_less BITMAP_ROW_unat BITMAP_OFFSET_unat Let_def
        write_row_def and_shifted_self)
qed



section \<open>The stack of stashed slots\<close>

definition push_stash :: "u64 \<Rightarrow> page_file_state \<Rightarrow> page_file_state" where
  "push_stash slot s = s\<lparr>slot_stack := (slot_stack s)(unat (num_stashed_slots s) := slot),
     num_stashed_slots := num_stashed_slots s + 1\<rparr>"

definition pop_stash :: "page_file_state \<Rightarrow> page_file_state" where
  "pop_stash s = s\<lparr>num_stashed_slots := num_stashed_slots s - 1\<rparr>"

lemma push_slot_run:
  "unat (num_stashed_slots s) < SLOT_STACK_SIZE \<Longrightarrow> push_slot slot s = Inr ((), push_stash slot s)"
  by (simp add: push_slot_def prog_simps push_stash_def)

lemma push_slot_overflow:
  "SLOT_STACK_SIZE \<le> unat (num_stashed_slots s) \<Longrightarrow> push_slot slot s = Inl AccessViolation"
  by (simp add: push_slot_def prog_simps)

lemma push_stash_fields [simp]:
  "page_file (push_stash d s) = page_file s"
  "page_file_bitmaps (push_stash d s) = page_file_bitmaps s"
  "page_file_bitmap_rows (push_stash d s) = page_file_bitmap_rows s"
  "max_disk_index (push_stash d s) = max_disk_index s"
  "empty_disk_slots (push_stash d s) = empty_disk_slots s"
  "last_checked_bitmap_row (push_stash d s) = last_checked_bitmap_row s"
  "slot_count (push_stash d s) = slot_count s" "slots_used (push_stash d s) = slots_used s"
  "pf_shape vm (push_stash d s) = pf_shape vm s"
  by (simp_all add: push_stash_def slot_count_def slots_used_def pf_shape_def)

lemma pop_stash_fields [simp]:
  "page_file (pop_stash s) = page_file s"
  "page_file_bitmaps (pop_stash s) = page_file_bitmaps s"
  "page_file_bitmap_rows (pop_stash s) = page_file_bitmap_rows s"
  "max_disk_index (pop_stash s) = max_disk_index s"
  "empty_disk_slots (pop_stash s) = empty_disk_slots s"
  "last_checked_bitmap_row (pop_stash s) = last_checked_bitmap_row s"
  "slot_count (pop_stash s) = slot_count s" "slots_used (pop_stash s) = slots_used s"
  "pf_shape vm (pop_stash s) = pf_shape vm s"
  by (simp_all add: pop_stash_def slot_count_def slots_used_def pf_shape_def)

lemma stash_push:
  assumes "length (stash s) < SLOT_STACK_SIZE"
  shows "stash (push_stash d s) = stash s @ [unat d]"
proof -
  have "unat (num_stashed_slots s + 1) = Suc (unat (num_stashed_slots s))"
    using assms by (simp add: unat_add_1)
  then show ?thesis by (simp add: stash_def push_stash_def)
qed

lemma stash_pop:
  assumes "stash s = ds @ [d]"
  shows "stash (pop_stash s) = ds" and "unat (slot_stack s (unat (num_stashed_slots (pop_stash s)))) = d"
proof -
  have n: "unat (num_stashed_slots s) = Suc (length ds)"
    using assms by (metis length_append_singleton length_stash)
  then have m: "unat (num_stashed_slots (pop_stash s)) = length ds"
    by (simp add: pop_stash_def unat_sub_1)
  have "map (\<lambda>i. unat (slot_stack s i)) [0..<length ds] @
      [unat (slot_stack s (length ds))] = ds @ [d]"
    using assms n by (simp add: stash_def)
  then show "stash (pop_stash s) = ds"
    and "unat (slot_stack s (unat (num_stashed_slots (pop_stash s)))) = d"
    using m by (simp_all add: stash_def) (simp add: pop_stash_def)
qed

lemma pop_slot_run:
  assumes "stash s = ds @ [d]" and "length (stash s) \<le> SLOT_STACK_SIZE"
  shows "\<exists>slot. pop_slot s = Inr (slot, pop_stash s) \<and> unat slot = d"
proof -
  have n: "unat (num_stashed_slots s) = Suc (length ds)"
    using assms(1) by (metis length_append_singleton length_stash)
  have small: "Suc (length ds) \<le> SLOT_STACK_SIZE" using assms(2) n by simp
  have "0 < sint (num_stashed_slots s)" using n small by (simp add: sint_small)
  moreover have "unat (num_stashed_slots s - 1) < SLOT_STACK_SIZE"
    using n small by (simp add: unat_sub_1)
  ultimately have "pop_slot s =
      Inr (slot_stack s (unat (num_stashed_slots (pop_stash s))), pop_stash s)"
    by (simp add: pop_slot_def prog_simps pop_stash_def)
  then show ?thesis using stash_pop(2) [OF assms(1)] by blast
qed

lemma pop_slot_empty: "num_stashed_slots s = 0 \<Longrightarrow> pop_slot s = Inl DebugBreakHit"
  by (simp add: pop_slot_def prog_simps)



section \<open>Taking slots from a row\<close>

text \<open>\<open>alloc_step vm new s t\<close>: \<open>t\<close> is \<open>s\<close> with the free slots \<open>new\<close> set and pushed, in this order.\<close>

definition alloc_step :: "vm_state \<Rightarrow> nat list \<Rightarrow> page_file_state \<Rightarrow> page_file_state \<Rightarrow> bool" where
  "alloc_step vm new s t \<longleftrightarrow> pf_inv vm t \<and> stash t = stash s @ new \<and>
     slots_used t = slots_used s \<union> set new \<and> page_file t = page_file s \<and>
     page_file_bitmap_rows t = page_file_bitmap_rows s \<and>
     last_checked_bitmap_row t = last_checked_bitmap_row s \<and> set new \<inter> slots_used s = {}"

lemma alloc_step_refl: "pf_inv vm s \<Longrightarrow> alloc_step vm [] s s"
  by (simp add: alloc_step_def)

lemma alloc_step_trans:
  "alloc_step vm xs s t \<Longrightarrow> alloc_step vm ys t u \<Longrightarrow> alloc_step vm (xs @ ys) s u"
  by (auto simp: alloc_step_def)

lemma pf_inv_shape: "pf_inv vm s \<Longrightarrow> pf_shape vm s"
  by (simp add: pf_inv_def)

lemma pf_shape_small: "pf_shape vm s \<Longrightarrow> unat d < slot_count s \<Longrightarrow> unat (d :: u64) < 2 ^ 40"
  by (simp add: pf_shape_def)

lemma alloc_step_take:
  assumes "pf_inv vm s" and "unat d < slot_count s" and "unat d \<notin> slots_used s"
    and "length (stash s) < SLOT_STACK_SIZE"
  shows "alloc_step vm [unat d] s (push_stash d (use_slot (unat d) s))"
proof -
  let ?t = "use_slot (unat d) s"
  have used: "slots_used ?t = insert (unat d) (slots_used s)"
    using assms(2) by (rule slots_used_use_slot)
  have st: "stash (push_stash d ?t) = stash s @ [unat d]"
    using assms(4) by (simp add: stash_push)
  have "card (slots_used s) < slot_count s"
  proof -
    have "slots_used s \<subset> {..<slot_count s}" using assms(2,3) by (auto dest: slots_used_less)
    then show ?thesis using psubset_card_mono [of "{..<slot_count s}"] by simp
  qed
  then have "0 < unat (empty_disk_slots s)" using assms(1) by (simp add: pf_inv_def)
  then have "unat (empty_disk_slots s - 1) = unat (empty_disk_slots s) - 1" by (rule unat_sub_1)
  moreover have "card (insert (unat d) (slots_used s)) = Suc (card (slots_used s))"
    using assms(3) by simp
  ultimately have count:
    "unat (empty_disk_slots ?t) + card (slots_used ?t) = slot_count s"
    using assms(1) \<open>0 < unat (empty_disk_slots s)\<close> unfolding used by (simp add: pf_inv_def)
  have "0 < unat d" using assms(1,3) by (metis gr0I pf_inv_def)
  moreover have "unat d \<notin> set (stash s)" using assms(1,3) by (auto simp: pf_inv_def)
  moreover have "length (stash s @ [unat d]) \<le> SLOT_STACK_SIZE" using assms(4) by simp
  ultimately have "pf_inv vm (push_stash d ?t)"
    using assms(1) count st unfolding pf_inv_def by (auto simp: used)
  then show ?thesis using st assms(3) by (simp add: alloc_step_def used)
qed

lemma row_slot_unat:
  assumes "pf_shape vm s" and "unat row < unat (page_file_bitmap_rows s)" and "i < 64"
  shows "unat (row * BITS_PER_BITMAP_ROW + of_nat i) = 64 * unat row + i"
    and "64 * unat row + i < slot_count s"
proof -
  show less: "64 * unat row + i < slot_count s" using assms(2,3) by (simp add: slot_count_def)
  then have "64 * unat row + i < 2 ^ 64" using assms(1) by (simp add: pf_shape_def)
  moreover have "row * BITS_PER_BITMAP_ROW + of_nat i = (of_nat (64 * unat row + i) :: u64)"
    by (simp add: mult.commute)
  ultimately show "unat (row * BITS_PER_BITMAP_ROW + of_nat i) = 64 * unat row + i"
    by (simp only: unat_of_nat mod_less len64)
qed

lemma scan_row_run:
  fixes row snap :: u64
  assumes "unat row < unat (page_file_bitmap_rows s)" and "pf_inv vm s"
    and "distinct is" and "set is \<subseteq> {..<64}"
    and "\<forall>i\<in>set is. \<not> bit snap i \<longrightarrow> 64 * unat row + i \<notin> slots_used s"
    and "length (stash s) + length is \<le> SLOT_STACK_SIZE"
  shows "\<exists>t. for_each is (scan_slot (row * BITS_PER_BITMAP_ROW) snap) s = Inr ((), t) \<and>
          alloc_step vm (map (\<lambda>i. 64 * unat row + i) (filter (\<lambda>i. \<not> bit snap i) is)) s t"
  using assms
proof (induction "is" arbitrary: s)
  case Nil
  then show ?case by (simp add: prog_simps alloc_step_refl)
next
  case (Cons i "is")
  have i: "i < 64" using Cons.prems(4) by simp
  show ?case
  proof (cases "bit snap i")
    case True
    then show ?thesis
      using Cons.prems i Cons.IH [of s] by (simp add: scan_slot_def prog_simps and_shifted_self)
  next
    case False
    let ?d = "row * BITS_PER_BITMAP_ROW + of_nat i"
    let ?t = "push_stash ?d (use_slot (unat ?d) s)"
    note shape = pf_inv_shape [OF Cons.prems(2)]
    note d = row_slot_unat [OF shape Cons.prems(1) i]
    have free: "unat ?d \<notin> slots_used s" using Cons.prems(5) False d by simp
    have room: "length (stash s) < SLOT_STACK_SIZE" using Cons.prems(6) by simp
    have step: "alloc_step vm [unat ?d] s ?t"
      using Cons.prems(2) d free room by (intro alloc_step_take) simp_all
    have "snap AND push_bit i 1 \<noteq> push_bit i 1" using False i by (simp add: and_shifted_self)
    then have run: "scan_slot (row * BITS_PER_BITMAP_ROW) snap i s = Inr ((), ?t)"
      using set_disk_slot_run [OF shape _ free] d push_slot_run [of "use_slot (unat ?d) s" ?d] room
      by (simp only: scan_slot_def if_False block_Cons block_Nil bind_Inr use_slot_fields length_stash
          return_apply)
    have "\<exists>u. for_each is (scan_slot (row * BITS_PER_BITMAP_ROW) snap) ?t = Inr ((), u) \<and>
        alloc_step vm (map (\<lambda>i. 64 * unat row + i) (filter (\<lambda>i. \<not> bit snap i) is)) ?t u"
      using Cons.prems step d(1) by (intro Cons.IH) (auto simp: alloc_step_def)
    then obtain u where u: "for_each is (scan_slot (row * BITS_PER_BITMAP_ROW) snap) ?t = Inr ((), u)"
        "alloc_step vm (map (\<lambda>i. 64 * unat row + i) (filter (\<lambda>i. \<not> bit snap i) is)) ?t u"
      by blast
    have "alloc_step vm ([unat ?d] @ map (\<lambda>i. 64 * unat row + i) (filter (\<lambda>i. \<not> bit snap i) is)) s u"
      using step u(2) by (rule alloc_step_trans)
    then show ?thesis using u(1) run False d(1) by (simp add: bind_Inr)
  qed
qed


text \<open>Taking a whole empty row at once.\<close>

definition same_but_stack :: "page_file_state \<Rightarrow> page_file_state \<Rightarrow> bool" where
  "same_but_stack s t \<longleftrightarrow> page_file t = page_file s \<and> page_file_bitmaps t = page_file_bitmaps s \<and>
     page_file_bitmap_rows t = page_file_bitmap_rows s \<and> max_disk_index t = max_disk_index s \<and>
     empty_disk_slots t = empty_disk_slots s \<and>
     last_checked_bitmap_row t = last_checked_bitmap_row s"

lemma push_loop_run:
  "length (stash s) + length is \<le> SLOT_STACK_SIZE \<Longrightarrow>
   \<exists>t. for_each is (\<lambda>i. push_slot (b + of_nat i)) s = Inr ((), t) \<and> same_but_stack s t \<and>
       stash t = stash s @ map (\<lambda>i. unat (b + of_nat i)) is"
proof (induction "is" arbitrary: s)
  case Nil
  then show ?case by (simp add: prog_simps same_but_stack_def)
next
  case (Cons i "is")
  let ?t = "push_stash (b + of_nat i) s"
  have room: "length (stash s) < SLOT_STACK_SIZE" using Cons.prems by simp
  have st: "stash ?t = stash s @ [unat (b + of_nat i)]" using room by (rule stash_push)
  then have "length (stash ?t) + length is \<le> SLOT_STACK_SIZE" using Cons.prems by simp
  then obtain u where u: "for_each is (\<lambda>i. push_slot (b + of_nat i)) ?t = Inr ((), u)"
      "same_but_stack ?t u" "stash u = stash ?t @ map (\<lambda>i. unat (b + of_nat i)) is"
    using Cons.IH by blast
  have "for_each (i # is) (\<lambda>i. push_slot (b + of_nat i)) s = Inr ((), u)"
    using u(1) push_slot_run [of s "b + of_nat i"] room by (simp only: for_each_Cons bind_Inr length_stash)
  then show ?case using u(2,3) st by (auto simp: same_but_stack_def)
qed

definition fill_row :: "nat \<Rightarrow> page_file_state \<Rightarrow> page_file_state" where
  "fill_row r s = s\<lparr>page_file_bitmaps := (page_file_bitmaps s)(r := BITMAP_ROW_FULL)\<rparr>"

lemma fill_row_fields [simp]:
  "page_file (fill_row r s) = page_file s"
  "page_file_bitmap_rows (fill_row r s) = page_file_bitmap_rows s"
  "max_disk_index (fill_row r s) = max_disk_index s"
  "empty_disk_slots (fill_row r s) = empty_disk_slots s"
  "last_checked_bitmap_row (fill_row r s) = last_checked_bitmap_row s"
  "num_stashed_slots (fill_row r s) = num_stashed_slots s"
  "slot_count (fill_row r s) = slot_count s" "stash (fill_row r s) = stash s"
  by (simp_all add: fill_row_def slot_count_def stash_def)

lemma row_div: "64 * r \<le> d \<and> d < 64 * r + 64 \<longleftrightarrow> d div 64 = (r :: nat)"
proof -
  obtain q m where d: "d = 64 * q + m" and m: "m < 64"
    by (metis mod_less_divisor mult_div_mod_eq zero_less_numeral)
  then have "d div 64 = q" by simp
  then show ?thesis using d m by auto
qed

lemma slots_used_fill_row:
  "r < unat (page_file_bitmap_rows s) \<Longrightarrow>
   slots_used (fill_row r s) = slots_used s \<union> set (map (\<lambda>i. 64 * r + i) [0..<64])"
proof -
  assume r: "r < unat (page_file_bitmap_rows s)"
  have bound: "d < slot_count s" if "d div 64 = r" for d
    using r that row_div [of r d] by (simp add: slot_count_def)
  have img: "d \<in> set (map (\<lambda>i. 64 * r + i) [0..<64]) \<longleftrightarrow> d div 64 = r" for d
  proof -
    have "d \<in> set (map (\<lambda>i. 64 * r + i) [0..<64]) \<longleftrightarrow> 64 * r \<le> d \<and> d < 64 * r + 64"
      by (auto simp: image_iff intro: bexI [of _ "d - 64 * r"])
    then show ?thesis by (simp only: row_div)
  qed
  show ?thesis
  proof (rule set_eqI)
    fix d
    show "d \<in> slots_used (fill_row r s) \<longleftrightarrow>
        d \<in> slots_used s \<union> set (map (\<lambda>i. 64 * r + i) [0..<64])"
      unfolding Un_iff img using bound [of d]
      by (auto simp: slots_used_def fill_row_def slot_count_def BITMAP_ROW_FULL_def)
  qed
qed

lemma row_unused:
  assumes "\<forall>j < 64. \<not> bit (page_file_bitmaps s r) j"
  shows "set (map (\<lambda>i. 64 * r + i) [0..<64]) \<inter> slots_used s = {}"
proof -
  have "x \<notin> slots_used s" if "64 * r \<le> x" "x < 64 * r + 64" for x
    using assms that row_div [of r x] by (simp add: slots_used_def)
  then show ?thesis by auto
qed

lemma distinct_row: "distinct (map (\<lambda>i. 64 * r + i) [0..<64])" for r :: nat
  by (simp add: distinct_map inj_on_def)

lemma card_row: "card (set (map (\<lambda>i. 64 * r + i) [0..<64])) = 64" for r :: nat
  using distinct_card [OF distinct_row] by simp

lemma whole_row_run:
  assumes inv: "pf_inv vm s" and row: "unat row < unat (page_file_bitmap_rows s)"
    and room: "length (stash s) + 64 \<le> SLOT_STACK_SIZE"
    and empty: "page_file_bitmaps s (unat row) = 0"
  shows "\<exists>t. push_slots_from_snapshot vm row 0 s = Inr ((), t) \<and>
             alloc_step vm (map (\<lambda>i. 64 * unat row + i) [0..<64]) s t"
proof -
  let ?new = "map (\<lambda>i. 64 * unat row + i) [0..<64]"
  note shape = pf_inv_shape [OF inv]
  have slots: "map (\<lambda>i. unat (row * BITS_PER_BITMAP_ROW + of_nat i)) [0..<64] = ?new"
    by (rule map_cong [OF refl], rule row_slot_unat [OF shape row]) simp
  have disj: "set ?new \<inter> slots_used s = {}" using empty by (intro row_unused) simp
  obtain t where t: "for_each [0..<64] (\<lambda>i. push_slot (row * BITS_PER_BITMAP_ROW + of_nat i))
        (fill_row (unat row) s) = Inr ((), t)"
      "same_but_stack (fill_row (unat row) s) t" "stash t = stash s @ ?new"
    using push_loop_run [of "fill_row (unat row) s" "[0..<64]" "row * BITS_PER_BITMAP_ROW"] room slots
    by auto
  have count: "slot_count t = slot_count s" "slots_used t = slots_used s \<union> set ?new"
    using t(2) slots_used_fill_row [OF row]
    by (auto simp: same_but_stack_def slot_count_def slots_used_def fill_row_def)
  let ?u = "t\<lparr>empty_disk_slots := empty_disk_slots t + (- 64)\<rparr>"
  have "set ?new \<subseteq> {..<slot_count s}" using row by (auto simp: slot_count_def)
  then have "slots_used s \<union> set ?new \<subseteq> {..<slot_count s}" by (auto dest: slots_used_less)
  then have le: "card (slots_used s \<union> set ?new) \<le> slot_count s"
    using card_mono [of "{..<slot_count s}"] by simp
  have card: "card (slots_used s \<union> set ?new) = card (slots_used s) + 64"
    using disj by (subst card_Un_disjoint) (auto simp: card_row)
  have e: "64 \<le> unat (empty_disk_slots s)" using inv le card by (simp add: pf_inv_def)
  have same_e: "empty_disk_slots t = empty_disk_slots s" using t(2) by (simp add: same_but_stack_def)
  have e': "unat (empty_disk_slots s - 64) = unat (empty_disk_slots s) - 64"
    using e by (simp add: unat_sub word_le_nat_alt)
  have small: "unat (empty_disk_slots s) \<le> 2 ^ 40" "unat (pages_in_page_file vm) \<le> 2 ^ 40"
    using inv shape by (auto simp: pf_inv_def pf_shape_def)
  have result: "sint (empty_disk_slots s - 64) < sint (pages_in_page_file vm) \<and>
      0 \<le> sint (empty_disk_slots s - 64)"
  proof -
    have "sint (empty_disk_slots s - 64) = int (unat (empty_disk_slots s) - 64)"
      using small e' by (subst sint_small) simp_all
    moreover have "sint (pages_in_page_file vm) = int (unat (pages_in_page_file vm))"
      using small by (intro sint_small) simp
    moreover have "unat (empty_disk_slots s) \<le> unat (pages_in_page_file vm)"
      using inv shape by (simp add: pf_inv_def pf_shape_def)
    ultimately show ?thesis using e by linarith
  qed
  have run: "push_slots_from_snapshot vm row 0 s = Inr ((), ?u)"
    using t(1) result same_e row empty
    by (simp add: push_slots_from_snapshot_def Let_def bind_apply read_row_ok compare_exchange_def
        write_row_def modify_apply fill_row_def add_empty_slots_def prog_simps)
  have "pf_inv vm ?u"
    unfolding pf_inv_def
  proof (intro conjI)
    show "pf_shape vm ?u" using shape t(2) by (simp add: pf_shape_def same_but_stack_def slot_count_def)
    show "0 \<in> slots_used ?u" using inv count by (simp add: slots_used_def slot_count_def pf_inv_def)
    show "unat (empty_disk_slots ?u) + card (slots_used ?u) = slot_count ?u"
      using inv count card e e' same_e by (simp add: slots_used_def slot_count_def pf_inv_def)
    show "length (stash ?u) \<le> SLOT_STACK_SIZE" using t(3) room by (simp add: stash_def)
    have st: "stash ?u = stash s @ ?new" using t(3) by (simp add: stash_def)
    have used: "slots_used ?u = slots_used s \<union> set ?new"
      using count by (simp add: slots_used_def slot_count_def)
    show "distinct (stash ?u)"
      unfolding st using inv disj distinct_row by (auto simp: pf_inv_def)
    show "set (stash ?u) \<subseteq> slots_used ?u - {0}"
      unfolding st used using inv disj by (auto simp: pf_inv_def)
    show "last_checked_bitmap_row ?u < page_file_bitmap_rows ?u"
      using inv t(2) by (simp add: pf_inv_def same_but_stack_def)
  qed
  then have "alloc_step vm ?new s ?u"
    using t(2,3) count disj by (simp add: alloc_step_def same_but_stack_def stash_def slots_used_def slot_count_def)
  with run show ?thesis by blast
qed


definition row_new :: "nat \<Rightarrow> u64 \<Rightarrow> nat list" where
  "row_new r snapshot = map (\<lambda>i. 64 * r + i) (filter (\<lambda>i. \<not> bit snapshot i) [0..<64])"

text \<open>
  The rest of \<open>push_slots_from_bitmap_row\<close> may run after other threads have cleared bits of the row:
  it is enough that every bit set now was set in the snapshot.
\<close>

lemma push_slots_from_snapshot_run:
  assumes inv: "pf_inv vm s" and row: "unat row < unat (page_file_bitmap_rows s)"
    and room: "length (stash s) + 64 \<le> SLOT_STACK_SIZE"
    and stale: "\<forall>j < 64. bit (page_file_bitmaps s (unat row)) j \<longrightarrow> bit snapshot j"
  shows "\<exists>t. push_slots_from_snapshot vm row snapshot s = Inr ((), t) \<and>
             alloc_step vm (row_new (unat row) snapshot) s t"
proof (cases "snapshot = 0")
  case True
  then have "page_file_bitmaps s (unat row) = 0"
    using stale by (auto simp: word_bits_eq_iff)
  then show ?thesis using whole_row_run [OF inv row room] True by (simp add: row_new_def)
next
  case False
  have "\<forall>i\<in>set [0..<64]. \<not> bit snapshot i \<longrightarrow> 64 * unat row + i \<notin> slots_used s"
    using stale by (auto simp: slots_used_def)
  moreover have "set [0..<64] \<subseteq> {..<64 :: nat}" by auto
  ultimately obtain t where
      "for_each [0..<64] (scan_slot (row * BITS_PER_BITMAP_ROW) snapshot) s = Inr ((), t)"
      "alloc_step vm (row_new (unat row) snapshot) s t"
    using scan_row_run [OF row inv, of "[0..<64]" snapshot] room by (auto simp: row_new_def)
  then show ?thesis using False by (auto simp: push_slots_from_snapshot_def)
qed

lemma push_slots_from_bitmap_row_run:
  assumes "pf_inv vm s" and "unat row < unat (page_file_bitmap_rows s)"
    and "length (stash s) + 64 \<le> SLOT_STACK_SIZE"
  shows "\<exists>t. push_slots_from_bitmap_row vm row s = Inr ((), t) \<and>
             alloc_step vm (row_new (unat row) (page_file_bitmaps s (unat row))) s t"
  using push_slots_from_snapshot_run [OF assms, of "page_file_bitmaps s (unat row)"] assms(2)
  by (simp add: push_slots_from_bitmap_row_def bind_apply read_row_ok)

definition row_full :: "page_file_state \<Rightarrow> nat \<Rightarrow> bool" where
  "row_full s r \<longleftrightarrow> (\<forall>d. d div 64 = r \<longrightarrow> d \<in> slots_used s)"

lemma row_full_mono: "row_full s r \<Longrightarrow> alloc_step vm new s t \<Longrightarrow> row_full t r"
  by (auto simp: row_full_def alloc_step_def)

lemma row_full_snapshot:
  assumes "r < unat (page_file_bitmap_rows s)" and "page_file_bitmaps s r = BITMAP_ROW_FULL"
  shows "row_full s r"
proof -
  have "d \<in> slots_used s" if "d div 64 = r" for d
    using assms that row_div [of r d]
    by (simp add: slots_used_def slot_count_def BITMAP_ROW_FULL_def)
  then show ?thesis by (simp add: row_full_def)
qed

lemma row_full_after:
  assumes "r < unat (page_file_bitmap_rows s)"
    and "alloc_step vm (row_new r (page_file_bitmaps s r)) s t"
  shows "row_full t r"
proof -
  have "d \<in> slots_used t" if "d div 64 = r" for d
  proof (cases "bit (page_file_bitmaps s r) (d mod 64)")
    case True
    then have "d \<in> slots_used s"
      using assms(1) that row_div [of r d] by (simp add: slots_used_def slot_count_def)
    then show ?thesis using assms(2) by (auto simp: alloc_step_def)
  next
    case False
    have "d = 64 * r + d mod 64" using that by auto
    then have "d \<in> set (row_new r (page_file_bitmaps s r))"
      using False unfolding row_new_def by (metis (no_types, lifting) atLeastLessThan_iff image_eqI
          list.set_map mem_Collect_eq mod_less_divisor set_filter set_upt zero_le zero_less_numeral)
    then show ?thesis using assms(2) by (auto simp: alloc_step_def)
  qed
  then show ?thesis by (simp add: row_full_def)
qed

lemma next_row_unat:
  assumes "unat (rows :: u64) \<le> 2 ^ 40" and "cur < rows"
  shows "unat ((cur + 1) mod rows) = (unat cur + 1) mod unat rows"
proof -
  have "unat cur < 2 ^ 63" using assms by (simp add: word_less_nat_alt)
  then show ?thesis by (simp add: unat_mod unat_add_1)
qed

lemma slot_count_rows: "pf_shape vm s \<Longrightarrow> 0 < unat (page_file_bitmap_rows s) \<and>
    unat (page_file_bitmap_rows s) \<le> 2 ^ 40"
  by (auto simp: pf_shape_def slot_count_def)


lemma scan_rows_run:
  assumes "pf_inv vm s" and "cur < page_file_bitmap_rows s"
    and "unat target \<le> unat MAX_WRITE_BATCH_SIZE" and "num_stashed_slots s < target"
  shows "\<exists>row t new. scan_rows vm target n cur s = Inr (row, t) \<and> row < page_file_bitmap_rows s \<and>
      alloc_step vm new s t \<and> length (stash t) < unat target + 64 \<and>
      (target \<le> num_stashed_slots t \<or>
       (\<forall>k \<in> {1..n}. row_full t ((unat cur + k) mod unat (page_file_bitmap_rows s))))"
  using assms
proof (induction n arbitrary: cur s)
  case 0
  then have "alloc_step vm [] s s" by (intro alloc_step_refl)
  then show ?case using 0 by (auto simp: return_apply word_less_nat_alt intro: exI [of _ "[]"])
next
  case (Suc n)
  let ?rows = "page_file_bitmap_rows s" and ?row = "(cur + 1) mod page_file_bitmap_rows s"
  note shape = pf_inv_shape [OF Suc.prems(1)]
  have rows: "unat ?rows \<le> 2 ^ 40" "0 < unat ?rows" using slot_count_rows [OF shape] by auto
  have r: "unat ?row = (unat cur + 1) mod unat ?rows"
    using rows(1) Suc.prems(2) by (rule next_row_unat)
  then have less: "unat ?row < unat ?rows" using rows(2) by simp
  then have less': "?row < ?rows" by (simp add: word_less_nat_alt)
  have room: "length (stash s) + 64 \<le> SLOT_STACK_SIZE"
    using Suc.prems(3,4) by (simp add: word_less_nat_alt)
  have later: "row_full t ((unat cur + k) mod unat ?rows)"
    if "row_full t (unat ?row)" "\<forall>k \<in> {1..n}. row_full t ((unat ?row + k) mod unat ?rows)"
      "k \<in> {1..Suc n}" for t k
  proof (cases "k = 1")
    case True
    then show ?thesis using that(1) r by simp
  next
    case False
    note range = that(3)
    obtain j where j: "k = Suc j" using range by (cases k) auto
    have "(unat ?row + j) mod unat ?rows = (unat cur + k) mod unat ?rows"
      unfolding r j by (simp add: mod_simps)
    moreover have "j \<in> {1..n}" using False range j by auto
    ultimately show ?thesis using that(2) by metis
  qed
  show ?case
  proof (cases "page_file_bitmaps s (unat ?row) = BITMAP_ROW_FULL")
    case True
    then have full: "row_full s (unat ?row)" using less by (rule row_full_snapshot [rotated])
    have eq: "scan_rows vm target (Suc n) cur s = scan_rows vm target n ?row s"
      using True less by (simp add: bind_apply gets_apply read_row_ok)
    obtain row t new where t: "scan_rows vm target n ?row s = Inr (row, t)" "row < ?rows"
      "alloc_step vm new s t" "length (stash t) < unat target + 64"
      "target \<le> num_stashed_slots t \<or>
       (\<forall>k \<in> {1..n}. row_full t ((unat ?row + k) mod unat ?rows))"
      using Suc.IH [OF Suc.prems(1) less' Suc.prems(3,4)] by blast
    have "row_full t (unat ?row)" using full t(3) by (rule row_full_mono)
    then show ?thesis using t later unfolding eq by blast
  next
    case False
    obtain u where u: "push_slots_from_bitmap_row vm ?row s = Inr ((), u)"
      "alloc_step vm (row_new (unat ?row) (page_file_bitmaps s (unat ?row))) s u"
      using push_slots_from_bitmap_row_run [OF Suc.prems(1) less room] by blast
    have full: "row_full u (unat ?row)" using less u(2) by (rule row_full_after)
    have eq: "scan_rows vm target (Suc n) cur s =
        (if num_stashed_slots u \<ge> target then Inr (?row, u) else scan_rows vm target n ?row u)"
      using False less u(1) by (simp add: bind_apply gets_apply read_row_ok return_apply)
    have rows_u: "page_file_bitmap_rows u = ?rows" and inv_u: "pf_inv vm u"
      using u(2) by (simp_all add: alloc_step_def)
    have "length (row_new (unat ?row) (page_file_bitmaps s (unat ?row))) \<le> 64"
      unfolding row_new_def length_map using length_filter_le [of _ "[0..<64 :: nat]"] by simp
    then have len_u: "length (stash u) < unat target + 64"
      using u(2) Suc.prems(4) unfolding alloc_step_def word_less_nat_alt
      by (metis add_less_le_mono length_append length_stash)
    show ?thesis
    proof (cases "num_stashed_slots u \<ge> target")
      case True
      then have "scan_rows vm target (Suc n) cur s = Inr (?row, u)" using eq by simp
      then show ?thesis using u(2) less' len_u True by blast
    next
      case False
      obtain row t new where t: "scan_rows vm target n ?row u = Inr (row, t)" "row < ?rows"
        "alloc_step vm new u t" "length (stash t) < unat target + 64"
        "target \<le> num_stashed_slots t \<or>
         (\<forall>k \<in> {1..n}. row_full t ((unat ?row + k) mod unat ?rows))"
        using Suc.IH [OF inv_u _ Suc.prems(3), of ?row] less' False unfolding rows_u by force
      have "row_full t (unat ?row)" using full t(3) by (rule row_full_mono)
      moreover note alloc_step_trans [OF u(2) t(3)]
      moreover have "scan_rows vm target (Suc n) cur s = Inr (row, t)" using eq False t(1) by simp
      ultimately show ?thesis using t(2,4,5) later by blast
    qed
  qed
qed

declare scan_rows.simps [simp del]

text \<open>
  The request is met, or every slot of the page file is taken.  The stack never outgrows its array.
\<close>

lemma set_and_add_slots_to_stack_run:
  assumes inv: "pf_inv vm s" and target: "unat target \<le> unat MAX_WRITE_BATCH_SIZE"
    and low: "num_stashed_slots s < target"
  shows "\<exists>t new. set_and_add_slots_to_stack vm target s = Inr ((), t) \<and> pf_inv vm t \<and>
      stash t = stash s @ new \<and> slots_used t = slots_used s \<union> set new \<and>
      page_file t = page_file s \<and> length (stash t) < unat target + 64 \<and>
      (target \<le> num_stashed_slots t \<or> slots_used t = {..<slot_count t}) \<and> set new \<inter> slots_used s = {}"
proof -
  let ?rows = "page_file_bitmap_rows s" and ?cur = "last_checked_bitmap_row s"
  note shape = pf_inv_shape [OF inv]
  have rows: "0 < unat ?rows" using slot_count_rows [OF shape] by auto
  obtain row t new where t: "scan_rows vm target (unat ?rows) ?cur s = Inr (row, t)" "row < ?rows"
    "alloc_step vm new s t" "length (stash t) < unat target + 64"
    "target \<le> num_stashed_slots t \<or>
     (\<forall>k \<in> {1..unat ?rows}. row_full t ((unat ?cur + k) mod unat ?rows))"
    using scan_rows_run [OF inv _ target low, of ?cur "unat ?rows"] inv by (auto simp: pf_inv_def)
  let ?u = "t\<lparr>last_checked_bitmap_row := row\<rparr>"
  have same: "stash ?u = stash t" "slots_used ?u = slots_used t" "slot_count ?u = slot_count t"
    "pf_shape vm ?u = pf_shape vm t"
    by (simp_all add: stash_def slots_used_def slot_count_def pf_shape_def)
  have run: "set_and_add_slots_to_stack vm target s = Inr ((), ?u)"
    using t(1) by (simp add: set_and_add_slots_to_stack_def prog_simps)
  have inv_t: "pf_inv vm t" and rows_t: "page_file_bitmap_rows t = ?rows"
    using t(3) by (simp_all add: alloc_step_def)
  have inv_u: "pf_inv vm ?u" using inv_t t(2) rows_t unfolding pf_inv_def same by simp
  have "slots_used t = {..<slot_count t}"
    if all: "\<forall>k \<in> {1..unat ?rows}. row_full t ((unat ?cur + k) mod unat ?rows)"
  proof -
    have "d \<in> slots_used t" if d: "d < slot_count t" for d
    proof -
      have r: "d div 64 < unat ?rows" using row_less [OF d] t(3) by (simp add: alloc_step_def)
      have c: "unat ?cur < unat ?rows" using inv by (simp add: pf_inv_def word_less_nat_alt)
      define k where "k = (if unat ?cur < d div 64 then d div 64 - unat ?cur
                           else d div 64 + unat ?rows - unat ?cur)"
      have "k \<in> {1..unat ?rows}" "(unat ?cur + k) mod unat ?rows = d div 64"
        using r c by (auto simp: k_def)
      then have "row_full t (d div 64)" using all by metis
      then show ?thesis by (simp add: row_full_def)
    qed
    then show ?thesis by (auto dest: slots_used_less)
  qed
  then show ?thesis using run inv_u t(3,4,5) unfolding alloc_step_def
    by (intro exI [of _ ?u] exI [of _ new]) (auto simp: same)
qed



section \<open>Giving slots back\<close>

lemma pf_inv_free:
  assumes inv: "pf_inv vm s" and d: "d \<in> slots_used s" "d \<noteq> 0" "d \<notin> set (stash s)"
  shows "pf_inv vm (free_slot d s)"
proof -
  have "unat (empty_disk_slots s) < 2 ^ 63"
    using inv by (auto simp: pf_inv_def pf_shape_def)
  then have e: "unat (empty_disk_slots s + 1) = unat (empty_disk_slots s) + 1" by (rule unat_add_1)
  have "0 < card (slots_used s)" using d(1) by (auto simp: card_gt_0_iff)
  then have "unat (empty_disk_slots s + 1) + card (slots_used s - {d}) = slot_count s"
    using inv d(1) e by (simp add: pf_inv_def)
  then show ?thesis using inv d unfolding pf_inv_def by (auto simp: slots_used_free_slot)
qed

lemma pf_inv_pop:
  assumes inv: "pf_inv vm s" and st: "stash s = ds @ [d]"
  shows "pf_inv vm (pop_stash s)"
proof -
  have st': "stash (pop_stash s) = ds" using st by (rule stash_pop)
  have len: "length (stash s) = Suc (length ds)" using st by simp
  show ?thesis using inv st len unfolding pf_inv_def st' by simp
qed

lemma pf_inv_stash_last:
  "pf_inv vm s \<Longrightarrow> stash s = ds @ [d] \<Longrightarrow> d \<in> slots_used s \<and> d \<noteq> 0 \<and> d \<notin> set ds"
  by (auto simp: pf_inv_def)

lemma pf_inv_stash_size: "pf_inv vm s \<Longrightarrow> length (stash s) \<le> SLOT_STACK_SIZE"
  by (simp add: pf_inv_def)

lemma pop_slot_ok:
  assumes "pf_inv vm s" and "stash s = ds @ [d]"
  shows "\<exists>slot. pop_slot s = Inr (slot, pop_stash s) \<and> unat slot = d"
  using pop_slot_run [OF assms(2) pf_inv_stash_size [OF assms(1)]] .

lemma pop_and_clear_loop_run:
  "pf_inv vm s \<Longrightarrow> length (stash s) < fuel \<Longrightarrow>
   \<exists>t. pop_and_clear_loop fuel s = Inr ((), t) \<and> pf_inv vm t \<and> stash t = [] \<and>
       slots_used t = slots_used s - set (stash s) \<and> page_file t = page_file s"
proof (induction fuel arbitrary: s)
  case (Suc fuel)
  show ?case
  proof (cases "stash s" rule: rev_cases)
    case Nil
    then have "unat (num_stashed_slots s) = 0" using length_stash [of s] by simp
    then have "num_stashed_slots s = 0" by (simp add: unat_eq_0)
    then show ?thesis using Suc.prems Nil by (simp add: prog_simps)
  next
    case (snoc ds d)
    have n: "unat (num_stashed_slots s) = Suc (length ds)"
      using snoc by (metis length_append_singleton length_stash)
    have "0 < sint (num_stashed_slots s)"
      using n pf_inv_stash_size [OF Suc.prems(1)] by (simp add: sint_small)
    moreover obtain slot where slot: "pop_slot s = Inr (slot, pop_stash s)" "unat slot = d"
      using pop_slot_ok [OF Suc.prems(1) snoc] by blast
    moreover have d: "d \<in> slots_used s" "d \<noteq> 0" "d \<notin> set ds"
      using pf_inv_stash_last [OF Suc.prems(1) snoc] by auto
    moreover have "clear_disk_slot slot (pop_stash s) = Inr ((), free_slot d (pop_stash s))"
      using clear_disk_slot_run [of vm "pop_stash s" slot] d slot(2) pf_inv_shape [OF Suc.prems(1)]
      by simp
    ultimately have run: "pop_and_clear_loop (Suc fuel) s =
        pop_and_clear_loop fuel (free_slot d (pop_stash s))"
      by (simp add: prog_simps)
    have st: "stash (free_slot d (pop_stash s)) = ds" using stash_pop(1) [OF snoc] by simp
    have "pf_inv vm (free_slot d (pop_stash s))"
      using pf_inv_pop [OF Suc.prems(1) snoc] d stash_pop(1) [OF snoc] by (intro pf_inv_free) simp_all
    then obtain t where "pop_and_clear_loop fuel (free_slot d (pop_stash s)) = Inr ((), t)"
      "pf_inv vm t" "stash t = []" "slots_used t = slots_used (free_slot d (pop_stash s)) - set ds"
      "page_file t = page_file s"
      using Suc.IH [of "free_slot d (pop_stash s)"] Suc.prems(2) snoc st by auto
    then show ?thesis using run snoc by (auto simp: slots_used_free_slot)
  qed
qed simp

lemma initialize_page_file_run:
  assumes "pages_in_page_file vm = 64 * rows" and "0 < unat rows" and "64 * unat rows \<le> 2 ^ 40"
  shows "\<exists>t. initialize_page_file_and_metadata vm s = Inr ((), t) \<and> pf_inv vm t \<and>
             slots_used t = {0} \<and> stash t = []"
proof -
  have pages: "unat (pages_in_page_file vm) = 64 * unat rows"
    using assms(1,3) by (simp add: unat_word_ariths)
  then have r: "unat (pages_in_page_file vm div 64) = unat rows" by (simp add: unat_div)
  have "0 < unat (pages_in_page_file vm)" using pages assms(2) by simp
  then have p1: "unat (pages_in_page_file vm - 1) = 64 * unat rows - 1"
    by (simp only: unat_sub_1 pages)
  let ?t = "s\<lparr>page_file := (\<lambda>_. zero_page), page_file_bitmaps := (\<lambda>_. 0)(0 := 1),
      page_file_bitmap_rows := pages_in_page_file vm div 64,
      max_disk_index := pages_in_page_file vm - 1, slot_stack := (\<lambda>_. 0),
      last_checked_bitmap_row := 0, num_stashed_slots := 0,
      empty_disk_slots := pages_in_page_file vm - 1\<rparr>"
  have run: "initialize_page_file_and_metadata vm s = Inr ((), ?t)"
    using r assms(2)
    by (simp add: initialize_page_file_and_metadata_def prog_simps read_row_def write_row_def)
  have count: "slot_count ?t = 64 * unat rows" using r by (simp add: slot_count_def)
  have used: "slots_used ?t = {0}"
    using assms(2) unfolding slots_used_def count by (auto simp: bit_1_iff dest: slot_split)
  have st: "stash ?t = []" by (simp add: stash_def)
  have "pf_inv vm ?t"
    unfolding pf_inv_def pf_shape_def count used st
    using assms pages p1 r by (simp add: word_less_nat_alt)
  then show ?thesis using run used st by blast
qed


section \<open>The interface to the fault handler and the writer\<close>

text \<open>
  A pool of slots: \<open>take\<close> hands out the last slot held in reserve, \<open>release\<close> frees a slot in use.
\<close>

locale slot_pool =
  fixes inv :: "'s \<Rightarrow> bool"
    and used :: "'s \<Rightarrow> nat set"
    and reserve :: "'s \<Rightarrow> nat list"
    and take :: "('s, u64) prog"
    and release :: "u64 \<Rightarrow> ('s, unit) prog"
  assumes reserve_fresh: "inv s \<Longrightarrow> distinct (reserve s) \<and> set (reserve s) \<subseteq> used s - {0}"
    and take_law: "inv s \<Longrightarrow> reserve s = ds @ [d] \<Longrightarrow>
      \<exists>x t. take s = Inr (x, t) \<and> unat x = d \<and> inv t \<and> reserve t = ds \<and> used t = used s"
    and release_law: "inv s \<Longrightarrow> unat x \<in> used s \<Longrightarrow> unat x \<noteq> 0 \<Longrightarrow> unat x \<notin> set (reserve s) \<Longrightarrow>
      \<exists>t. release x s = Inr ((), t) \<and> inv t \<and> reserve t = reserve s \<and> used t = used s - {unat x}"
begin

lemma take_release:
  assumes "inv s" and "reserve s = ds @ [d]"
  shows "\<exists>t. bind take release s = Inr ((), t) \<and> inv t \<and> reserve t = ds \<and> used t = used s - {d}"
proof -
  obtain x t where t: "take s = Inr (x, t)" "unat x = d" "inv t" "reserve t = ds" "used t = used s"
    using take_law [OF assms] by blast
  have "d \<in> used s" "d \<noteq> 0" "d \<notin> set ds" using reserve_fresh [OF assms(1)] assms(2) by auto
  then show ?thesis using release_law [OF t(3), of x] t by (auto simp: bind_apply)
qed

lemma take_twice:
  assumes "inv s" and "reserve s = ds @ [d', d]"
  shows "\<exists>x y t. bind take (\<lambda>x. bind take (\<lambda>y. return (x, y))) s = Inr ((x, y), t) \<and> x \<noteq> y \<and>
           unat x \<in> used t - {0} \<and> unat y \<in> used t - {0} \<and> inv t \<and> reserve t = ds"
proof -
  obtain x t where t: "take s = Inr (x, t)" "unat x = d" "inv t" "reserve t = ds @ [d']" "used t = used s"
    using take_law [of s "ds @ [d']" d] assms by auto
  obtain y u where u: "take t = Inr (y, u)" "unat y = d'" "inv u" "reserve u = ds" "used u = used t"
    using take_law [OF t(3,4)] by blast
  have "d \<noteq> d'" "{d, d'} \<subseteq> used s - {0}" using reserve_fresh [OF assms(1)] assms(2) by auto
  then show ?thesis using t u by (auto simp: prog_simps)
qed

end

interpretation page_file_pool:
  slot_pool "pf_inv vm" slots_used stash pop_slot clear_disk_slot for vm
proof unfold_locales
  fix s ds d and x :: u64
  show "pf_inv vm s \<Longrightarrow> distinct (stash s) \<and> set (stash s) \<subseteq> slots_used s - {0}"
    by (simp add: pf_inv_def)
  show "pf_inv vm s \<Longrightarrow> stash s = ds @ [d] \<Longrightarrow>
    \<exists>x t. pop_slot s = Inr (x, t) \<and> unat x = d \<and> pf_inv vm t \<and> stash t = ds \<and> slots_used t = slots_used s"
    using pop_slot_ok pf_inv_pop stash_pop(1) pop_stash_fields(8) by blast
  show "pf_inv vm s \<Longrightarrow> unat x \<in> slots_used s \<Longrightarrow> unat x \<noteq> 0 \<Longrightarrow> unat x \<notin> set (stash s) \<Longrightarrow>
    \<exists>t. clear_disk_slot x s = Inr ((), t) \<and> pf_inv vm t \<and> stash t = stash s \<and>
        slots_used t = slots_used s - {unat x}"
    using clear_disk_slot_run [OF pf_inv_shape, of vm s x] pf_inv_free [of vm s "unat x"]
    by (auto simp: slots_used_free_slot)
qed


section \<open>Properties\<close>

text \<open>The page file of 64 slots, as it is after initialisation.\<close>

definition small_disk_vm :: vm_state where
  "small_disk_vm = zero_vm\<lparr>pages_in_page_file := 64\<rparr>"

definition small_disk :: page_file_state where
  "small_disk = zero_pf\<lparr>page_file := (\<lambda>_. zero_page), page_file_bitmaps := (\<lambda>_. 0)(0 := 1),
      page_file_bitmap_rows := 1, max_disk_index := 63, slot_stack := (\<lambda>_. 0),
      last_checked_bitmap_row := 0, num_stashed_slots := 0, empty_disk_slots := 63\<rparr>"

lemma small_disk_init:
  "initialize_page_file_and_metadata small_disk_vm zero_pf = Inr ((), small_disk)"
  by (simp add: initialize_page_file_and_metadata_def prog_simps read_row_def write_row_def
      small_disk_vm_def small_disk_def)

lemma small_disk_rows [simp]: "page_file_bitmap_rows small_disk = 1"
  "num_stashed_slots small_disk = 0"
  by (simp_all add: small_disk_def)

lemma small_disk_inv:
  "pf_inv small_disk_vm small_disk" "slots_used small_disk = {0}"
  "stash small_disk = []" "slot_count small_disk = 64"
proof -
  show "pf_inv small_disk_vm small_disk" "slots_used small_disk = {0}"
    "stash small_disk = []"
    using initialize_page_file_run [of small_disk_vm 1 zero_pf] small_disk_init
    by (simp_all add: small_disk_vm_def)
  show "slot_count small_disk = 64" by (simp add: slot_count_def small_disk_def)
qed

text \<open>
  After initialisation, in a page file of a whole number of bitmap rows, slot 0 is reserved (so
  that a disk index is never 0), every other slot is free, the count of empty slots is right, and no
  slot is stashed.
\<close>

theorem initialize_page_file_establishes_invariant:
  assumes "pages_in_page_file vm = 64 * rows" and "0 < unat rows" and "64 * unat rows \<le> 2 ^ 40"
  shows "\<exists>t. initialize_page_file_and_metadata vm s = Inr ((), t) \<and> pf_inv vm t \<and>
             slots_used t = {0} \<and> stash t = []"
  using assms by (rule initialize_page_file_run)

lemma initialize_page_file_establishes_invariant_witness:
  "\<exists>t. initialize_page_file_and_metadata small_disk_vm zero_pf = Inr ((), t) \<and> slots_used t = {0}"
  using initialize_page_file_establishes_invariant [of small_disk_vm 1 zero_pf]
  by (auto simp: small_disk_vm_def)

text \<open>
  C39: when the number of page-file pages is not a multiple of 64, the pages beyond the last whole
  row are counted as empty slots although no bitmap row holds them: with 64 \<open>rows\<close> and \<open>extra\<close> pages,
  the count of empty slots exceeds the free slots by \<open>extra\<close>.
\<close>

theorem initialize_page_file_overcounts:
  assumes "pages_in_page_file vm = of_nat (64 * rows + extra)" and "0 < rows" and "0 < extra"
    and "extra < 64" and "64 * rows + extra < 2 ^ 40"
  shows "\<exists>t. initialize_page_file_and_metadata vm s = Inr ((), t) \<and>
             unat (empty_disk_slots t) = card ({..<slot_count t} - slots_used t) + extra"
proof -
  have pages: "unat (pages_in_page_file vm) = 64 * rows + extra"
    using assms(1,5) by (simp add: unat_of_nat del: of_nat_add of_nat_mult)
  then have r: "unat (pages_in_page_file vm div 64) = rows" using assms(4) by (simp add: unat_div)
  have "0 < unat (pages_in_page_file vm)" using pages assms(2) by simp
  then have p1: "unat (pages_in_page_file vm - 1) = 64 * rows + extra - 1"
    by (simp only: unat_sub_1 pages)
  let ?t = "s\<lparr>page_file := (\<lambda>_. zero_page), page_file_bitmaps := (\<lambda>_. 0)(0 := 1),
      page_file_bitmap_rows := pages_in_page_file vm div 64,
      max_disk_index := pages_in_page_file vm - 1, slot_stack := (\<lambda>_. 0),
      last_checked_bitmap_row := 0, num_stashed_slots := 0,
      empty_disk_slots := pages_in_page_file vm - 1\<rparr>"
  have run: "initialize_page_file_and_metadata vm s = Inr ((), ?t)"
    using r assms(2)
    by (simp add: initialize_page_file_and_metadata_def prog_simps read_row_def write_row_def)
  have count: "slot_count ?t = 64 * rows" using r by (simp add: slot_count_def)
  have used: "slots_used ?t = {0}"
    using assms(2) unfolding slots_used_def count by (auto simp: bit_1_iff dest: slot_split)
  have "card ({..<slot_count ?t} - slots_used ?t) = 64 * rows - 1"
    unfolding used count using assms(2) by (simp add: card_Diff_singleton)
  moreover have "unat (empty_disk_slots ?t) = 64 * rows - 1 + extra"
    using p1 assms(2,3) by simp
  ultimately show ?thesis using run by metis
qed

lemma initialize_page_file_overcounts_witness:
  "\<exists>t. initialize_page_file_and_metadata (zero_vm\<lparr>pages_in_page_file := 100\<rparr>) zero_pf = Inr ((), t) \<and>
       unat (empty_disk_slots t) = card ({..<slot_count t} - slots_used t) + 36"
  using initialize_page_file_overcounts [of "zero_vm\<lparr>pages_in_page_file := 100\<rparr>" 1 36 zero_pf] by simp

text \<open>
  C29: \<open>set_disk_slot\<close> and \<open>clear_disk_slot\<close> each change the use of exactly one slot and the count of
  empty slots by one; setting a slot in use and clearing a free one are both caught by the
  assertions.
\<close>

theorem disk_slot_set_and_clear:
  assumes "pf_shape vm s" and "unat d < slot_count s"
  shows "if unat d \<in> slots_used s
     then set_disk_slot d s = Inl DebugBreakHit \<and>
          (\<exists>t. clear_disk_slot d s = Inr ((), t) \<and> slots_used t = slots_used s - {unat d} \<and>
               empty_disk_slots t = empty_disk_slots s + 1 \<and> page_file t = page_file s)
     else clear_disk_slot d s = Inl DebugBreakHit \<and>
          (\<exists>t. set_disk_slot d s = Inr ((), t) \<and> slots_used t = insert (unat d) (slots_used s) \<and>
               empty_disk_slots t = empty_disk_slots s - 1 \<and> page_file t = page_file s)"
  using set_disk_slot_run [OF assms] clear_disk_slot_run [OF assms(1), of d]
    set_disk_slot_twice [OF assms(1), of d] clear_disk_slot_twice [OF assms]
  by (simp add: slots_used_use_slot slots_used_free_slot assms(2))

lemma disk_slot_set_and_clear_witness:
  "(\<exists>t. set_disk_slot 5 small_disk = Inr ((), t) \<and> slots_used t = {5, 0}) \<and>
   set_disk_slot 0 small_disk = Inl DebugBreakHit"
  using disk_slot_set_and_clear [OF pf_inv_shape [OF small_disk_inv(1)], of 5]
    disk_slot_set_and_clear [OF pf_inv_shape [OF small_disk_inv(1)], of 0]
  by (auto simp: small_disk_inv)

text \<open>
  C26: the writer's request for slots succeeds.  For a target of at most 4096 that the stack does not
  meet, \<open>set_and_add_slots_to_stack\<close> runs without a fault, stashes distinct slots that were free and
  are now in use, keeps the stack within its 8192 entries, and either meets the target or leaves no
  slot of the page file free.
\<close>

theorem slot_request_is_met_or_file_full:
  assumes "pf_inv vm s" and "unat target \<le> unat MAX_WRITE_BATCH_SIZE"
    and "num_stashed_slots s < target"
  shows "\<exists>t new. set_and_add_slots_to_stack vm target s = Inr ((), t) \<and> pf_inv vm t \<and>
      stash t = stash s @ new \<and> slots_used t = slots_used s \<union> set new \<and>
      page_file t = page_file s \<and> length (stash t) < unat target + 64 \<and>
      (target \<le> num_stashed_slots t \<or> slots_used t = {..<slot_count t}) \<and> set new \<inter> slots_used s = {}"
  using assms by (rule set_and_add_slots_to_stack_run)

lemma slot_request_is_met_or_file_full_witness:
  "\<exists>t new. set_and_add_slots_to_stack small_disk_vm 10 small_disk = Inr ((), t) \<and>
      stash t = new \<and> slots_used t = insert 0 (set new)"
  using slot_request_is_met_or_file_full [OF small_disk_inv(1), of 10]
  by (auto simp: small_disk_inv)

text \<open>
  C28: the snapshot of a bitmap row may be stale.  While the writer scans a row other threads may
  free slots of it; as long as every slot in use now was in use in the snapshot, the scan never sets
  a slot twice, and stashes exactly the slots the snapshot shows free.
\<close>

theorem row_scan_tolerates_stale_snapshot:
  assumes "pf_inv vm s" and "unat row < unat (page_file_bitmap_rows s)"
    and "length (stash s) + 64 \<le> SLOT_STACK_SIZE"
    and "\<forall>j < 64. bit (page_file_bitmaps s (unat row)) j \<longrightarrow> bit snapshot j"
  shows "\<exists>t. push_slots_from_snapshot vm row snapshot s = Inr ((), t) \<and> pf_inv vm t \<and>
             stash t = stash s @
               map (\<lambda>i. 64 * unat row + i) (filter (\<lambda>i. \<not> bit snapshot i) [0..<64])"
  using push_slots_from_snapshot_run [OF assms] by (auto simp: alloc_step_def row_new_def)

lemma small_row_stale:
  "\<forall>j < 64. bit (page_file_bitmaps small_disk (unat (0 :: u64))) j \<longrightarrow> bit (0xFFFFFFFFFFFFFFF3 :: u64) j"
  by (simp add: small_disk_def bit_1_iff)

lemma small_row_new:
  "map (\<lambda>i. 64 * unat (0 :: u64) + i) (filter (\<lambda>i. \<not> bit (0xFFFFFFFFFFFFFFF3 :: u64) i) [0..<64]) = [2, 3]"
  by code_simp

lemma row_scan_tolerates_stale_snapshot_witness:
  "\<exists>t. push_slots_from_snapshot small_disk_vm 0 0xFFFFFFFFFFFFFFF3 small_disk = Inr ((), t) \<and>
       stash t = [2, 3]"
  using row_scan_tolerates_stale_snapshot [OF small_disk_inv(1) _ _ small_row_stale]
  unfolding small_row_new by (simp add: small_disk_inv) blast

text \<open>
  C36: draining the stack frees every stashed slot and nothing else, and ends.
\<close>

theorem pop_and_clear_all_slots_drains:
  assumes "pf_inv vm s"
  shows "\<exists>t. pop_and_clear_all_slots s = Inr ((), t) \<and> pf_inv vm t \<and> stash t = [] \<and>
             slots_used t = slots_used s - set (stash s) \<and> page_file t = page_file s"
  using pop_and_clear_loop_run [OF assms, of "Suc (length (stash s))"]
  by (simp add: pop_and_clear_all_slots_def prog_simps)

lemma pop_and_clear_all_slots_drains_witness:
  "\<exists>t. pop_and_clear_all_slots small_disk = Inr ((), t) \<and> slots_used t = {0}"
  using pop_and_clear_all_slots_drains [OF small_disk_inv(1)]
  by (auto simp: small_disk_inv)

text \<open>
  Two slots popped one after the other are different, both marked in use, and neither is slot 0,
  so two pages of a batch are never written to the same place and no disk index is \<open>NO_DISK_INDEX\<close>.
\<close>

theorem popped_slots_are_distinct:
  assumes "pf_inv vm s" and "stash s = ds @ [d', d]"
  shows "\<exists>x y t. bind pop_slot (\<lambda>x. bind pop_slot (\<lambda>y. return (x, y))) s = Inr ((x, y), t) \<and>
           x \<noteq> y \<and> unat x \<in> slots_used t - {0} \<and> unat y \<in> slots_used t - {0} \<and> pf_inv vm t \<and>
           stash t = ds"
  using assms by (rule page_file_pool.take_twice)

lemma popped_slots_are_distinct_witness:
  "\<exists>s x y t. bind pop_slot (\<lambda>x. bind pop_slot (\<lambda>y. return (x, y))) (s :: page_file_state) =
     Inr ((x, y), t) \<and> x \<noteq> y \<and> pf_inv small_disk_vm t"
proof -
  obtain t where "alloc_step small_disk_vm (row_new (unat (0 :: u64)) 0xFFFFFFFFFFFFFFF3)
      small_disk t"
    using push_slots_from_snapshot_run [OF small_disk_inv(1) _ _ small_row_stale]
    by (auto simp: small_disk_inv)
  then have "pf_inv small_disk_vm t" "stash t = [] @ [2, 3]"
    unfolding row_new_def small_row_new by (simp_all add: alloc_step_def small_disk_inv)
  then show ?thesis using popped_slots_are_distinct [of small_disk_vm t "[]" 2 3] by auto
qed

end
