(* ===== verification/Machine.thy ===== *)
theory Machine
  imports Disk Pfn
begin

text \<open>
  The state all threads share and the primitive steps on it: the global variables of the program,
  the address space, page frames and events, and the calls of pte.c, pfn.c and utils.c that read or
  write them.

  One thread runs a function at a time.  The other threads show in two places.  Every attempt to
  take a lock first consumes an entry of \<open>contention\<close>, an arbitrary list: the entry \<open>True\<close> means that
  another thread holds the lock at this moment.  A wait for an event lets \<open>others\<close>, an arbitrary
  program, run.  A blocking request for a lock that the thread itself holds is \<open>SpinForever\<close>.

  Windows calls are parameters (record \<open>os\<close>), and \<open>awe_spec\<close> states the documented behaviour of the
  two mapping calls.
\<close>

section \<open>Data\<close>

datatype list_id = zero_list | modified_list | standby_list | free_list nat | temp_list nat

text \<open>\<open>PAGE_LIST\<close>; the slim reader/writer lock is its number of readers and a writer flag.\<close>

record page_list =
  head :: pfn_ptr
  list_size :: u64
  shared_holders :: nat
  held_exclusive :: bool

text \<open>\<open>PAGE_LIST_ARRAY\<close>; \<open>list_array\<close> is \<open>lists s (free_list i)\<close>.\<close>

record page_list_array =
  low_list_bitmap :: u64
  number_of_lists :: u32
  page_count :: u64
  free_list_locks :: u64

record user_thread_info =
  thread_id :: u32
  kernel_va_index :: u32
  kernel_va_space :: u64
  random_seed :: u64
  free_page_cache :: "nat \<Rightarrow> pfn_ptr"
  free_page_count :: u16

datatype event =
    system_start_event
  | initiate_aging_event
  | initiate_trimming_event
  | initiate_writing_event
  | initiate_pruning_event
  | standby_pages_ready_event
  | system_exit_event

text \<open>What other threads do to this one's spinning, and how long it spun.\<close>

record spin_state =
  contention :: "bool list"
  yields :: nat

type_synonym address_space = "u64 \<Rightarrow> u64 option"

record machine =
  vm :: vm_state
  stats :: stats_state
  pf :: page_file_state
  ptes :: "nat \<Rightarrow> pte"
  pfns :: "pfn_ptr \<Rightarrow> pfn"
  committed :: "u64 \<Rightarrow> bool"
  heads :: nat
  lists :: "list_id \<Rightarrow> page_list"
  free_lists :: page_list_array
  events :: "event \<Rightarrow> bool"
  va_map :: address_space
  ram :: "u64 \<Rightarrow> page"
  users :: "nat \<Rightarrow> user_thread_info"
  pte_to_trim :: nat
  ticks :: nat
  spin :: spin_state

type_synonym 'a mm = "(machine, 'a) prog"

record os =
  MapUserPhysicalPages :: "u64 \<Rightarrow> nat \<Rightarrow> u64 list option \<Rightarrow> address_space \<Rightarrow> address_space option"
  MapUserPhysicalPagesScatter :: "u64 list \<Rightarrow> u64 list option \<Rightarrow> address_space \<Rightarrow> address_space option"
  QueryPerformanceCounter :: "nat \<Rightarrow> u64"
  others :: "unit mm"

text \<open>
  Documented behaviour of the mapping calls.  Page \<open>k\<close> from \<open>va\<close> on is mapped to frame \<open>k\<close> of the
  array; a null array unmaps.  \<open>Scatter\<close> takes the addresses one by one.
\<close>

fun map_all :: "(u64 \<times> u64 option) list \<Rightarrow> address_space \<Rightarrow> address_space" where
  "map_all [] m = m"
| "map_all ((va, f) # rest) m = map_all rest (m(va := f))"

definition pages_from :: "u64 \<Rightarrow> nat \<Rightarrow> u64 list" where
  "pages_from va n = map (\<lambda>k. va + of_nat k * PAGE_SIZE) [0..<n]"

definition map_list :: "u64 list \<Rightarrow> u64 list option \<Rightarrow> address_space \<Rightarrow> address_space" where
  "map_list vas frames m =
     map_all (zip vas (case frames of Some fs \<Rightarrow> map Some fs | None \<Rightarrow> replicate (length vas) None)) m"

definition awe_spec :: "os \<Rightarrow> bool" where
  "awe_spec w \<longleftrightarrow>
     (\<forall>va n frames m. (\<forall>fs. frames = Some fs \<longrightarrow> length fs = n) \<longrightarrow>
        MapUserPhysicalPages w va n frames m = Some (map_list (pages_from va n) frames m)) \<and>
     (\<forall>vas frames m. (\<forall>fs. frames = Some fs \<longrightarrow> length fs = length vas) \<longrightarrow>
        MapUserPhysicalPagesScatter w vas frames m = Some (map_list vas frames m))"


section \<open>Memory of the program\<close>

definition pfn_ok :: "machine \<Rightarrow> pfn_ptr \<Rightarrow> bool" where
  "pfn_ok s p = (case p of NullPfn \<Rightarrow> False | FramePfn f \<Rightarrow> committed s f | HeadPfn n \<Rightarrow> n < heads s)"

definition read_pfn :: "pfn_ptr \<Rightarrow> pfn mm" where
  "read_pfn p = (\<lambda>s. if pfn_ok s p then Inr (pfns s p, s) else Inl AccessViolation)"

definition update_pfn :: "pfn_ptr \<Rightarrow> (pfn \<Rightarrow> pfn) \<Rightarrow> unit mm" where
  "update_pfn p g =
     (\<lambda>s. if pfn_ok s p then Inr ((), s\<lparr>pfns := (pfns s)(p := g (pfns s p))\<rparr>) else Inl AccessViolation)"

definition read_flink :: "pfn_ptr \<Rightarrow> pfn_ptr mm" where
  "read_flink p = bind (read_pfn p) (\<lambda>q. return (flink q))"

definition read_blink :: "pfn_ptr \<Rightarrow> pfn_ptr mm" where
  "read_blink p = bind (read_pfn p) (\<lambda>q. return (blink q))"

definition write_flink :: "pfn_ptr \<Rightarrow> pfn_ptr \<Rightarrow> unit mm" where
  "write_flink p q = update_pfn p (\<lambda>r. r\<lparr>flink := q\<rparr>)"

definition write_blink :: "pfn_ptr \<Rightarrow> pfn_ptr \<Rightarrow> unit mm" where
  "write_blink p q = update_pfn p (\<lambda>r. r\<lparr>blink := q\<rparr>)"

definition pte_ok :: "machine \<Rightarrow> nat \<Rightarrow> bool" where
  "pte_ok s i \<longleftrightarrow> i < unat (num_ptes (vm s))"

definition read_pte :: "nat \<Rightarrow> u64 mm" where
  "read_pte i = (\<lambda>s. if pte_ok s i then Inr (entire_pte (ptes s i), s) else Inl AccessViolation)"

definition update_pte :: "nat \<Rightarrow> (pte \<Rightarrow> pte) \<Rightarrow> unit mm" where
  "update_pte i g =
     (\<lambda>s. if pte_ok s i then Inr ((), s\<lparr>ptes := (ptes s)(i := g (ptes s i))\<rparr>) else Inl AccessViolation)"

definition write_pte :: "nat \<Rightarrow> (u64 \<Rightarrow> u64) \<Rightarrow> unit mm" where
  "write_pte i g = update_pte i (\<lambda>p. p\<lparr>entire_pte := g (entire_pte p)\<rparr>)"

text \<open>A value or a fault as a program; the functions of Pte.thy and Pfn.thy return such values.\<close>

definition lift_result :: "fault + 'a \<Rightarrow> 'a mm" where
  "lift_result r = (case r of Inl e \<Rightarrow> raise e | Inr x \<Rightarrow> return x)"

definition on_disk :: "'a disk_prog \<Rightarrow> 'a mm" where
  "on_disk = zoom pf (\<lambda>t s. s\<lparr>pf := t\<rparr>)"

definition on_stats :: "(stats_state \<Rightarrow> stats_state) \<Rightarrow> unit mm" where
  "on_stats g = modify (\<lambda>s. s\<lparr>stats := g (stats s)\<rparr>)"

definition on_user :: "nat \<Rightarrow> (user_thread_info \<Rightarrow> user_thread_info) \<Rightarrow> unit mm" where
  "on_user t g = modify (\<lambda>s. s\<lparr>users := (users s)(t := g (users s t))\<rparr>)"

definition on_list :: "list_id \<Rightarrow> (page_list \<Rightarrow> page_list) \<Rightarrow> unit mm" where
  "on_list l g = modify (\<lambda>s. s\<lparr>lists := (lists s)(l := g (lists s l))\<rparr>)"

definition on_free_lists :: "(page_list_array \<Rightarrow> page_list_array) \<Rightarrow> unit mm" where
  "on_free_lists g = modify (\<lambda>s. s\<lparr>free_lists := g (free_lists s)\<rparr>)"

definition list_head :: "list_id \<Rightarrow> pfn_ptr mm" where
  "list_head l = gets (\<lambda>s. head (lists s l))"

definition SetEvent :: "event \<Rightarrow> unit mm" where
  "SetEvent e = modify (\<lambda>s. s\<lparr>events := (events s)(e := True)\<rparr>)"

definition ResetEvent :: "event \<Rightarrow> unit mm" where
  "ResetEvent e = modify (\<lambda>s. s\<lparr>events := (events s)(e := False)\<rparr>)"

text \<open>
  \<open>WaitForSingleObject(e, INFINITE)\<close> on a manual-reset event: passes at once when it is set;
  otherwise the other threads run, and if none of them sets it the thread is never woken.
\<close>

definition WaitForSingleObject :: "os \<Rightarrow> event \<Rightarrow> unit mm" where
  "WaitForSingleObject w e =
     bind (gets (\<lambda>s. events s e)) (\<lambda>set.
     if set then return ()
     else bind (others w) (\<lambda>_. bind (gets (\<lambda>s. events s e)) (\<lambda>set.
       if set then return () else raise WaitForever)))"


section \<open>Byte locks of descriptors and entries\<close>

text \<open>Another thread may hold the lock this thread is about to try.\<close>

definition contended :: "bool mm" where
  "contended = (\<lambda>s. case contention (spin s) of
       [] \<Rightarrow> Inr (False, s)
     | c # cs \<Rightarrow> Inr (c, s\<lparr>spin := (spin s)\<lparr>contention := cs\<rparr>\<rparr>))"

definition wait :: "u32 \<Rightarrow> unit mm" where
  "wait time = modify (\<lambda>s. s\<lparr>spin := (spin s)\<lparr>yields := yields (spin s) + unat (wait_yields time)\<rparr>\<rparr>)"

definition pfn_semaphore :: "pfn \<Rightarrow> u16" where
  "pfn_semaphore q = ucast (lock_of q)"

definition set_semaphore :: "u16 \<Rightarrow> pfn \<Rightarrow> pfn" where
  "set_semaphore v q = q\<lparr>raw_pfn_data := put_lock (ucast v) (raw_pfn_data q)\<rparr>"

definition lock_pfn :: "pfn_ptr \<Rightarrow> unit mm" where
  "lock_pfn p = bind (read_pfn p) (\<lambda>q.
     case lock [(pfn_semaphore q, pfn_semaphore q)] of
       None \<Rightarrow> raise SpinForever
     | Some _ \<Rightarrow> update_pfn p (set_semaphore LOCKED))"

definition try_lock_pfn :: "pfn_ptr \<Rightarrow> bool mm" where
  "try_lock_pfn p = bind (read_pfn p) (\<lambda>q. bind contended (\<lambda>busy.
     if busy then return False
     else let (ok, new) = try_lock (pfn_semaphore q) (pfn_semaphore q)
          in bind (update_pfn p (set_semaphore new)) (\<lambda>_. return ok)))"

definition unlock_pfn :: "pfn_ptr \<Rightarrow> unit mm" where
  "unlock_pfn p = bind (read_pfn p) (\<lambda>q.
     bind (lift_result (unlock (pfn_semaphore q) (pfn_semaphore q))) (\<lambda>new.
     update_pfn p (set_semaphore new)))"

definition set_pte_lock :: "u16 \<Rightarrow> pte \<Rightarrow> pte" where
  "set_pte_lock v p = p\<lparr>pte_lock := v\<rparr>"

definition lock_pte :: "nat \<Rightarrow> unit mm" where
  "lock_pte i = bind (read_pte i) (\<lambda>_. bind (gets (\<lambda>s. pte_lock (ptes s i))) (\<lambda>v.
     case lock [(v, v)] of
       None \<Rightarrow> raise SpinForever
     | Some _ \<Rightarrow> update_pte i (set_pte_lock LOCKED)))"

definition try_lock_pte :: "nat \<Rightarrow> bool mm" where
  "try_lock_pte i = bind (read_pte i) (\<lambda>_. bind (gets (\<lambda>s. pte_lock (ptes s i))) (\<lambda>v.
     bind contended (\<lambda>busy.
     if busy then return False
     else let (ok, new) = try_lock v v
          in bind (update_pte i (set_pte_lock new)) (\<lambda>_. return ok))))"

definition unlock_pte :: "nat \<Rightarrow> unit mm" where
  "unlock_pte i = bind (read_pte i) (\<lambda>_. bind (gets (\<lambda>s. pte_lock (ptes s i))) (\<lambda>v.
     bind (lift_result (unlock v v)) (\<lambda>new. update_pte i (set_pte_lock new))))"


section \<open>Evaluation of the primitive steps\<close>

text \<open>\<open>on_cells X g m\<close>: the descriptors at \<open>X\<close> changed by \<open>g\<close>.\<close>

definition on_cells :: "pfn_ptr set \<Rightarrow> (pfn \<Rightarrow> pfn) \<Rightarrow> (pfn_ptr \<Rightarrow> pfn) \<Rightarrow> pfn_ptr \<Rightarrow> pfn" where
  "on_cells X g m = (\<lambda>p. if p \<in> X then g (m p) else m p)"

abbreviation on_cell :: "pfn_ptr \<Rightarrow> (pfn \<Rightarrow> pfn) \<Rightarrow> (pfn_ptr \<Rightarrow> pfn) \<Rightarrow> pfn_ptr \<Rightarrow> pfn" where
  "on_cell p \<equiv> on_cells {p}"

lemma on_cells_apply: "on_cells X g m p = (if p \<in> X then g (m p) else m p)"
  by (simp add: on_cells_def)

lemma on_cells_empty [simp]: "on_cells {} g m = m"
  by (simp add: on_cells_def)

lemma on_cells_commute:
  "(\<And>q. f (g q) = g (f q)) \<Longrightarrow> on_cells X f (on_cells Y g m) = on_cells Y g (on_cells X f m)"
  by (auto simp: on_cells_def fun_eq_iff)

lemma on_cells_disjoint:
  "X \<inter> Y = {} \<Longrightarrow> on_cells X f (on_cells Y g m) = on_cells Y g (on_cells X f m)"
  by (auto simp: on_cells_def fun_eq_iff)

lemma on_cells_union:
  "X \<inter> Y = {} \<Longrightarrow> on_cells X f (on_cells Y f m) = on_cells (X \<union> Y) f m"
  by (auto simp: on_cells_def fun_eq_iff)

lemma pfn_ok_updates [simp]:
  "pfn_ok (s\<lparr>pfns := a\<rparr>) p = pfn_ok s p" "pfn_ok (s\<lparr>lists := b\<rparr>) p = pfn_ok s p"
  "pfn_ok (s\<lparr>spin := c\<rparr>) p = pfn_ok s p" "pfn_ok (s\<lparr>stats := d\<rparr>) p = pfn_ok s p"
  "pfn_ok (s\<lparr>events := e\<rparr>) p = pfn_ok s p" "pfn_ok (s\<lparr>ptes := f\<rparr>) p = pfn_ok s p"
  "pfn_ok (s\<lparr>pf := g\<rparr>) p = pfn_ok s p" "pfn_ok (s\<lparr>va_map := h\<rparr>) p = pfn_ok s p"
  "pfn_ok (s\<lparr>ram := i\<rparr>) p = pfn_ok s p" "pfn_ok (s\<lparr>users := j\<rparr>) p = pfn_ok s p"
  "pfn_ok (s\<lparr>free_lists := k\<rparr>) p = pfn_ok s p" "pfn_ok (s\<lparr>ticks := l\<rparr>) p = pfn_ok s p"
  "pfn_ok (s\<lparr>pte_to_trim := n\<rparr>) p = pfn_ok s p" "pfn_ok (s\<lparr>vm := v\<rparr>) p = pfn_ok s p"
  by (simp_all add: pfn_ok_def split: pfn_ptr.split)

lemma pte_ok_updates [simp]:
  "pte_ok (s\<lparr>pfns := a\<rparr>) p = pte_ok s p" "pte_ok (s\<lparr>lists := b\<rparr>) p = pte_ok s p"
  "pte_ok (s\<lparr>spin := c\<rparr>) p = pte_ok s p" "pte_ok (s\<lparr>stats := d\<rparr>) p = pte_ok s p"
  "pte_ok (s\<lparr>events := e\<rparr>) p = pte_ok s p" "pte_ok (s\<lparr>ptes := f\<rparr>) p = pte_ok s p"
  "pte_ok (s\<lparr>pf := g\<rparr>) p = pte_ok s p" "pte_ok (s\<lparr>va_map := h\<rparr>) p = pte_ok s p"
  "pte_ok (s\<lparr>ram := i\<rparr>) p = pte_ok s p" "pte_ok (s\<lparr>users := j\<rparr>) p = pte_ok s p"
  "pte_ok (s\<lparr>free_lists := k\<rparr>) p = pte_ok s p" "pte_ok (s\<lparr>ticks := l\<rparr>) p = pte_ok s p"
  "pte_ok (s\<lparr>pte_to_trim := n\<rparr>) p = pte_ok s p" "pte_ok (s\<lparr>heads := n\<rparr>) p = pte_ok s p"
  by (simp_all add: pte_ok_def)

lemma read_pfn_run [prog_simps]: "pfn_ok s p \<Longrightarrow> read_pfn p s = Inr (pfns s p, s)"
  and update_pfn_run [prog_simps]:
    "pfn_ok s p \<Longrightarrow> update_pfn p g s = Inr ((), s\<lparr>pfns := on_cell p g (pfns s)\<rparr>)"
  by (auto simp: read_pfn_def update_pfn_def on_cells_def fun_eq_iff intro!: arg_cong [of _ _ "\<lambda>m. s\<lparr>pfns := m\<rparr>"])

lemma links_run [prog_simps]:
  "pfn_ok s p \<Longrightarrow> read_flink p s = Inr (flink (pfns s p), s)"
  "pfn_ok s p \<Longrightarrow> read_blink p s = Inr (blink (pfns s p), s)"
  "pfn_ok s p \<Longrightarrow> write_flink p q s = Inr ((), s\<lparr>pfns := on_cell p (flink_update (\<lambda>_. q)) (pfns s)\<rparr>)"
  "pfn_ok s p \<Longrightarrow> write_blink p q s = Inr ((), s\<lparr>pfns := on_cell p (blink_update (\<lambda>_. q)) (pfns s)\<rparr>)"
  by (simp_all add: read_flink_def read_blink_def write_flink_def write_blink_def prog_simps)

lemma read_pte_run [prog_simps]: "pte_ok s i \<Longrightarrow> read_pte i s = Inr (entire_pte (ptes s i), s)"
  and update_pte_run [prog_simps]:
    "pte_ok s i \<Longrightarrow> update_pte i h s = Inr ((), s\<lparr>ptes := (ptes s)(i := h (ptes s i))\<rparr>)"
  and write_pte_run [prog_simps]:
    "pte_ok s i \<Longrightarrow> write_pte i g s =
       Inr ((), s\<lparr>ptes := (ptes s)(i := (ptes s i)\<lparr>entire_pte := g (entire_pte (ptes s i))\<rparr>)\<rparr>)"
  by (simp_all add: read_pte_def update_pte_def write_pte_def)

lemma lift_result_run [prog_simps]:
  "lift_result (Inr x) = return x" "lift_result (Inl e) = raise e"
  by (simp_all add: lift_result_def)

lemma on_parts_run [prog_simps]:
  "on_stats g1 s = Inr ((), s\<lparr>stats := g1 (stats s)\<rparr>)"
  "on_user t g2 s = Inr ((), s\<lparr>users := (users s)(t := g2 (users s t))\<rparr>)"
  "on_list l g3 s = Inr ((), s\<lparr>lists := (lists s)(l := g3 (lists s l))\<rparr>)"
  "on_free_lists g4 s = Inr ((), s\<lparr>free_lists := g4 (free_lists s)\<rparr>)"
  "list_head l s = Inr (head (lists s l), s)"
  "SetEvent e s = Inr ((), s\<lparr>events := (events s)(e := True)\<rparr>)"
  "ResetEvent e s = Inr ((), s\<lparr>events := (events s)(e := False)\<rparr>)"
  by (simp_all add: on_stats_def on_user_def on_list_def on_free_lists_def list_head_def SetEvent_def
      ResetEvent_def prog_simps)

lemma on_disk_run: "m (pf s) = Inr (x, t) \<Longrightarrow> on_disk m s = Inr (x, s\<lparr>pf := t\<rparr>)"
  by (simp add: on_disk_def zoom_def)


section \<open>Taking and releasing descriptor locks\<close>

abbreviation locked_pfn :: "pfn \<Rightarrow> pfn" where "locked_pfn \<equiv> set_semaphore 1"
abbreviation unlocked_pfn :: "pfn \<Rightarrow> pfn" where "unlocked_pfn \<equiv> set_semaphore 0"

definition pfn_free :: "machine \<Rightarrow> pfn_ptr \<Rightarrow> bool" where
  "pfn_free s p \<longleftrightarrow> lock_of (pfns s p) = 0"

definition pfn_held :: "machine \<Rightarrow> pfn_ptr \<Rightarrow> bool" where
  "pfn_held s p \<longleftrightarrow> lock_of (pfns s p) = 1"

lemma semaphore_fields [simp]:
  "lock_of (set_semaphore v q) = ucast v" "status_of (set_semaphore v q) = status_of q"
  "slot_of (set_semaphore v q) = slot_of q" "PTE (set_semaphore v q) = PTE q"
  "flink (set_semaphore v q) = flink q" "blink (set_semaphore v q) = blink q"
proof -
  have "take_bit 16 (ucast v :: u64) = ucast v"
    by (rule bit_word_eqI) (auto simp: bit_take_bit_iff bit_ucast_iff dest: bit_imp_le_length)
  then show "lock_of (set_semaphore v q) = ucast v"
    by (simp add: lock_of_def set_semaphore_def pfn_fields)
qed (simp_all add: status_of_def slot_of_def set_semaphore_def pfn_fields)

lemma semaphore_zero: "pfn_semaphore q = 0 \<longleftrightarrow> lock_of q = 0"
  and semaphore_one: "pfn_semaphore q = 1 \<longleftrightarrow> lock_of q = 1"
proof -
  have "(ucast (ucast (lock_of q) :: u16) :: u64) = take_bit 16 (lock_of q)"
    by (rule bit_word_eqI) (auto simp: bit_take_bit_iff bit_ucast_iff dest: bit_imp_le_length)
  then have *: "ucast (pfn_semaphore q) = lock_of q" by (simp add: pfn_semaphore_def lock_fits)
  show "pfn_semaphore q = 0 \<longleftrightarrow> lock_of q = 0" using * by (metis pfn_semaphore_def unsigned_0)
  show "pfn_semaphore q = 1 \<longleftrightarrow> lock_of q = 1" using * by (metis pfn_semaphore_def unsigned_1)
qed


lemma set_semaphore_twice [simp]: "set_semaphore v (set_semaphore w q) = set_semaphore v q"
proof -
  have "put_lock a (put_lock b r) = put_lock a r" for a b r :: u64
    by (rule bit_word_eqI) (auto simp: put_lock_def bit_put_bits)
  then show ?thesis by (simp add: set_semaphore_def)
qed

lemma unlocked_self: "lock_of q = 0 \<Longrightarrow> unlocked_pfn q = q"
  and locked_self: "lock_of q = 1 \<Longrightarrow> locked_pfn q = q"
proof -
  have *: "put_lock (get_lock r) r = r" for r :: u64
    by (rule bit_word_eqI) (auto simp: put_lock_def get_lock_def bit_put_bits bit_get_bits)
  show "lock_of q = 0 \<Longrightarrow> unlocked_pfn q = q" using * [of "raw_pfn_data q"]
    by (simp add: set_semaphore_def lock_of_def)
  show "lock_of q = 1 \<Longrightarrow> locked_pfn q = q" using * [of "raw_pfn_data q"]
    by (simp add: set_semaphore_def lock_of_def)
qed

lemma lock_pfn_run:
  "pfn_ok s p \<Longrightarrow> pfn_free s p \<Longrightarrow>
   lock_pfn p s = Inr ((), s\<lparr>pfns := on_cell p locked_pfn (pfns s)\<rparr>)"
  by (simp add: lock_pfn_def prog_simps pfn_free_def semaphore_zero lock_def lock_spin_Cons)

lemma lock_pfn_held: "pfn_ok s p \<Longrightarrow> pfn_held s p \<Longrightarrow> lock_pfn p s = Inl SpinForever"
  using semaphore_one [of "pfns s p"]
  by (simp add: lock_pfn_def prog_simps pfn_held_def lock_def lock_spin_Cons)

lemma unlock_pfn_run:
  "pfn_ok s p \<Longrightarrow> pfn_held s p \<Longrightarrow>
   unlock_pfn p s = Inr ((), s\<lparr>pfns := on_cell p unlocked_pfn (pfns s)\<rparr>)"
  using semaphore_one [of "pfns s p"]
  by (simp add: unlock_pfn_def prog_simps pfn_held_def unlock_def)

lemma unlock_pfn_free: "pfn_ok s p \<Longrightarrow> pfn_free s p \<Longrightarrow> unlock_pfn p s = Inl DebugBreakHit"
  using semaphore_zero [of "pfns s p"]
  by (simp add: unlock_pfn_def prog_simps pfn_free_def unlock_def)

text \<open>What one attempt to take a lock draws from the list of contentions, and what it leaves.\<close>

definition next_busy :: "spin_state \<Rightarrow> bool" where
  "next_busy n = (case contention n of [] \<Rightarrow> False | c # _ \<Rightarrow> c)"

definition after_try :: "spin_state \<Rightarrow> spin_state" where
  "after_try n = n\<lparr>contention := tl (contention n)\<rparr>"

definition after_wait :: "u32 \<Rightarrow> spin_state \<Rightarrow> spin_state" where
  "after_wait time n = n\<lparr>yields := yields n + unat (wait_yields time)\<rparr>"

definition patience :: "machine \<Rightarrow> nat" where
  "patience s = length (contention (spin s))"

lemma contended_run [prog_simps]:
  "contended s = Inr (next_busy (spin s), s\<lparr>spin := after_try (spin s)\<rparr>)"
  by (simp add: contended_def next_busy_def after_try_def split: list.split)

lemma wait_run [prog_simps]: "wait time s = Inr ((), s\<lparr>spin := after_wait time (spin s)\<rparr>)"
  by (simp add: wait_def prog_simps after_wait_def)

lemma patience_after [simp]:
  "length (contention (after_wait time n)) = length (contention n)"
  "length (contention (after_try n)) = length (contention n) - 1"
  by (simp_all add: after_wait_def after_try_def)

lemma busy_patience: "next_busy n \<Longrightarrow> 0 < length (contention n)"
  by (simp add: next_busy_def split: list.splits)

lemma try_lock_pfn_run:
  assumes "pfn_ok s p" and "pfn_free s p"
  shows "try_lock_pfn p s =
    (if next_busy (spin s) then Inr (False, s\<lparr>spin := after_try (spin s)\<rparr>)
     else Inr (True, s\<lparr>pfns := on_cell p locked_pfn (pfns s), spin := after_try (spin s)\<rparr>))"
  using assms semaphore_zero [of "pfns s p"]
  by (simp add: try_lock_pfn_def prog_simps pfn_free_def try_lock_def compare_exchange_def)

lemma try_lock_pfn_held:
  assumes "pfn_ok s p" and "pfn_held s p"
  shows "\<exists>n. try_lock_pfn p s = Inr (False, s\<lparr>spin := n\<rparr>) \<and>
             length (contention n) \<le> length (contention (spin s))"
proof -
  have 1: "pfn_semaphore (pfns s p) = 1" using assms(2) by (simp add: pfn_held_def semaphore_one)
  have "on_cell p (set_semaphore 1) (pfns s) = pfns s"
    using assms(2) locked_self by (auto simp: on_cells_def pfn_held_def fun_eq_iff)
  then have "try_lock_pfn p s = Inr (False, s\<lparr>spin := after_try (spin s)\<rparr>)"
    using assms(1) 1 by (simp add: try_lock_pfn_def prog_simps try_lock_def)
  then show ?thesis by auto
qed


section \<open>Entry locks\<close>

definition pte_free :: "machine \<Rightarrow> nat \<Rightarrow> bool" where
  "pte_free s i \<longleftrightarrow> pte_lock (ptes s i) = 0"

definition pte_held :: "machine \<Rightarrow> nat \<Rightarrow> bool" where
  "pte_held s i \<longleftrightarrow> pte_lock (ptes s i) = 1"

definition on_pte :: "nat \<Rightarrow> (pte \<Rightarrow> pte) \<Rightarrow> (nat \<Rightarrow> pte) \<Rightarrow> nat \<Rightarrow> pte" where
  "on_pte i g m = m(i := g (m i))"

lemma lock_pte_run:
  "pte_ok s i \<Longrightarrow> pte_free s i \<Longrightarrow>
   lock_pte i s = Inr ((), s\<lparr>ptes := on_pte i (set_pte_lock 1) (ptes s)\<rparr>)"
  by (simp add: lock_pte_def prog_simps pte_free_def lock_def lock_spin_Cons on_pte_def)

lemma unlock_pte_run:
  "pte_ok s i \<Longrightarrow> pte_held s i \<Longrightarrow>
   unlock_pte i s = Inr ((), s\<lparr>ptes := on_pte i (set_pte_lock 0) (ptes s)\<rparr>)"
  by (simp add: unlock_pte_def prog_simps pte_held_def unlock_def on_pte_def)

lemma try_lock_pte_run:
  assumes "pte_ok s i" and "pte_free s i"
  shows "try_lock_pte i s =
    (if next_busy (spin s) then Inr (False, s\<lparr>spin := after_try (spin s)\<rparr>)
     else Inr (True, s\<lparr>ptes := on_pte i (set_pte_lock 1) (ptes s),
                        spin := after_try (spin s)\<rparr>))"
  using assms
  by (simp add: try_lock_pte_def prog_simps pte_free_def try_lock_def compare_exchange_def on_pte_def)



section \<open>The interface of the locks\<close>

text \<open>
  A lock per object: free or held by this thread, taken and given back without touching anything
  else, and never taken twice.
\<close>

locale object_lock =
  fixes ok free held :: "'s \<Rightarrow> 'p \<Rightarrow> bool"
    and take release :: "'p \<Rightarrow> 's \<Rightarrow> 's"
    and acquire drop :: "'p \<Rightarrow> ('s, unit) prog"
  assumes acquire_law: "ok s p \<Longrightarrow> free s p \<Longrightarrow> acquire p s = Inr ((), take p s)"
    and take_law: "ok s p \<Longrightarrow> free s p \<Longrightarrow> ok (take p s) p \<and> held (take p s) p"
    and drop_law: "ok s p \<Longrightarrow> held s p \<Longrightarrow> drop p s = Inr ((), release p s)"
    and release_take: "free s p \<Longrightarrow> release p (take p s) = s"
    and acquire_held: "ok s p \<Longrightarrow> held s p \<Longrightarrow> acquire p s = Inl SpinForever"
    and drop_free: "ok s p \<Longrightarrow> free s p \<Longrightarrow> drop p s = Inl DebugBreakHit"
begin

lemma acquire_drop: "ok s p \<Longrightarrow> free s p \<Longrightarrow> bind (acquire p) (\<lambda>_. drop p) s = Inr ((), s)"
  using take_law [of s p] by (simp add: bind_apply acquire_law drop_law release_take)

lemma acquire_twice:
  "ok s p \<Longrightarrow> free s p \<Longrightarrow> bind (acquire p) (\<lambda>_. acquire p) s = Inl SpinForever"
  using take_law [of s p] by (simp add: bind_apply acquire_law acquire_held)

lemma drop_twice:
  "ok s p \<Longrightarrow> free s p \<Longrightarrow>
   bind (acquire p) (\<lambda>_. bind (drop p) (\<lambda>_. drop p)) s = Inl DebugBreakHit"
  using take_law [of s p] by (simp add: bind_apply acquire_law drop_law release_take drop_free)

end

lemma lock_pte_held: "pte_ok s i \<Longrightarrow> pte_held s i \<Longrightarrow> lock_pte i s = Inl SpinForever"
  by (simp add: lock_pte_def prog_simps pte_held_def lock_def lock_spin_Cons)

lemma unlock_pte_free: "pte_ok s i \<Longrightarrow> pte_free s i \<Longrightarrow> unlock_pte i s = Inl DebugBreakHit"
  by (simp add: unlock_pte_def prog_simps pte_free_def unlock_def)

definition take_pfn :: "pfn_ptr \<Rightarrow> machine \<Rightarrow> machine" where
  "take_pfn p s = s\<lparr>pfns := on_cell p locked_pfn (pfns s)\<rparr>"

definition release_pfn :: "pfn_ptr \<Rightarrow> machine \<Rightarrow> machine" where
  "release_pfn p s = s\<lparr>pfns := on_cell p unlocked_pfn (pfns s)\<rparr>"

definition take_pte :: "nat \<Rightarrow> machine \<Rightarrow> machine" where
  "take_pte i s = s\<lparr>ptes := on_pte i (set_pte_lock 1) (ptes s)\<rparr>"

definition release_pte :: "nat \<Rightarrow> machine \<Rightarrow> machine" where
  "release_pte i s = s\<lparr>ptes := on_pte i (set_pte_lock 0) (ptes s)\<rparr>"

lemma unlock_after_lock:
  "lock_of (m p) = 0 \<Longrightarrow> on_cell p unlocked_pfn (on_cell p locked_pfn m) = m"
  by (auto simp: on_cells_def fun_eq_iff unlocked_self)

lemma unlock_after_lock_pte:
  "pte_lock (m i) = 0 \<Longrightarrow>
   on_pte i (set_pte_lock 0) (on_pte i (set_pte_lock 1) m) = m"
  by (auto simp: on_pte_def set_pte_lock_def fun_eq_iff)

interpretation pfn_locks:
  object_lock pfn_ok pfn_free pfn_held take_pfn release_pfn lock_pfn unlock_pfn
proof unfold_locales
  fix s p
  show "pfn_ok s p \<Longrightarrow> pfn_free s p \<Longrightarrow> pfn_ok (take_pfn p s) p \<and> pfn_held (take_pfn p s) p"
    by (simp add: take_pfn_def pfn_held_def on_cells_def)
  show "pfn_free s p \<Longrightarrow> release_pfn p (take_pfn p s) = s"
    by (simp add: release_pfn_def take_pfn_def pfn_free_def unlock_after_lock)
qed (simp_all add: take_pfn_def release_pfn_def lock_pfn_run unlock_pfn_run lock_pfn_held unlock_pfn_free)

interpretation pte_locks:
  object_lock pte_ok pte_free pte_held take_pte release_pte lock_pte unlock_pte
proof unfold_locales
  fix s i
  show "pte_ok s i \<Longrightarrow> pte_free s i \<Longrightarrow> pte_ok (take_pte i s) i \<and> pte_held (take_pte i s) i"
    by (simp add: take_pte_def pte_held_def on_pte_def set_pte_lock_def)
  show "pte_free s i \<Longrightarrow> release_pte i (take_pte i s) = s"
    unfolding release_pte_def take_pte_def pte_free_def by (simp add: unlock_after_lock_pte)
qed (simp_all add: take_pte_def release_pte_def lock_pte_run unlock_pte_run lock_pte_held unlock_pte_free)

end
