(* ===== verification/Utils.thy ===== *)
theory Utils
  imports Machine
begin

text \<open>
  utils/utils.c: mapping of pages through the operating system, the counter of available pages,
  timestamps, and the generator of simulated addresses.  The lemmas show that a generated address
  always lies in the application region and that the generator never degenerates.
\<close>

section \<open>Mapping\<close>

definition map_pages :: "os \<Rightarrow> nat \<Rightarrow> u64 \<Rightarrow> u64 list \<Rightarrow> unit mm" where
  "map_pages w num_pages va frame_numbers =
     bind (gets va_map) (\<lambda>m.
     case MapUserPhysicalPages w va num_pages (Some frame_numbers) m of
       None \<Rightarrow> raise (FatalError ''Could not map VA to page in MapUserPhysicalPages.'')
     | Some m' \<Rightarrow> modify (\<lambda>s. s\<lparr>va_map := m'\<rparr>))"

definition map_both_va_to_same_page :: "os \<Rightarrow> u64 \<Rightarrow> u64 \<Rightarrow> u64 \<Rightarrow> unit mm" where
  "map_both_va_to_same_page w va_one va_two frame_number =
     bind (gets va_map) (\<lambda>m.
     case MapUserPhysicalPagesScatter w [va_one, va_two] (Some [frame_number, frame_number]) m of
       None \<Rightarrow> raise (FatalError ''Could not map both VAs to same page.'')
     | Some m' \<Rightarrow> modify (\<lambda>s. s\<lparr>va_map := m'\<rparr>))"

definition unmap_pages :: "os \<Rightarrow> nat \<Rightarrow> u64 \<Rightarrow> unit mm" where
  "unmap_pages w num_pages va =
     bind (gets va_map) (\<lambda>m.
     case MapUserPhysicalPages w va num_pages None m of
       None \<Rightarrow> raise (FatalError ''Could not un-map old VA.'')
     | Some m' \<Rightarrow> modify (\<lambda>s. s\<lparr>va_map := m'\<rparr>))"

text \<open>\<open>map_single_page_from_pte\<close> of pte.c.\<close>

definition map_single_page_from_pte :: "os \<Rightarrow> nat \<Rightarrow> unit mm" where
  "map_single_page_from_pte w pte =
     bind (read_pte pte) (\<lambda>word.
     bind (gets (\<lambda>s. get_VA_from_PTE (vm s) pte)) (\<lambda>r.
     bind (lift_result r) (\<lambda>va. map_pages w 1 va [get_frame_number word])))"

text \<open>
  A whole page read and written through a mapped address (\<open>memcpy\<close> and \<open>memset\<close> of \<open>PAGE_SIZE\<close>
  bytes), and one word stored by a user thread.  \<open>store_word\<close> returns \<open>False\<close> for a page fault.
\<close>

definition page_base :: "u64 \<Rightarrow> u64" where
  "page_base va = va AND NOT (PAGE_SIZE - 1)"

definition read_page :: "u64 \<Rightarrow> page mm" where
  "read_page va = bind (gets (\<lambda>s. va_map s (page_base va))) (\<lambda>m. case m of
       None \<Rightarrow> raise AccessViolation
     | Some f \<Rightarrow> gets (\<lambda>s. ram s f))"

definition write_page :: "u64 \<Rightarrow> page \<Rightarrow> unit mm" where
  "write_page va content = bind (gets (\<lambda>s. va_map s (page_base va))) (\<lambda>m. case m of
       None \<Rightarrow> raise AccessViolation
     | Some f \<Rightarrow> modify (\<lambda>s. s\<lparr>ram := (ram s)(f := content)\<rparr>))"

definition store_word :: "u64 \<Rightarrow> u64 \<Rightarrow> bool mm" where
  "store_word va value = bind (gets (\<lambda>s. va_map s (page_base va))) (\<lambda>m. case m of
       None \<Rightarrow> return False
     | Some f \<Rightarrow> bind (modify (\<lambda>s. s\<lparr>ram := (ram s)(f := (ram s f)
           (unat ((va mod PAGE_SIZE) div BYTES_PER_VA) := value))\<rparr>)) (\<lambda>_. return True))"


section \<open>Counters and timestamps\<close>

definition change_volatile_data :: "u64 \<Rightarrow> u64 \<Rightarrow> u64" where
  "change_volatile_data delta x =
     (if delta = 1 then x + 1 else if delta = - 1 then x - 1 else x + delta)"

definition increment_available_count :: "unit mm" where
  "increment_available_count = on_stats (n_available_update (change_volatile_data 1))"

definition decrement_available_count :: "unit mm" where
  "decrement_available_count = on_stats (n_available_update (change_volatile_data (- 1)))"

definition increase_available_count :: "u64 \<Rightarrow> unit mm" where
  "increase_available_count amt = on_stats (n_available_update (change_volatile_data amt))"

definition decrease_available_count :: "u64 \<Rightarrow> unit mm" where
  "decrease_available_count amt = on_stats (n_available_update (change_volatile_data (- amt)))"

definition get_timestamp :: "os \<Rightarrow> u64 mm" where
  "get_timestamp w = bind (gets ticks) (\<lambda>t.
     bind (modify (\<lambda>s. s\<lparr>ticks := t + 1\<rparr>)) (\<lambda>_. return (QueryPerformanceCounter w t)))"

definition get_time_difference :: "u64 \<Rightarrow> u64 \<Rightarrow> rat mm" where
  "get_time_difference end_time start =
     gets (\<lambda>s. of_int (sint (end_time - start)) / of_int (sint (timer_frequency (stats s))))"

lemma change_volatile_data_add [simp]: "change_volatile_data d x = x + d"
  by (simp add: change_volatile_data_def)

lemma available_count_run [prog_simps]:
  "increment_available_count s = Inr ((), s\<lparr>stats := (stats s)\<lparr>n_available := n_available (stats s) + 1\<rparr>\<rparr>)"
  "decrement_available_count s = Inr ((), s\<lparr>stats := (stats s)\<lparr>n_available := n_available (stats s) - 1\<rparr>\<rparr>)"
  "increase_available_count a s = Inr ((), s\<lparr>stats := (stats s)\<lparr>n_available := n_available (stats s) + a\<rparr>\<rparr>)"
  "decrease_available_count a s = Inr ((), s\<lparr>stats := (stats s)\<lparr>n_available := n_available (stats s) - a\<rparr>\<rparr>)"
  by (simp_all add: increment_available_count_def decrement_available_count_def
      increase_available_count_def decrease_available_count_def prog_simps)

lemma get_timestamp_run [prog_simps]:
  "get_timestamp w s = Inr (QueryPerformanceCounter w (ticks s), s\<lparr>ticks := ticks s + 1\<rparr>)"
  by (simp add: get_timestamp_def prog_simps)


section \<open>Simulated addresses\<close>

definition xorshift64 :: "u64 \<Rightarrow> u64 \<times> u64" where
  "xorshift64 seed =
     (let x = seed XOR drop_bit 12 seed;
          x = x XOR push_bit 25 x;
          x = x XOR drop_bit 27 x
      in (x * 0x2545F4914F6CDD1D, x))"

text \<open>The address and the new seed; a region of size zero divides by zero.\<close>

definition get_arbitrary_va :: "vm_state \<Rightarrow> u64 \<Rightarrow> fault + u64 \<times> u64" where
  "get_arbitrary_va v seed =
     (let (random_value, seed') = xorshift64 seed
      in if va_size_in_pointers v = 0 then Inl (FatalError ''integer division by zero'')
         else let index = (random_value mod va_size_in_pointers v) AND NOT 7
              in Inr (application_va_base v + index * BYTES_PER_VA, seed'))"

definition PAGE_JUMP_PROBABILITY :: rat where "PAGE_JUMP_PROBABILITY = 1 / 8"

definition get_next_va :: "vm_state \<Rightarrow> u64 \<Rightarrow> u64 \<Rightarrow> fault + u64 \<times> u64" where
  "get_next_va v previous_va seed =
     (let new_va = previous_va + BYTES_PER_VA;
          new_va = (if application_va_base v + va_size_in_pointers v * BYTES_PER_VA \<le> new_va
                    then application_va_base v else new_va)
      in if new_va mod PAGE_SIZE \<noteq> 0 then Inr (new_va, seed)
         else let (r, seed') = xorshift64 seed;
                  p = of_nat (unat (drop_bit 11 r)) * (1 / 9007199254740992) :: rat
              in if p < PAGE_JUMP_PROBABILITY then get_arbitrary_va v seed'
                 else Inr (new_va, seed'))"

text \<open>The steps of the generator lose nothing: a shifted copy never cancels a word.\<close>

lemma xor_drop_inj: "0 < k \<Longrightarrow> x XOR drop_bit k x = y XOR drop_bit k y \<Longrightarrow> x = (y :: u64)"
proof -
  assume k: "0 < k" and eq: "x XOR drop_bit k x = y XOR drop_bit k y"
  define z where "z = x XOR y"
  have "bit z n \<longleftrightarrow> bit (drop_bit k z) n" for n
  proof -
    have "bit (x XOR drop_bit k x) n = bit (y XOR drop_bit k y) n" using eq by simp
    then show ?thesis by (auto simp: z_def bit_simps)
  qed
  then have "drop_bit k z = z" by (intro bit_word_eqI) simp
  then have *: "unat z div 2 ^ k = unat z" by (metis unat_drop_bit_eq drop_bit_eq_div)
  have "unat z = 0"
  proof (rule ccontr)
    assume "unat z \<noteq> 0"
    moreover have "(1 :: nat) < 2 ^ k" using k by (intro one_less_power) simp_all
    ultimately have "unat z div 2 ^ k < unat z" by (intro div_less_dividend) simp_all
    then show False using * by simp
  qed
  then have "z = 0" by (simp add: unat_eq_0)
  then have "\<not> bit (x XOR y) n" for n by (simp add: z_def)
  then show "x = y" by (intro bit_word_eqI) (simp add: bit_xor_iff)
qed

lemma xor_push_inj: "0 < k \<Longrightarrow> x XOR push_bit k x = y XOR push_bit k y \<Longrightarrow> x = (y :: u64)"
proof -
  assume k: "0 < k" and eq: "x XOR push_bit k x = y XOR push_bit k y"
  have "n < 64 \<Longrightarrow> bit x n = bit y n" for n
  proof (induction n rule: less_induct)
    case (less n)
    have "bit (x XOR push_bit k x) n = bit (y XOR push_bit k y) n" using eq by simp
    moreover have "k \<le> n \<Longrightarrow> bit x (n - k) = bit y (n - k)" using less k by simp
    ultimately show ?case using less.prems by (auto simp: bit_simps)
  qed
  then show "x = y" by (intro bit_word_eqI) simp
qed

lemma xorshift64_inj: "snd (xorshift64 a) = snd (xorshift64 b) \<Longrightarrow> a = b"
  unfolding xorshift64_def Let_def snd_conv
  by (drule xor_drop_inj [rotated], simp, drule xor_push_inj [rotated], simp,
      drule xor_drop_inj [rotated], simp_all)

lemma xorshift64_zero: "snd (xorshift64 0) = 0"
  by (simp add: xorshift64_def)


text \<open>Addresses of words of the application region.\<close>

definition word_address :: "vm_state \<Rightarrow> u64 \<Rightarrow> bool" where
  "word_address v va \<longleftrightarrow> (\<exists>k < unat (num_ptes v) * 512. unat va = unat (application_va_base v) + 8 * k)"

lemma pointers_unat:
  assumes "va_region_ok v"
  shows "unat (va_size_in_pointers v) = unat (num_ptes v) * 512"
    and "unat (application_va_base v) + unat (num_ptes v) * 512 * 8 < 2 ^ 64"
proof -
  have less: "unat (num_ptes v) * 512 < 2 ^ 64"
    and "unat (application_va_base v) + unat (num_ptes v) * 512 * 8 < 2 ^ 64"
    using assms by (simp_all add: va_region_ok_def)
  then show "unat (application_va_base v) + unat (num_ptes v) * 512 * 8 < 2 ^ 64" by simp
  have "va_size_in_pointers v = (of_nat (unat (num_ptes v) * 512) :: u64)"
    using assms by (simp add: va_region_ok_def)
  then show "unat (va_size_in_pointers v) = unat (num_ptes v) * 512"
    using less by (simp only: unat_of_nat mod_less len64)
qed

lemma word_address_at:
  assumes "va_region_ok v" and "unat index < unat (num_ptes v) * 512"
  shows "word_address v (application_va_base v + index * 8)"
proof -
  have "unat (application_va_base v) + unat index * 8 < 2 ^ 64"
    using pointers_unat(2) [OF assms(1)] assms(2) by simp
  moreover have "application_va_base v + index * 8 =
      (of_nat (unat (application_va_base v) + unat index * 8) :: u64)" by simp
  ultimately have "unat (application_va_base v + index * 8) =
      unat (application_va_base v) + unat index * 8" by (simp only: unat_of_nat mod_less len64)
  then show ?thesis using assms(2) by (auto simp: word_address_def)
qed

lemma word_address_region:
  "word_address v va \<Longrightarrow> in_va_region v va"
  by (auto simp: word_address_def in_va_region_def word_le_nat_alt)

lemma get_arbitrary_va_word:
  assumes "va_region_ok v" and "0 < unat (num_ptes v)"
  shows "\<exists>va. get_arbitrary_va v seed = Inr (va, snd (xorshift64 seed)) \<and> word_address v va"
proof -
  let ?r = "fst (xorshift64 seed)" and ?n = "va_size_in_pointers v"
  have n: "0 < unat ?n" using pointers_unat(1) [OF assms(1)] assms(2) by simp
  have "unat (?r mod ?n) < unat ?n" using n by (simp add: unat_mod)
  moreover have "(?r mod ?n) AND NOT 7 \<le> ?r mod ?n" by (rule word_and_le2)
  ultimately have "unat ((?r mod ?n) AND NOT 7) < unat (num_ptes v) * 512"
    using pointers_unat(1) [OF assms(1)] by (simp only: word_le_nat_alt)
  then have "word_address v (application_va_base v + ((?r mod ?n) AND NOT 7) * 8)"
    by (rule word_address_at [OF assms(1)])
  moreover have "?n \<noteq> 0" using n by auto
  ultimately show ?thesis by (auto simp: get_arbitrary_va_def split: prod.split)
qed

lemma get_next_va_word:
  assumes "va_region_ok v" and "0 < unat (num_ptes v)" and "word_address v va"
  shows "\<exists>va' seed'. get_next_va v va seed = Inr (va', seed') \<and> word_address v va' \<and>
           (seed' = seed \<or> seed' = snd (xorshift64 seed) \<or>
            seed' = snd (xorshift64 (snd (xorshift64 seed))))"
proof -
  let ?top = "application_va_base v + va_size_in_pointers v * BYTES_PER_VA"
  let ?new = "if ?top \<le> va + BYTES_PER_VA then application_va_base v else va + BYTES_PER_VA"
  obtain k where k: "k < unat (num_ptes v) * 512" "unat va = unat (application_va_base v) + 8 * k"
    using assms(3) by (auto simp: word_address_def)
  note bound = pointers_unat [OF assms(1)]
  have "va + 8 = (of_nat (unat va + 8) :: u64)" by simp
  moreover have "unat va + 8 < 2 ^ 64" using k bound(2) by simp
  ultimately have "unat (va + 8) = unat va + 8" by (simp only: unat_of_nat mod_less len64)
  then have va: "unat (va + 8) = unat (application_va_base v) + 8 * (k + 1)" using k(2) by simp
  have "?top = (of_nat (unat (application_va_base v) + unat (va_size_in_pointers v) * 8) :: u64)"
    by simp
  then have e: "unat ?top = unat (application_va_base v) + unat (num_ptes v) * 512 * 8"
    using bound by (simp only: unat_of_nat mod_less len64)
  have zero: "word_address v (application_va_base v)"
    using assms(2) by (auto simp: word_address_def)
  have new: "word_address v ?new"
  proof (cases "?top \<le> va + 8")
    case False
    then have "k + 1 < unat (num_ptes v) * 512" using va e by (simp add: word_le_nat_alt)
    then show ?thesis using False va by (auto simp: word_address_def)
  qed (use zero in simp)
  obtain va' where arb: "get_arbitrary_va v (snd (xorshift64 seed)) =
      Inr (va', snd (xorshift64 (snd (xorshift64 seed))))" "word_address v va'"
    using get_arbitrary_va_word [OF assms(1,2)] by blast
  show ?thesis
    using new arb unfolding get_next_va_def Let_def by (auto split: prod.split)
qed

text \<open>
  C22: the generator yields addresses of words.  Whatever the random seed, \<open>get_arbitrary_va\<close> and, from the
  address of a word, \<open>get_next_va\<close> return the address of a word that lies in the region, also across its
  top, and a seed that is not zero stays so: the generator never gets stuck.
\<close>

theorem generated_addresses_are_words:
  assumes "va_region_ok v" and "0 < unat (num_ptes v)" and "word_address v va" and "seed \<noteq> 0"
  shows "\<exists>x s y t. get_arbitrary_va v seed = Inr (x, s) \<and> word_address v x \<and> s \<noteq> 0 \<and>
     get_next_va v va seed = Inr (y, t) \<and> word_address v y \<and> t \<noteq> 0"
proof -
  have nonzero: "snd (xorshift64 a) \<noteq> 0" if "a \<noteq> 0" for a
    using that xorshift64_inj [of a 0] xorshift64_zero by auto
  then show ?thesis
    using get_arbitrary_va_word [OF assms(1,2), of seed] get_next_va_word [OF assms(1-3), of seed] assms(4) by metis
qed

lemma generated_addresses_are_words_witness:
  "\<exists>y t. get_next_va small_va_region 65536 1 = Inr (y, t) \<and> word_address small_va_region y \<and> t \<noteq> 0"
proof -
  have "word_address small_va_region 65536" by (auto simp: word_address_def small_va_region_def)
  then show ?thesis
    using generated_addresses_are_words [OF small_va_region_ok, of 65536 1] by (auto simp: small_va_region_def)
qed

end
