(* ===== verification/Links.thy ===== *)
theory Links
  imports Machine
begin

text \<open>
  Circular doubly linked lists of page frame descriptors, as a heap of \<open>flink\<close> and \<open>blink\<close> members.
  \<open>dll m h xs\<close>: in the descriptors \<open>m\<close>, the list with head \<open>h\<close> holds the pages \<open>xs\<close>, first to last.
  The lemmas give the effect of the four ways page_list.c rewrites links: unlink one page, append
  one page, cut a batch off the front, append a whole list.
\<close>

section \<open>Chains\<close>

type_synonym descriptors = "pfn_ptr \<Rightarrow> pfn"

fun linked :: "descriptors \<Rightarrow> pfn_ptr list \<Rightarrow> bool" where
  "linked m (a # b # xs) \<longleftrightarrow> flink (m a) = b \<and> blink (m b) = a \<and> linked m (b # xs)"
| "linked m _ \<longleftrightarrow> True"

definition dll :: "descriptors \<Rightarrow> pfn_ptr \<Rightarrow> pfn_ptr list \<Rightarrow> bool" where
  "dll m h xs \<longleftrightarrow> distinct (h # xs) \<and> linked m (h # xs @ [h])"

abbreviation set_flink :: "pfn_ptr \<Rightarrow> pfn_ptr \<Rightarrow> descriptors \<Rightarrow> descriptors" where
  "set_flink p q \<equiv> on_cell p (flink_update (\<lambda>_. q))"

abbreviation set_blink :: "pfn_ptr \<Rightarrow> pfn_ptr \<Rightarrow> descriptors \<Rightarrow> descriptors" where
  "set_blink p q \<equiv> on_cell p (blink_update (\<lambda>_. q))"

lemma linked_append:
  "xs \<noteq> [] \<Longrightarrow> ys \<noteq> [] \<Longrightarrow>
   linked m (xs @ ys) \<longleftrightarrow> linked m xs \<and> linked m ys \<and>
     flink (m (last xs)) = hd ys \<and> blink (m (hd ys)) = last xs"
proof (induction xs)
  case (Cons a xs)
  then show ?case by (cases xs; cases ys) auto
qed simp

lemma last_not_in_butlast: "distinct xs \<Longrightarrow> xs \<noteq> [] \<Longrightarrow> last xs \<notin> set (butlast xs)"
  by (metis append_butlast_last_id distinct_append distinct_singleton disjoint_iff list.set_intros(1))

lemma linked_set_flink [simp]:
  "q \<notin> set (butlast xs) \<Longrightarrow> linked (on_cell q (flink_update g) m) xs = linked m xs"
  by (induction m xs rule: linked.induct) (auto simp: on_cells_def split: if_splits)

lemma linked_set_blink [simp]:
  "q \<notin> set (tl xs) \<Longrightarrow> linked (on_cell q (blink_update g) m) xs = linked m xs"
proof (induction m xs rule: linked.induct)
  case (1 m a b xs)
  then have "linked (on_cell q (blink_update g) m) (b # xs) = linked m (b # xs)" by (cases xs) auto
  then show ?case using 1 by (auto simp: on_cells_def)
qed auto

definition keeps_links :: "(pfn \<Rightarrow> pfn) \<Rightarrow> bool" where
  "keeps_links g \<longleftrightarrow> (\<forall>q. flink (g q) = flink q \<and> blink (g q) = blink q)"

lemma keeps_links_updates [simp]:
  "keeps_links (set_semaphore v)" "keeps_links (SET_PFN_STATUS st)" "keeps_links (set_PFN_active i)"
  "keeps_links set_PFN_free" "keeps_links (set_pfn_standby d)" "keeps_links set_pfn_mid_write"
  "keeps_links set_pfn_mid_trim"
  by (simp_all add: keeps_links_def)

lemma linked_keeps [simp]: "keeps_links g \<Longrightarrow> linked (on_cells X g m) xs = linked m xs"
  by (induction m xs rule: linked.induct) (auto simp: on_cells_def keeps_links_def)

lemma dll_keeps [simp]: "keeps_links g \<Longrightarrow> dll (on_cells X g m) h xs = dll m h xs"
  by (simp add: dll_def)

lemma linked_cong:
  "(\<And>p. p \<in> set xs \<Longrightarrow> flink (m' p) = flink (m p) \<and> blink (m' p) = blink (m p)) \<Longrightarrow>
   linked m' xs = linked m xs"
  by (induction m xs rule: linked.induct) auto

lemma dll_cong:
  "(\<And>p. p \<in> set (h # xs) \<Longrightarrow> flink (m' p) = flink (m p) \<and> blink (m' p) = blink (m p)) \<Longrightarrow>
   dll m' h xs = dll m h xs"
  unfolding dll_def by (subst linked_cong [of "h # xs @ [h]" m' m]) auto

lemma dll_other [simp]:
  "X \<inter> set (h # xs) = {} \<Longrightarrow> dll (on_cells X g m) h xs = dll m h xs"
  by (rule dll_cong) (auto simp: on_cells_def)


section \<open>Reading the links of a list\<close>

lemma dll_Nil: "dll m h [] \<longleftrightarrow> flink (m h) = h \<and> blink (m h) = h"
  by (simp add: dll_def)

lemma dll_split:
  "dll m h (as @ bs) \<longleftrightarrow> distinct (h # as @ bs) \<and> linked m (h # as) \<and> linked m (bs @ [h]) \<and>
     flink (m (last (h # as))) = hd (bs @ [h]) \<and> blink (m (hd (bs @ [h]))) = last (h # as)"
  using linked_append [of "h # as" "bs @ [h]" m] by (auto simp: dll_def)

lemma dll_ends:
  assumes "dll m h xs"
  shows "flink (m h) = hd (xs @ [h])" and "blink (m h) = last (h # xs)"
  using assms dll_split [of m h "[]" xs] dll_split [of m h xs "[]"] by simp_all

lemma dll_at:
  assumes "dll m h (as @ p # bs)"
  shows "flink (m p) = hd (bs @ [h])" and "blink (m p) = last (h # as)"
  using assms dll_split [of m h "as @ [p]" bs] dll_split [of m h as "p # bs"] by simp_all

lemma dll_empty: "dll m h xs \<Longrightarrow> flink (m h) = h \<longleftrightarrow> xs = []"
  using dll_ends(1) [of m h xs] by (cases xs) (auto simp: dll_def)

lemma dll_distinct: "dll m h xs \<Longrightarrow> distinct xs \<and> h \<notin> set xs"
  by (simp add: dll_def)

text \<open>Walking forward from the first page of a list visits its pages in order.\<close>

lemma dll_next:
  "dll m h xs \<Longrightarrow> k < length xs \<Longrightarrow> flink (m (xs ! k)) = (xs @ [h]) ! Suc k"
proof -
  assume *: "dll m h xs" "k < length xs"
  have "xs = take k xs @ xs ! k # drop (Suc k) xs" using *(2) by (rule id_take_nth_drop)
  then have "flink (m (xs ! k)) = hd (drop (Suc k) xs @ [h])"
    using dll_at(1) [of m h "take k xs" "xs ! k" "drop (Suc k) xs"] *(1) by simp
  also have "\<dots> = hd (drop (Suc k) (xs @ [h]))" using *(2) by simp
  also have "\<dots> = (xs @ [h]) ! Suc k" using *(2) by (intro hd_drop_conv_nth) simp
  finally show ?thesis .
qed


section \<open>Unlinking a page\<close>

definition unlink :: "pfn_ptr \<Rightarrow> descriptors \<Rightarrow> descriptors" where
  "unlink p m = set_blink (flink (m p)) (blink (m p)) (set_flink (blink (m p)) (flink (m p)) m)"

lemma dll_unlink:
  assumes "dll m h (as @ p # bs)"
  shows "dll (unlink p m) h (as @ bs)"
proof -
  let ?f = "hd (bs @ [h])" and ?b = "last (h # as)"
  have d: "distinct (h # as @ p # bs)" using assms by (simp add: dll_def)
  have un: "unlink p m = set_blink ?f ?b (set_flink ?b ?f m)"
    using dll_at [OF assms] by (simp add: unlink_def)
  have 1: "linked m (h # as)" using assms unfolding dll_split [of m h as "p # bs"] by simp
  have 2: "linked m (bs @ [h])"
    using assms dll_split [of m h "as @ [p]" bs] by simp
  have b: "?b \<notin> set (butlast (h # as))" "?b \<notin> set bs"
    using d last_not_in_butlast [of "h # as"] last_in_set [of as]
    by (auto simp: disjoint_iff)
  have f: "?f \<notin> set as" "?f \<notin> set (tl (bs @ [h]))"
    using d by (cases bs; auto)+
  have "linked (unlink p m) (h # as)" unfolding un using 1 b f by simp
  moreover have "linked (unlink p m) (bs @ [h])" unfolding un using 2 b f by simp
  moreover have "flink (unlink p m ?b) = ?f" "blink (unlink p m ?f) = ?b"
    unfolding un by (auto simp: on_cells_def)
  ultimately show ?thesis unfolding dll_split using d by simp
qed

lemma unlink_other:
  assumes "dll m h (as @ p # bs)" and "q \<notin> set (h # as @ bs)"
  shows "unlink p m q = m q"
proof -
  have "hd (bs @ [h]) \<noteq> q" "last (h # as) \<noteq> q"
    using assms(2) by (auto simp: hd_append split: if_splits dest: hd_in_set last_in_set)
  then show ?thesis using dll_at [OF assms(1)] by (simp add: unlink_def on_cells_def)
qed

text \<open>In particular the unlinked page keeps its own links.\<close>

lemma unlink_self: "dll m h (as @ p # bs) \<Longrightarrow> unlink p m p = m p"
  by (rule unlink_other) (auto simp: dll_def)


section \<open>Appending a page\<close>

definition append_page :: "pfn_ptr \<Rightarrow> pfn_ptr \<Rightarrow> descriptors \<Rightarrow> descriptors" where
  "append_page h p m =
     set_blink h p (set_flink (blink (m h)) p (set_blink p (blink (m h)) (set_flink p h m)))"

lemma dll_append:
  assumes "dll m h xs" and "p \<notin> set (h # xs)"
  shows "dll (append_page h p m) h (xs @ [p])"
proof -
  let ?b = "last (h # xs)" and ?m = "append_page h p m"
  have d: "distinct (h # xs)" using assms(1) by (simp add: dll_def)
  have m: "?m = set_blink h p (set_flink ?b p (set_blink p ?b (set_flink p h m)))"
    using dll_ends(2) [OF assms(1)] by (simp add: append_page_def)
  have b: "?b \<notin> set (butlast (h # xs))" using last_not_in_butlast [OF d] by simp
  have p: "p \<notin> set (butlast (h # xs))" using assms(2) by (auto dest: in_set_butlastD)
  have "linked m (h # xs)" using assms(1) dll_split [of m h xs "[]"] by simp
  then have "linked ?m (h # xs)" unfolding m using b p assms(2) d by simp
  moreover have "linked ?m [p, h]" "flink (?m ?b) = p" "blink (?m p) = ?b"
    unfolding m using assms(2) last_in_set [of "h # xs"] by (auto simp: on_cells_def split: if_splits)
  ultimately show ?thesis
    using linked_append [of "h # xs" "[p, h]" ?m] d assms(2) by (auto simp: dll_def)
qed

text \<open>Appending to one list leaves a disjoint one alone.\<close>

lemma append_page_other:
  assumes "dll m h xs" and "q \<notin> set (p # h # xs)"
  shows "append_page h p m q = m q"
proof -
  have "last (h # xs) \<noteq> q" using assms(2) last_in_set [of "h # xs"] by auto
  then show ?thesis
    using assms dll_ends(2) [OF assms(1)] by (simp add: append_page_def on_cells_def)
qed


section \<open>Cutting a batch off the front\<close>

definition cut_front :: "pfn_ptr \<Rightarrow> pfn_ptr \<Rightarrow> descriptors \<Rightarrow> descriptors" where
  "cut_front h next m = set_blink next h (set_flink h next m)"

lemma dll_cut_front:
  assumes "dll m h (xs @ ys)"
  shows "dll (cut_front h (hd (ys @ [h])) m) h ys"
proof -
  let ?n = "hd (ys @ [h])"
  have d: "distinct (h # xs @ ys)" using assms by (simp add: dll_def)
  have "linked m (ys @ [h])" using assms dll_split [of m h xs ys] by simp
  moreover have "h \<notin> set (butlast (ys @ [h]))" "?n \<notin> set (tl (ys @ [h]))"
    using d by (cases ys; auto)+
  ultimately have "linked (cut_front h ?n m) (ys @ [h])" by (simp add: cut_front_def)
  moreover have "flink (cut_front h ?n m h) = ?n" "blink (cut_front h ?n m ?n) = h"
    by (auto simp: cut_front_def on_cells_def)
  ultimately show ?thesis
    using linked_append [of "[h]" "ys @ [h]" "cut_front h ?n m"] d by (simp add: dll_def)
qed

text \<open>The pages cut off keep their links: walking them still works, and ends at \<open>next\<close>.\<close>

lemma cut_front_links:
  "p \<notin> {h, next} \<Longrightarrow> cut_front h next m p = m p"
  by (simp add: cut_front_def on_cells_def)

lemma cut_front_other:
  assumes "q \<notin> set (h # ys)"
  shows "cut_front h (hd (ys @ [h])) m q = m q"
  using assms by (intro cut_front_links) (auto simp: hd_append split: if_splits dest: hd_in_set)


section \<open>Appending a list\<close>

text \<open>
  \<open>a\<close> to \<open>b\<close> is the whole content of the list with head \<open>g\<close>; the links of \<open>g\<close> itself are
  left as they are, so it still reaches the pages.
\<close>

definition append_list :: "pfn_ptr \<Rightarrow> pfn_ptr \<Rightarrow> pfn_ptr \<Rightarrow> descriptors \<Rightarrow> descriptors" where
  "append_list h a b m =
     set_blink h b (set_flink b h (set_blink a (blink (m h)) (set_flink (blink (m h)) a m)))"

lemma dll_append_list:
  assumes "dll m h xs" and "dll m g ys" and "ys \<noteq> []" and "set (h # xs) \<inter> set (g # ys) = {}"
  shows "dll (append_list h (hd ys) (last ys) m) h (xs @ ys)"
proof -
  let ?t = "last (h # xs)" and ?f = "hd ys" and ?l = "last ys"
  let ?m = "append_list h ?f ?l m"
  have d: "distinct (h # xs)" "distinct ys" using assms(1,2) by (simp_all add: dll_def)
  have m: "?m = set_blink h ?l (set_flink ?l h (set_blink ?f ?t (set_flink ?t ?f m)))"
    using dll_ends(2) [OF assms(1)] by (simp add: append_list_def)
  have t: "?t \<in> set (h # xs)" by (rule last_in_set) simp
  have f: "?f \<in> set ys" "?l \<in> set ys" using assms(3) by simp_all
  have tl: "?f \<notin> set (tl ys)" using d(2) assms(3) by (cases ys) auto
  have bl: "?t \<notin> set (butlast (h # xs))" "?l \<notin> set (butlast ys)"
    using last_not_in_butlast d assms(3) by auto
  have sub: "set (butlast (h # xs)) \<subseteq> set (h # xs)" "set (butlast ys) \<subseteq> set ys"
      "set (tl (h # xs)) \<subseteq> set (h # xs)" "set (tl ys) \<subseteq> set ys"
    by (cases ys; auto dest: in_set_butlastD)+
  have disj: "\<And>x. x \<in> set (h # xs) \<Longrightarrow> x \<notin> set ys" using assms(4) by auto
  have "linked m (h # xs)" using assms(1) dll_split [of m h xs "[]"] by simp
  moreover have "?l \<notin> set (butlast (h # xs))" "?f \<notin> set (tl (h # xs))"
    using f disj sub by blast+
  moreover have "h \<notin> set (tl (h # xs))" using d by simp
  ultimately have 1: "linked ?m (h # xs)" unfolding m using bl by simp
  have "linked m ys" using assms(2,3) dll_split [of m g ys "[]"] by (cases ys) auto
  moreover have "?t \<notin> set (butlast ys)" "h \<notin> set (tl ys)" using t disj sub by auto
  ultimately have 2: "linked ?m ys" unfolding m using bl tl by simp
  have "?f \<noteq> h" "?l \<noteq> h" "?t \<noteq> ?f" "?t \<noteq> ?l" using f t disj by auto
  then have 3: "flink (?m ?t) = ?f" "blink (?m ?f) = ?t" "flink (?m ?l) = h" "blink (?m h) = ?l"
    unfolding m by (auto simp: on_cells_def)
  have "linked ?m (ys @ [h])" using linked_append [of ys "[h]" ?m] assms(3) 2 3 by simp
  then have "linked ?m (h # xs @ ys @ [h])"
    using linked_append [of "h # xs" "ys @ [h]" ?m] 1 3 assms(3) by (simp add: hd_append)
  then show ?thesis using d assms(4) by (auto simp: dll_def)
qed

lemma append_list_other:
  assumes "dll m h xs" and "q \<notin> set (a # b # h # xs)"
  shows "append_list h a b m q = m q"
proof -
  have "last (h # xs) \<noteq> q" using assms(2) last_in_set [of "h # xs"] by auto
  then show ?thesis
    using assms dll_ends(2) [OF assms(1)] by (simp add: append_list_def on_cells_def)
qed

text \<open>The updates leave every other member of a descriptor alone.\<close>

definition same_data :: "descriptors \<Rightarrow> descriptors \<Rightarrow> bool" where
  "same_data m m' \<longleftrightarrow> (\<forall>p. PTE (m' p) = PTE (m p) \<and> raw_pfn_data (m' p) = raw_pfn_data (m p))"

lemma same_data_links [simp]:
  "same_data m (unlink p m)" "same_data m (append_page h p m)" "same_data m (cut_front h q m)"
  "same_data m (append_list h a b m)"
  by (simp_all add: same_data_def unlink_def append_page_def cut_front_def append_list_def on_cells_def)

lemma same_dataD:
  assumes "same_data m m'"
  shows "status_of (m' p) = status_of (m p)" "slot_of (m' p) = slot_of (m p)"
    "lock_of (m' p) = lock_of (m p)" "PTE (m' p) = PTE (m p)"
  using assms by (simp_all add: same_data_def pfn_observers)

text \<open>Taking or releasing locks commutes with all of them.\<close>

lemma semaphore_links:
  "flink_update f (set_semaphore v q) = set_semaphore v (flink_update f q)"
  "blink_update f (set_semaphore v q) = set_semaphore v (blink_update f q)"
  by (simp_all add: set_semaphore_def)

lemma set_link_semaphore:
  "set_flink p q (on_cells X (set_semaphore v) m) = on_cells X (set_semaphore v) (set_flink p q m)"
  "set_blink p q (on_cells X (set_semaphore v) m) = on_cells X (set_semaphore v) (set_blink p q m)"
  by (auto simp: on_cells_def fun_eq_iff semaphore_links)

lemma links_semaphore [simp]:
  "flink (on_cells X (set_semaphore v) m p) = flink (m p)"
  "blink (on_cells X (set_semaphore v) m p) = blink (m p)"
  by (simp_all add: on_cells_def)

lemma rewrites_semaphore:
  "unlink p (on_cells X (set_semaphore v) m) = on_cells X (set_semaphore v) (unlink p m)"
  "append_page h p (on_cells X (set_semaphore v) m) = on_cells X (set_semaphore v) (append_page h p m)"
  "cut_front h q (on_cells X (set_semaphore v) m) = on_cells X (set_semaphore v) (cut_front h q m)"
  "append_list h a b (on_cells X (set_semaphore v) m) = on_cells X (set_semaphore v) (append_list h a b m)"
  by (simp_all add: unlink_def append_page_def cut_front_def append_list_def set_link_semaphore)

lemma unlock_locked [simp]:
  "(\<And>p. p \<in> X \<Longrightarrow> lock_of (m p) = 0) \<Longrightarrow> on_cells X unlocked_pfn (on_cells X locked_pfn m) = m"
  by (auto simp: on_cells_def fun_eq_iff unlocked_self)

lemma semaphore_swap:
  "p \<noteq> q \<Longrightarrow> on_cell p unlocked_pfn (on_cell q locked_pfn m) = on_cell q locked_pfn (on_cell p unlocked_pfn m)"
  by (rule on_cells_disjoint) simp

end
