(* ===== verification/Page_List.thy ===== *)
theory Page_List
  imports Utils Links
begin

text \<open>
  data_structures/page_list.c: the zero, modified, standby and free lists.  A list is a head, a
  counter of its pages and a reader/writer lock; the pages hang off the head in a circular doubly
  linked list.  Pages are added and removed under the shared lock of the list and the byte locks of
  the head and of the neighbours, or under the exclusive lock.

  The operations follow the code statement by statement.  Loops that retry until they have taken
  their locks run on fuel, one more than the number of contentions still to come (\<open>patience\<close>): every
  round that fails uses one up.  The lemmas named \<open>_run\<close> give the whole effect of an operation on a
  well-formed list whose locks are free, for every sequence of contentions.
\<close>

section \<open>Locks of lists\<close>

definition lock_list_shared :: "list_id \<Rightarrow> unit mm" where
  "lock_list_shared l = bind (gets (\<lambda>s. held_exclusive (lists s l))) (\<lambda>x.
     if x then raise SpinForever else on_list l (\<lambda>r. r\<lparr>shared_holders := shared_holders r + 1\<rparr>))"

definition try_lock_list_shared :: "list_id \<Rightarrow> bool mm" where
  "try_lock_list_shared l = bind contended (\<lambda>busy.
     bind (gets (\<lambda>s. held_exclusive (lists s l))) (\<lambda>x.
     if busy \<or> x then return False
     else bind (on_list l (\<lambda>r. r\<lparr>shared_holders := shared_holders r + 1\<rparr>)) (\<lambda>_. return True)))"

definition unlock_list_shared :: "list_id \<Rightarrow> unit mm" where
  "unlock_list_shared l = bind (gets (\<lambda>s. shared_holders (lists s l))) (\<lambda>n.
     if n = 0 then raise (FatalError ''SRW lock not held'')
     else on_list l (\<lambda>r. r\<lparr>shared_holders := shared_holders r - 1\<rparr>))"

definition lock_list_exclusive :: "list_id \<Rightarrow> unit mm" where
  "lock_list_exclusive l = bind (gets (\<lambda>s. lists s l)) (\<lambda>r.
     if held_exclusive r \<or> shared_holders r \<noteq> 0 then raise SpinForever
     else on_list l (held_exclusive_update (\<lambda>_. True)))"

definition try_lock_list_exclusive :: "list_id \<Rightarrow> bool mm" where
  "try_lock_list_exclusive l = bind contended (\<lambda>busy. bind (gets (\<lambda>s. lists s l)) (\<lambda>r.
     if busy \<or> held_exclusive r \<or> shared_holders r \<noteq> 0 then return False
     else bind (on_list l (held_exclusive_update (\<lambda>_. True))) (\<lambda>_. return True)))"

definition unlock_list_exclusive :: "list_id \<Rightarrow> unit mm" where
  "unlock_list_exclusive l = bind (gets (\<lambda>s. held_exclusive (lists s l))) (\<lambda>x.
     if x then on_list l (held_exclusive_update (\<lambda>_. False))
     else raise (FatalError ''SRW lock not held''))"

text \<open>
  The free lists have a bit each.  A bit this thread finds set is its own or, by contention, that of
  another thread.
\<close>

definition try_lock_free_list :: "u32 \<Rightarrow> bool mm" where
  "try_lock_free_list index = bind contended (\<lambda>busy.
     bind (gets (\<lambda>s. free_list_locks (free_lists s))) (\<lambda>locks.
     if busy then return False
     else bind (on_free_lists (\<lambda>r. r\<lparr>free_list_locks := locks OR push_bit (unat index) 1\<rparr>)) (\<lambda>_.
       return (\<not> bit locks (unat index)))))"

definition unlock_free_list :: "u32 \<Rightarrow> unit mm" where
  "unlock_free_list index =
     bind (gets (\<lambda>s. free_list_locks (free_lists s))) (\<lambda>locks.
     bind (on_free_lists (\<lambda>r. r\<lparr>free_list_locks := locks AND NOT (push_bit (unat index) 1)\<rparr>)) (\<lambda>_.
     assert_that (bit locks (unat index))))"


section \<open>Basic operations\<close>

definition initialize_list_head :: "pfn_ptr \<Rightarrow> unit mm" where
  "initialize_list_head h = block [write_blink h h, write_flink h h]"

text \<open>\<open>zero_malloc(sizeof(PFN))\<close>: a fresh zeroed descriptor.\<close>

definition zero_malloc_pfn :: "pfn_ptr mm" where
  "zero_malloc_pfn = bind (gets heads) (\<lambda>n.
     bind (modify (\<lambda>s. s\<lparr>heads := n + 1, pfns := (pfns s)(HeadPfn n := zero_pfn)\<rparr>)) (\<lambda>_.
     return (HeadPfn n)))"

definition initialize_page_list :: "list_id \<Rightarrow> unit mm" where
  "initialize_page_list l = bind zero_malloc_pfn (\<lambda>h. block
     [on_list l (head_update (\<lambda>_. h)),
      initialize_list_head h,
      on_list l (list_size_update (\<lambda>_. 0)),
      on_list l (\<lambda>r. r\<lparr>shared_holders := 0, held_exclusive := False\<rparr>)])"

definition is_page_list_empty :: "list_id \<Rightarrow> bool mm" where
  "is_page_list_empty l = bind (list_head l) (\<lambda>h. bind (read_flink h) (\<lambda>f. return (f = h)))"

definition get_size :: "list_id \<Rightarrow> u64 mm" where
  "get_size l = gets (\<lambda>s. list_size (lists s l))"

definition change_list_size :: "list_id \<Rightarrow> u64 \<Rightarrow> unit mm" where
  "change_list_size l amt = on_list l (list_size_update (\<lambda>n. n + amt))"

definition increment_list_size :: "list_id \<Rightarrow> unit mm" where
  "increment_list_size l = on_list l (list_size_update (\<lambda>n. n + 1))"

definition decrement_list_size :: "list_id \<Rightarrow> unit mm" where
  "decrement_list_size l = on_list l (list_size_update (\<lambda>n. n - 1))"

definition increment_free_lists_total_count :: "unit mm" where
  "increment_free_lists_total_count = on_free_lists (page_count_update (\<lambda>n. n + 1))"

definition decrement_free_lists_total_count :: "unit mm" where
  "decrement_free_lists_total_count = on_free_lists (page_count_update (\<lambda>n. n - 1))"

definition increase_free_lists_total_count :: "u64 \<Rightarrow> unit mm" where
  "increase_free_lists_total_count amt = on_free_lists (page_count_update (\<lambda>n. n + amt))"

definition decrease_free_lists_total_count :: "u64 \<Rightarrow> unit mm" where
  "decrease_free_lists_total_count amt = on_free_lists (page_count_update (\<lambda>n. n + - amt))"

definition set_free_list_bit :: "u32 \<Rightarrow> unit mm" where
  "set_free_list_bit index =
     on_free_lists (low_list_bitmap_update (\<lambda>b. b OR push_bit (unat index) 1))"

definition remove_page_from_list :: "pfn_ptr \<Rightarrow> bool mm" where
  "remove_page_from_list page =
     bind (read_flink page) (\<lambda>flink. bind (read_blink page) (\<lambda>blink.
     block_return
       [write_flink blink flink,
        write_blink flink blink]
       (flink = blink)))"

definition remove_from_head_of_list :: "list_id \<Rightarrow> pfn_ptr mm" where
  "remove_from_head_of_list l =
     bind (list_head l) (\<lambda>h.
     bind (read_flink h) (\<lambda>page. bind (read_flink page) (\<lambda>flink.
     block_return
       [write_flink h flink,
        write_blink flink h]
       page)))"

definition insert_to_list_tail :: "list_id \<Rightarrow> pfn_ptr \<Rightarrow> unit mm" where
  "insert_to_list_tail l page =
     bind (list_head l) (\<lambda>h. bind (read_blink h) (\<lambda>blink.
     block
       [write_flink page h,
        write_blink page blink,
        write_flink blink page,
        write_blink h page]))"

text \<open>The expected consumption is cut to an integer towards zero.\<close>

definition to_integer :: "rat \<Rightarrow> int" where
  "to_integer x = (if 0 \<le> x then \<lfloor>x\<rfloor> else \<lceil>x\<rceil>)"

definition check_if_list_is_about_to_run_low :: "list_id \<Rightarrow> nat \<Rightarrow> int \<Rightarrow> bool mm" where
  "check_if_list_is_about_to_run_low l worker low_page_threshold =
     gets (\<lambda>s.
       let time_to_perform_event = worker_runtimes (stats s) worker;
           consumption_rate = page_consumption_per_second (stats s);
           pages_consumed_during_event = to_integer (consumption_rate * time_to_perform_event);
           current_list_size = sint (list_size (lists s l))
       in current_list_size - pages_consumed_during_event < low_page_threshold)"

definition signal_event_if_list_is_about_to_run_low ::
    "list_id \<Rightarrow> event \<Rightarrow> nat \<Rightarrow> int \<Rightarrow> unit mm" where
  "signal_event_if_list_is_about_to_run_low l event_to_set worker low_page_threshold =
     bind (check_if_list_is_about_to_run_low l worker low_page_threshold) (\<lambda>low.
     run_if low (SetEvent event_to_set))"


section \<open>Free lists and caches\<close>

text \<open>\<open>a % b\<close> on unsigned 32-bit integers; a zero divisor faults.\<close>

definition checked_mod :: "u32 \<Rightarrow> u32 \<Rightarrow> u32 mm" where
  "checked_mod a b =
     (if b = 0 then raise (FatalError ''integer division by zero'') else return (a mod b))"

definition write_cache :: "nat \<Rightarrow> nat \<Rightarrow> pfn_ptr \<Rightarrow> unit mm" where
  "write_cache t i page = bind (check_access (i < unat FREE_PAGE_CACHE_SIZE)) (\<lambda>_.
     on_user t (\<lambda>u. u\<lparr>free_page_cache := (free_page_cache u)(i := page)\<rparr>))"

text \<open>The scan for a free list whose lock can be had.\<close>

primrec find_free_list :: "nat \<Rightarrow> u32 \<Rightarrow> u32 \<Rightarrow> u32 mm" where
  "find_free_list 0 count index = raise SpinForever"
| "find_free_list (Suc fuel) count index =
     bind (try_lock_free_list index) (\<lambda>ok.
     if ok then return index
     else bind (checked_mod (index + 1) count) (\<lambda>index'. find_free_list fuel count index'))"

definition add_page_to_cache_or_free_list :: "pfn_ptr \<Rightarrow> u32 \<Rightarrow> nat \<Rightarrow> unit mm" where
  "add_page_to_cache_or_free_list page first_index t =
     bind (gets (\<lambda>s. free_page_count (users s t))) (\<lambda>cache_count.
     if cache_count < FREE_PAGE_CACHE_SIZE then
       block [write_cache t (unat cache_count) page,
              on_user t (free_page_count_update (\<lambda>_. cache_count + 1))]
     else
       bind (gets (\<lambda>s. number_of_lists (free_lists s))) (\<lambda>count.
       bind (checked_mod first_index count) (\<lambda>index.
       bind (gets (\<lambda>s. Suc (patience s))) (\<lambda>fuel.
       bind (find_free_list fuel count index) (\<lambda>index.
       block [insert_to_list_tail (free_list (unat index)) page,
              unlock_free_list index,
              increment_free_lists_total_count])))))"

text \<open>
  Batch removal.  \<open>take_pages\<close> is the loop of the exclusive version: it locks and counts pages until
  the capacity is used up or the head comes round.  Both versions return the number of pages and the
  first one; \<open>NullPfn\<close> stands for an output argument that is not written.
\<close>

primrec take_pages :: "nat \<Rightarrow> pfn_ptr \<Rightarrow> pfn_ptr \<Rightarrow> u64 \<Rightarrow> (pfn_ptr \<times> u64) mm" where
  "take_pages 0 h pfn num_pages_batched = return (pfn, num_pages_batched)"
| "take_pages (Suc n) h pfn num_pages_batched =
     (if pfn = h then return (pfn, num_pages_batched)
      else bind (lock_pfn pfn) (\<lambda>_. bind (read_flink pfn) (\<lambda>pfn'.
        take_pages n h pfn' (num_pages_batched + 1))))"

definition remove_batch_from_list_head_exclusive :: "list_id \<Rightarrow> u64 \<Rightarrow> (u64 \<times> pfn_ptr) mm" where
  "remove_batch_from_list_head_exclusive l capacity =
     bind (list_head l) (\<lambda>h.
     bind (read_flink h) (\<lambda>batch_first.
     if batch_first = h then return (0, NullPfn)
     else bind (take_pages (unat capacity) h batch_first 0) (\<lambda>(pfn, num_pages_batched).
       if num_pages_batched = 0 then return (0, NullPfn)
       else block_return
         [write_flink h pfn,
          write_blink pfn h,
          change_list_size l (- num_pages_batched)]
         (num_pages_batched, batch_first))))"

text \<open>The pages of a batch move into the cache one by one, unlocked on the way.\<close>

primrec fill_cache :: "nat \<Rightarrow> nat \<Rightarrow> nat \<Rightarrow> pfn_ptr \<Rightarrow> unit mm" where
  "fill_cache 0 t i pfn = return ()"
| "fill_cache (Suc n) t i pfn =
     bind (write_cache t i pfn) (\<lambda>_.
     bind (unlock_pfn pfn) (\<lambda>_.
     bind (read_flink pfn) (\<lambda>pfn'. fill_cache n t (i + 1) pfn')))"

definition try_refill_cache_from_free_list :: "u32 \<Rightarrow> nat \<Rightarrow> bool mm" where
  "try_refill_cache_from_free_list list_index t =
     bind (gets (\<lambda>s. list_index < number_of_lists (free_lists s))) (\<lambda>ok.
     bind (assert_that ok) (\<lambda>_.
     let l = free_list (unat list_index) in
     bind (is_page_list_empty l) (\<lambda>empty.
     if empty then return False
     else bind (try_lock_free_list list_index) (\<lambda>locked.
     if \<not> locked then return False
     else bind (is_page_list_empty l) (\<lambda>empty.
     if empty then bind (unlock_free_list list_index) (\<lambda>_. return False)
     else
     bind (remove_batch_from_list_head_exclusive l (ucast FREE_PAGE_CACHE_SIZE)) (\<lambda>(num, first_page).
     let batch_size = ucast num :: u16 in
     bind (unlock_free_list list_index) (\<lambda>_.
     if batch_size = 0 then return False
     else block_return
       [fill_cache (unat batch_size) t 0 first_page,
        on_user t (free_page_count_update (\<lambda>_. batch_size)),
        decrease_free_lists_total_count (ucast batch_size),
        decrease_available_count (ucast batch_size)]
       True)))))))"

primrec try_free_lists :: "nat \<Rightarrow> u32 \<Rightarrow> u32 \<Rightarrow> nat \<Rightarrow> bool mm" where
  "try_free_lists 0 count index t = return False"
| "try_free_lists (Suc n) count index t =
     bind (try_refill_cache_from_free_list index t) (\<lambda>ok.
     if ok then return True
     else bind (checked_mod (index + 1) count) (\<lambda>index'. try_free_lists n count index' t))"

definition try_get_free_pages :: "nat \<Rightarrow> bool mm" where
  "try_get_free_pages t =
     bind (gets (\<lambda>s. page_count (free_lists s))) (\<lambda>n.
     if n = 0 then return False
     else bind (gets (\<lambda>s. number_of_lists (free_lists s))) (\<lambda>count.
       bind (gets (\<lambda>s. thread_id (users s t))) (\<lambda>id.
       bind (checked_mod id count) (\<lambda>index. try_free_lists (unat count) count index t))))"


section \<open>Removal on a soft fault\<close>

text \<open>What follows the removal of a page, on either path.\<close>

definition after_soft_removal :: "list_id \<Rightarrow> unit mm" where
  "after_soft_removal l = bind (decrement_list_size l) (\<lambda>_.
     if l = standby_list then
       bind decrement_available_count (\<lambda>_.
       bind (is_page_list_empty standby_list) (\<lambda>empty.
       run_if empty (ResetEvent standby_pages_ready_event)))
     else return ())"

text \<open>
  The attempts under the shared lock.  \<open>flink\<close> and \<open>blink\<close> were read before any lock was taken.  The
  result tells whether the page was removed.
\<close>

primrec soft_fault_attempts ::
    "nat \<Rightarrow> list_id \<Rightarrow> pfn_ptr \<Rightarrow> pfn_ptr \<Rightarrow> pfn_ptr \<Rightarrow> u32 \<Rightarrow> bool mm" where
  "soft_fault_attempts 0 l pfn fl bl wait_time = return False"
| "soft_fault_attempts (Suc n) l pfn fl bl wait_time =
     (let wait_time = next_wait_time wait_time;
          retry = bind (wait wait_time) (\<lambda>_. soft_fault_attempts n l pfn fl bl wait_time)
      in bind (try_lock_list_shared l) (\<lambda>ok.
      if \<not> ok then retry
      else bind (try_lock_pfn fl) (\<lambda>ok.
      if \<not> ok then bind (unlock_list_shared l) (\<lambda>_. retry)
      else bind (if fl = bl
                 then bind (list_head l) (\<lambda>h. bind (assert_that (fl = h)) (\<lambda>_. return True))
                 else try_lock_pfn bl) (\<lambda>ok.
      if \<not> ok then bind (unlock_list_shared l) (\<lambda>_. bind (unlock_pfn fl) (\<lambda>_. retry))
      else bind (remove_page_from_list pfn) (\<lambda>_.
        block_return
          [unlock_list_shared l,
           unlock_pfn bl,
           run_if (fl \<noteq> bl) (unlock_pfn fl),
           after_soft_removal l]
          True)))))"

definition remove_page_on_soft_fault :: "list_id \<Rightarrow> pfn_ptr \<Rightarrow> unit mm" where
  "remove_page_on_soft_fault l pfn =
     bind (read_flink pfn) (\<lambda>flink. bind (read_blink pfn) (\<lambda>blink.
     bind (soft_fault_attempts MAX_SOFT_ACCESS_ATTEMPTS l pfn flink blink 1) (\<lambda>done.
     if done then return ()
     else block
       [lock_list_exclusive l,
        bind (remove_page_from_list pfn) (\<lambda>_. return ()),
        unlock_list_exclusive l,
        after_soft_removal l])))"


section \<open>Insertion and removal under shared locks\<close>

primrec insert_page_attempts :: "nat \<Rightarrow> list_id \<Rightarrow> pfn_ptr \<Rightarrow> pfn_ptr \<Rightarrow> unit mm" where
  "insert_page_attempts 0 l h pfn = raise SpinForever"
| "insert_page_attempts (Suc fuel) l h pfn =
     bind (lock_list_shared l) (\<lambda>_.
     bind (try_lock_pfn h) (\<lambda>ok.
     if \<not> ok then bind (unlock_list_shared l) (\<lambda>_. insert_page_attempts fuel l h pfn)
     else bind (read_blink h) (\<lambda>blink.
     if blink = h then
       block [insert_to_list_tail l pfn, unlock_list_shared l, unlock_pfn h, increment_list_size l]
     else bind (try_lock_pfn blink) (\<lambda>ok.
     if \<not> ok then block [unlock_list_shared l, unlock_pfn h, insert_page_attempts fuel l h pfn]
     else block [insert_to_list_tail l pfn, unlock_list_shared l, unlock_pfn blink, unlock_pfn h,
                 increment_list_size l]))))"

definition insert_page_to_tail :: "list_id \<Rightarrow> pfn_ptr \<Rightarrow> unit mm" where
  "insert_page_to_tail l pfn =
     bind (list_head l) (\<lambda>h. bind (gets (\<lambda>s. Suc (patience s))) (\<lambda>fuel.
     insert_page_attempts fuel l h pfn))"

definition try_pop_from_list :: "list_id \<Rightarrow> pfn_ptr mm" where
  "try_pop_from_list l =
     bind (try_lock_list_shared l) (\<lambda>ok.
     if \<not> ok then return NullPfn
     else bind (list_head l) (\<lambda>h.
     bind (try_lock_pfn h) (\<lambda>ok.
     if \<not> ok then block_return [unlock_list_shared l] NullPfn
     else bind (read_flink h) (\<lambda>page.
     if h = page then block_return [unlock_list_shared l, unlock_pfn h] NullPfn
     else bind (try_lock_pfn page) (\<lambda>ok.
     if \<not> ok then block_return [unlock_list_shared l, unlock_pfn h] NullPfn
     else bind (read_flink page) (\<lambda>flink.
     if flink = h then
       bind (remove_page_from_list page) (\<lambda>_.
       block_return [unlock_list_shared l, unlock_pfn h, decrement_list_size l] page)
     else bind (try_lock_pfn flink) (\<lambda>ok.
     if \<not> ok then block_return [unlock_list_shared l, unlock_pfn h, unlock_pfn page] NullPfn
     else bind (remove_page_from_list page) (\<lambda>_.
       block_return [unlock_list_shared l, unlock_pfn flink, unlock_pfn h, decrement_list_size l]
         page))))))))"

text \<open>
  The start of \<open>remove_batch_from_list_head\<close>: how the attempts to lock the head and the first two
  pages end.
\<close>

datatype batch_start =
    ListEmpty
  | OnePage pfn_ptr
  | TwoLocked pfn_ptr pfn_ptr
  | NotLocked

primrec start_batch :: "nat \<Rightarrow> list_id \<Rightarrow> pfn_ptr \<Rightarrow> u32 \<Rightarrow> batch_start mm" where
  "start_batch 0 l h wait_time = return NotLocked"
| "start_batch (Suc n) l h wait_time =
     (let wait_time = next_wait_time wait_time;
          retry = bind (wait wait_time) (\<lambda>_. start_batch n l h wait_time)
      in bind (try_lock_list_shared l) (\<lambda>ok.
      if \<not> ok then retry
      else bind (try_lock_pfn h) (\<lambda>ok.
      if \<not> ok then bind (unlock_list_shared l) (\<lambda>_. retry)
      else bind (read_flink h) (\<lambda>first_page.
      if first_page = h then block_return [unlock_list_shared l, unlock_pfn h] ListEmpty
      else bind (try_lock_pfn first_page) (\<lambda>ok.
      if \<not> ok then bind (unlock_list_shared l) (\<lambda>_. bind (unlock_pfn h) (\<lambda>_. retry))
      else bind (read_flink first_page) (\<lambda>next_page.
      if next_page = h then
        block_return [write_flink h h, write_blink h h, unlock_list_shared l, unlock_pfn h,
                      change_list_size l (- 1)] (OnePage first_page)
      else bind (try_lock_pfn next_page) (\<lambda>ok.
      if \<not> ok then bind (unlock_list_shared l) (\<lambda>_. bind (unlock_pfn h) (\<lambda>_.
                      bind (unlock_pfn first_page) (\<lambda>_. retry)))
      else return (TwoLocked first_page next_page))))))))"

primrec extend_batch ::
    "nat \<Rightarrow> pfn_ptr \<Rightarrow> u64 \<Rightarrow> pfn_ptr \<Rightarrow> pfn_ptr \<Rightarrow> (u64 \<times> pfn_ptr \<times> bool) mm" where
  "extend_batch 0 h num_pages_batched next_page look_ahead =
     return (num_pages_batched, next_page, False)"
| "extend_batch (Suc n) h num_pages_batched next_page look_ahead =
     (if look_ahead = h then return (num_pages_batched + 1, h, True)
      else bind (try_lock_pfn look_ahead) (\<lambda>ok.
        if \<not> ok then return (num_pages_batched, next_page, False)
        else bind (read_flink look_ahead) (\<lambda>look_ahead'.
          extend_batch n h (num_pages_batched + 1) look_ahead look_ahead')))"

definition remove_batch_from_list_head :: "list_id \<Rightarrow> u64 \<Rightarrow> (u64 \<times> pfn_ptr) mm" where
  "remove_batch_from_list_head l capacity =
     bind (list_head l) (\<lambda>h.
     bind (read_flink h) (\<lambda>first_page. bind (read_flink first_page) (\<lambda>_.
     bind (start_batch MAX_HARD_ACCESS_ATTEMPTS l h 1) (\<lambda>start.
     case start of
       ListEmpty \<Rightarrow> return (0, NullPfn)
     | OnePage first_page \<Rightarrow> return (1, first_page)
     | NotLocked \<Rightarrow> remove_batch_from_list_head_exclusive l capacity
     | TwoLocked first_page next_page \<Rightarrow>
         bind (read_flink next_page) (\<lambda>look_ahead.
         bind (extend_batch (unat capacity - 1) h 1 next_page look_ahead)
           (\<lambda>(num_pages_batched, next_page, wrapped_around).
         block_return
           [write_flink h next_page,
            write_blink next_page h,
            unlock_list_shared l,
            unlock_pfn h,
            run_if (\<not> wrapped_around) (unlock_pfn next_page),
            change_list_size l (- num_pages_batched)]
           (num_pages_batched, first_page)))))))"

text \<open>The locks of \<open>insert_list_to_tail_list\<close>: the head and the tail it ends up with.\<close>

primrec lock_list_ends :: "nat \<Rightarrow> list_id \<Rightarrow> u64 \<Rightarrow> (pfn_ptr \<times> pfn_ptr) mm" where
  "lock_list_ends 0 l wait_time = raise SpinForever"
| "lock_list_ends (Suc fuel) l wait_time =
     bind (lock_list_shared l) (\<lambda>_.
     bind (list_head l) (\<lambda>h.
     bind (try_lock_pfn h) (\<lambda>ok.
     if \<not> ok then bind (unlock_list_shared l) (\<lambda>_. bind (wait (ucast wait_time)) (\<lambda>_.
                     lock_list_ends fuel l (max (push_bit 1 wait_time) (ucast MAX_WAIT_TIME_BEFORE_RETRY))))
     else bind (read_blink h) (\<lambda>tail.
     if tail = h then return (h, tail)
     else bind (try_lock_pfn tail) (\<lambda>ok.
     if \<not> ok then bind (unlock_list_shared l) (\<lambda>_. bind (unlock_pfn h) (\<lambda>_.
                     bind (wait (ucast wait_time)) (\<lambda>_.
                     lock_list_ends fuel l (max (push_bit 1 wait_time) wait_time))))
     else return (h, tail))))))"

definition insert_list_to_tail_list :: "list_id \<Rightarrow> list_id \<Rightarrow> unit mm" where
  "insert_list_to_tail_list destination_list origin_list =
     bind (list_head origin_list) (\<lambda>g.
     bind (read_flink g) (\<lambda>first. bind (read_blink g) (\<lambda>last.
     bind (gets (\<lambda>s. Suc (patience s))) (\<lambda>fuel.
     bind (lock_list_ends fuel destination_list 1) (\<lambda>(h, tail).
     block
       [write_flink tail first,
        write_blink first tail,
        write_flink last h,
        write_blink h last,
        unlock_list_shared destination_list,
        unlock_pfn h,
        run_if (h \<noteq> tail) (unlock_pfn tail)])))))"

end
