(* ===== verification/List_Effects.thy ===== *)
theory List_Effects
  imports Page_List
begin

text \<open>
  What the operations of data_structures/page_list.c do to a well-formed list whose locks are free,
  for every sequence of contentions: the lemmas named \<open>_run\<close>.  \<open>wf_list s l xs\<close> says that list \<open>l\<close>
  holds the pages \<open>xs\<close>, first to last.  In every result only the member \<open>spin\<close> depends on the
  contentions, and, where the code gives up after a number of attempts, whether it succeeded.
\<close>

section \<open>Well-formed lists\<close>

definition share :: "list_id \<Rightarrow> (list_id \<Rightarrow> page_list) \<Rightarrow> list_id \<Rightarrow> page_list" where
  "share l m = m(l := (m l)\<lparr>shared_holders := shared_holders (m l) + 1\<rparr>)"

definition unshare :: "list_id \<Rightarrow> (list_id \<Rightarrow> page_list) \<Rightarrow> list_id \<Rightarrow> page_list" where
  "unshare l m = m(l := (m l)\<lparr>shared_holders := shared_holders (m l) - 1\<rparr>)"

definition resize :: "list_id \<Rightarrow> u64 \<Rightarrow> (list_id \<Rightarrow> page_list) \<Rightarrow> list_id \<Rightarrow> page_list" where
  "resize l d m = m(l := list_size_update (\<lambda>n. n + d) (m l))"

lemma share_fields [simp]:
  "head (share l m k) = head (m k)" "list_size (share l m k) = list_size (m k)"
  "held_exclusive (share l m k) = held_exclusive (m k)"
  "shared_holders (share l m l) = Suc (shared_holders (m l))"
  "unshare l (share l m) = m"
  by (auto simp: share_def unshare_def fun_eq_iff)

lemma resize_fields [simp]:
  "head (resize l d m k) = head (m k)" "held_exclusive (resize l d m k) = held_exclusive (m k)"
  "shared_holders (resize l d m k) = shared_holders (m k)"
  "list_size (resize l d m k) = (if k = l then list_size (m k) + d else list_size (m k))"
  by (auto simp: resize_def)

definition list_free :: "machine \<Rightarrow> list_id \<Rightarrow> bool" where
  "list_free s l \<longleftrightarrow> \<not> held_exclusive (lists s l) \<and> shared_holders (lists s l) = 0"

definition wf_list :: "machine \<Rightarrow> list_id \<Rightarrow> pfn_ptr list \<Rightarrow> bool" where
  "wf_list s l xs \<longleftrightarrow> dll (pfns s) (head (lists s l)) xs \<and>
     (\<forall>p \<in> set (head (lists s l) # xs). pfn_ok s p)"

definition unlocked_pfns :: "machine \<Rightarrow> pfn_ptr set \<Rightarrow> bool" where
  "unlocked_pfns s X \<longleftrightarrow> (\<forall>p \<in> X. pfn_free s p)"

lemma list_preds_spin [simp]:
  "list_free (s\<lparr>spin := n\<rparr>) l = list_free s l" "wf_list (s\<lparr>spin := n\<rparr>) l xs = wf_list s l xs"
  "unlocked_pfns (s\<lparr>spin := n\<rparr>) X = unlocked_pfns s X" "pfn_free (s\<lparr>spin := n\<rparr>) p = pfn_free s p"
  "pfn_held (s\<lparr>spin := n\<rparr>) p = pfn_held s p"
  by (simp_all add: list_free_def wf_list_def unlocked_pfns_def pfn_free_def pfn_held_def)

lemma pfn_locks_lists [simp]:
  "pfn_free (s\<lparr>lists := a\<rparr>) p = pfn_free s p" "pfn_held (s\<lparr>lists := a\<rparr>) p = pfn_held s p"
  by (simp_all add: pfn_free_def pfn_held_def)

lemma pfn_held_locked [simp]:
  "p \<in> X \<Longrightarrow> pfn_held (s\<lparr>pfns := on_cells X locked_pfn m\<rparr>) p"
  "p \<notin> X \<Longrightarrow> pfn_free (s\<lparr>pfns := on_cells X (set_semaphore v) m\<rparr>) p = pfn_free (s\<lparr>pfns := m\<rparr>) p"
  "p \<notin> X \<Longrightarrow> pfn_held (s\<lparr>pfns := on_cells X (set_semaphore v) m\<rparr>) p = pfn_held (s\<lparr>pfns := m\<rparr>) p"
  by (auto simp: pfn_held_def pfn_free_def on_cells_def)

lemma pfns_same [simp]: "s\<lparr>pfns := pfns s\<rparr> = s" "s\<lparr>lists := lists s\<rparr> = s" "s\<lparr>spin := spin s\<rparr> = s"
  by simp_all

lemma list_lock_run [prog_simps]:
  "\<not> held_exclusive (lists s l) \<Longrightarrow> lock_list_shared l s = Inr ((), s\<lparr>lists := share l (lists s)\<rparr>)"
  "0 < shared_holders (lists s l) \<Longrightarrow> unlock_list_shared l s = Inr ((), s\<lparr>lists := unshare l (lists s)\<rparr>)"
  "\<not> held_exclusive (lists s l) \<Longrightarrow> try_lock_list_shared l s =
     (if next_busy (spin s) then Inr (False, s\<lparr>spin := after_try (spin s)\<rparr>)
      else Inr (True, s\<lparr>lists := share l (lists s), spin := after_try (spin s)\<rparr>))"
  by (simp_all add: lock_list_shared_def unlock_list_shared_def try_lock_list_shared_def prog_simps
      share_def unshare_def)

lemma list_size_run [prog_simps]:
  "change_list_size l d s = Inr ((), s\<lparr>lists := resize l d (lists s)\<rparr>)"
  "increment_list_size l s = Inr ((), s\<lparr>lists := resize l 1 (lists s)\<rparr>)"
  "decrement_list_size l s = Inr ((), s\<lparr>lists := resize l (- 1) (lists s)\<rparr>)"
  by (simp_all add: change_list_size_def increment_list_size_def decrement_list_size_def prog_simps
      resize_def fun_upd_def)

lemma wf_list_head: "wf_list s l xs \<Longrightarrow> pfn_ok s (head (lists s l))"
  and wf_list_page: "wf_list s l xs \<Longrightarrow> p \<in> set xs \<Longrightarrow> pfn_ok s p"
  and wf_list_dll: "wf_list s l xs \<Longrightarrow> dll (pfns s) (head (lists s l)) xs"
  by (simp_all add: wf_list_def)

lemma wf_list_ends:
  assumes "wf_list s l xs"
  shows "pfn_ok s (hd (xs @ [head (lists s l)]))" and "pfn_ok s (last (head (lists s l) # xs))"
  using assms by (auto simp: wf_list_def hd_append)

lemma is_page_list_empty_run [prog_simps]:
  "wf_list s l xs \<Longrightarrow> is_page_list_empty l s = Inr (xs = [], s)"
  using wf_list_head [of s l xs] wf_list_dll [of s l xs]
  by (simp add: is_page_list_empty_def prog_simps dll_empty)

lemma insert_to_list_tail_run [prog_simps]:
  assumes "pfn_ok s (head (lists s l))" and "pfn_ok s (blink (pfns s (head (lists s l))))" and "pfn_ok s p"
  shows "insert_to_list_tail l p s =
     Inr ((), s\<lparr>pfns := append_page (head (lists s l)) p (pfns s)\<rparr>)"
  using assms by (simp add: insert_to_list_tail_def prog_simps append_page_def)

lemma remove_page_from_list_run [prog_simps]:
  assumes "pfn_ok s p" and "pfn_ok s (flink (pfns s p))" and "pfn_ok s (blink (pfns s p))"
  shows "remove_page_from_list p s =
     Inr (flink (pfns s p) = blink (pfns s p), s\<lparr>pfns := unlink p (pfns s)\<rparr>)"
  using assms by (simp add: remove_page_from_list_def prog_simps unlink_def)

lemma wf_list_at:
  assumes "wf_list s l (as @ p # bs)"
  shows "flink (pfns s p) = hd (bs @ [head (lists s l)])" "blink (pfns s p) = last (head (lists s l) # as)"
    "pfn_ok s (flink (pfns s p))" "pfn_ok s (blink (pfns s p))" "pfn_ok s p"
  using assms dll_at [OF wf_list_dll [OF assms]] by (auto simp: wf_list_def hd_append)

lemma rewrites_fields [simp]:
  "lock_of (unlink p m q) = lock_of (m q)" "lock_of (append_page h p m q) = lock_of (m q)"
  "lock_of (cut_front h p m q) = lock_of (m q)" "lock_of (append_list h a b m q) = lock_of (m q)"
  "status_of (unlink p m q) = status_of (m q)" "status_of (append_page h p m q) = status_of (m q)"
  "status_of (cut_front h p m q) = status_of (m q)" "status_of (append_list h a b m q) = status_of (m q)"
  "slot_of (unlink p m q) = slot_of (m q)" "slot_of (append_page h p m q) = slot_of (m q)"
  "slot_of (cut_front h p m q) = slot_of (m q)" "slot_of (append_list h a b m q) = slot_of (m q)"
  "PTE (unlink p m q) = PTE (m q)" "PTE (append_page h p m q) = PTE (m q)"
  "PTE (cut_front h p m q) = PTE (m q)" "PTE (append_list h a b m q) = PTE (m q)"
  by (rule same_dataD; simp)+

lemma semaphore_cells [simp]:
  "lock_of (on_cells X (set_semaphore v) m q) = (if q \<in> X then ucast v else lock_of (m q))"
  "status_of (on_cells X (set_semaphore v) m q) = status_of (m q)"
  "slot_of (on_cells X (set_semaphore v) m q) = slot_of (m q)"
  "PTE (on_cells X (set_semaphore v) m q) = PTE (m q)"
  by (simp_all add: on_cells_def)

lemma link_cells [simp]:
  "lock_of (on_cells X (flink_update f) m q) = lock_of (m q)"
  "lock_of (on_cells X (blink_update f) m q) = lock_of (m q)"
  by (simp_all add: on_cells_def lock_of_def)

lemma dll_last_head: "dll m h xs \<Longrightarrow> last (h # xs) = h \<longleftrightarrow> xs = []"
  using last_in_set [of xs] by (auto simp: dll_def)

lemmas lock_eval = prog_simps try_lock_pfn_run unlock_pfn_run lock_pfn_run rewrites_semaphore
  semaphore_swap unlock_after_lock

lemma insert_page_attempts_run:
  assumes "wf_list s l xs" and "list_free s l" and "pfn_ok s p" and "p \<notin> set (head (lists s l) # xs)"
    and "unlocked_pfns s (set (head (lists s l) # xs))" and "patience s < fuel"
  shows "\<exists>n. insert_page_attempts fuel l (head (lists s l)) p s =
     Inr ((), s\<lparr>pfns := append_page (head (lists s l)) p (pfns s), lists := resize l 1 (lists s), spin := n\<rparr>)"
  using assms
proof (induction fuel arbitrary: s)
  case (Suc fuel)
  let ?h = "head (lists s l)" and ?t = "last (head (lists s l) # xs)"
  have x: "\<not> held_exclusive (lists s l)" using Suc.prems(2) by (simp add: list_free_def)
  have h: "pfn_ok s ?h" "pfn_free s ?h" using Suc.prems wf_list_head by (auto simp: unlocked_pfns_def)
  have t: "pfn_ok s ?t" "pfn_free s ?t" using Suc.prems wf_list_ends by (auto simp: unlocked_pfns_def)
  have blink: "blink (pfns s ?h) = ?t" using dll_ends(2) wf_list_dll Suc.prems(1) by blast
  have te: "?t = ?h \<longleftrightarrow> xs = []" using dll_last_head wf_list_dll Suc.prems(1) by blast
  have retry: "\<exists>n. insert_page_attempts fuel l ?h p (s\<lparr>spin := m\<rparr>) =
     Inr ((), s\<lparr>pfns := append_page ?h p (pfns s), lists := resize l 1 (lists s), spin := n\<rparr>)"
    if "length (contention m) < patience s" for m
    using Suc.IH [of "s\<lparr>spin := m\<rparr>"] Suc.prems that by (simp add: patience_def)
  show ?case
  proof (cases "next_busy (spin s)")
    case True
    then show ?thesis
      using retry [of "after_try (spin s)"] x h busy_patience [OF True]
      by (simp add: prog_simps try_lock_pfn_run patience_def)
  next
    case False
    show ?thesis
    proof (cases "xs = []")
      case True
      then show ?thesis using False x h t Suc.prems(3) te blink
        by (intro exI [of _ "after_try (spin s)"]) (simp add: lock_eval pfn_free_def)
    next
      case xs: False
      let ?n = "after_try (spin s)"
      show ?thesis
      proof (cases "next_busy ?n")
        case True
        then have "length (contention (after_try ?n)) < patience s"
          using busy_patience [of ?n] by (simp add: patience_def)
        from retry [OF this] obtain n where "insert_page_attempts fuel l ?h p (s\<lparr>spin := after_try ?n\<rparr>) =
            Inr ((), s\<lparr>pfns := append_page ?h p (pfns s), lists := resize l 1 (lists s), spin := n\<rparr>)" ..
        then show ?thesis
          using True False x h t te xs blink
          by (intro exI [of _ n]) (simp add: lock_eval pfn_free_def)
      next
        case ok: False
        then show ?thesis
          using False x h t te xs blink Suc.prems(3)
          by (intro exI [of _ "after_try ?n"]) (simp add: lock_eval pfn_free_def)
      qed
    qed
  qed
qed simp

lemma unlocked_pfnsD: "unlocked_pfns s X \<Longrightarrow> p \<in> X \<Longrightarrow> pfn_free s p"
  by (simp add: unlocked_pfns_def)

lemma insert_page_to_tail_run:
  assumes "wf_list s l xs" and "list_free s l" and "pfn_ok s p" and "p \<notin> set (head (lists s l) # xs)"
    and "unlocked_pfns s (set (head (lists s l) # xs))"
  shows "\<exists>n. insert_page_to_tail l p s =
     Inr ((), s\<lparr>pfns := append_page (head (lists s l)) p (pfns s), lists := resize l 1 (lists s), spin := n\<rparr>)"
  using insert_page_attempts_run [OF assms, of "Suc (patience s)"]
  by (simp add: insert_page_to_tail_def prog_simps)


section \<open>Removal on a soft fault\<close>

text \<open>The bookkeeping after the removal; \<open>xs\<close> is what the list holds now.\<close>

definition note_removal :: "list_id \<Rightarrow> pfn_ptr list \<Rightarrow> machine \<Rightarrow> machine" where
  "note_removal l xs s = s\<lparr>lists := resize l (- 1) (lists s),
     stats := (if l = standby_list then (stats s)\<lparr>n_available := n_available (stats s) - 1\<rparr> else stats s),
     events := (if l = standby_list \<and> xs = [] then (events s)(standby_pages_ready_event := False)
                else events s)\<rparr>"

lemma wf_list_resize [simp]: "wf_list (s\<lparr>lists := resize k d (lists s)\<rparr>) l xs = wf_list s l xs"
  and wf_list_stats [simp]: "wf_list (s\<lparr>stats := t\<rparr>) l xs = wf_list s l xs"
  by (simp_all add: wf_list_def)

lemma after_soft_removal_run [prog_simps]:
  "wf_list s l xs \<Longrightarrow> after_soft_removal l s = Inr ((), note_removal l xs s)"
  by (cases "xs = []")
    (auto simp: after_soft_removal_def note_removal_def prog_simps is_page_list_empty_run [where xs = xs])

lemma wf_list_unlink:
  assumes "wf_list s l (as @ p # bs)"
  shows "wf_list (s\<lparr>pfns := unlink p (pfns s)\<rparr>) l (as @ bs)"
  using assms dll_unlink [OF wf_list_dll [OF assms]] by (simp add: wf_list_def)

definition soft_removed :: "list_id \<Rightarrow> pfn_ptr \<Rightarrow> pfn_ptr list \<Rightarrow> machine \<Rightarrow> machine" where
  "soft_removed l p xs s = note_removal l xs (s\<lparr>pfns := unlink p (pfns s)\<rparr>)"

lemma soft_removed_spin [simp]:
  "(soft_removed l p xs (s\<lparr>spin := k\<rparr>))\<lparr>spin := n\<rparr> = (soft_removed l p xs s)\<lparr>spin := n\<rparr>"
  by (simp add: soft_removed_def note_removal_def)

lemma soft_fault_attempts_run:
  assumes wf: "wf_list s l (as @ p # bs)" and free: "list_free s l"
    and locks: "unlocked_pfns s (set (head (lists s l) # as @ bs))"
    and f: "f = flink (pfns s p)" and b: "b = blink (pfns s p)"
  shows "\<exists>m. soft_fault_attempts n l p f b w s = Inr (False, s\<lparr>spin := m\<rparr>) \<or>
     soft_fault_attempts n l p f b w s = Inr (True, (soft_removed l p (as @ bs) s)\<lparr>spin := m\<rparr>)"
  using assms
proof (induction n arbitrary: s w)
  case 0
  then show ?case by (auto simp: prog_simps intro: exI [of _ "spin s"])
next
  case (Suc n)
  let ?h = "head (lists s l)" and ?w = "next_wait_time w" and ?n1 = "after_try (spin s)"
  let ?n2 = "after_try ?n1" let ?n3 = "after_try ?n2"
  have x: "\<not> held_exclusive (lists s l)" using Suc.prems(2) by (simp add: list_free_def)
  note at = wf_list_at [OF Suc.prems(1)]
  have fv: "f = hd (bs @ [?h])" and bv: "b = last (?h # as)" using at Suc.prems by simp_all
  have ok: "pfn_ok s p" "pfn_ok s f" "pfn_ok s b" using at Suc.prems by simp_all
  have "f \<in> set (?h # as @ bs)" "b \<in> set (?h # as @ bs)"
    unfolding fv bv by (auto simp: hd_append)
  then have fr: "pfn_free s f" "pfn_free s b" using Suc.prems(3) unlocked_pfnsD by blast+
  have d: "distinct (?h # as @ p # bs)" using dll_distinct [OF wf_list_dll [OF Suc.prems(1)]] by simp
  have same: "f = ?h" if "f = b"
  proof (rule ccontr)
    assume "f \<noteq> ?h"
    then have "f \<in> set bs" using fv by (cases bs) auto
    moreover have "b \<in> set (?h # as)" unfolding bv by (rule last_in_set) simp
    ultimately show False using d that by auto
  qed
  have retry: "\<exists>m. soft_fault_attempts n l p f b v (s\<lparr>spin := k\<rparr>) = Inr (False, s\<lparr>spin := m\<rparr>) \<or>
     soft_fault_attempts n l p f b v (s\<lparr>spin := k\<rparr>) =
       Inr (True, (soft_removed l p (as @ bs) s)\<lparr>spin := m\<rparr>)" for v k
    using Suc.IH [of "s\<lparr>spin := k\<rparr>" v] Suc.prems by simp
  note un = wf_list_unlink [OF Suc.prems(1)]
  have fin: "after_soft_removal l (s\<lparr>spin := k, pfns := unlink p (pfns s)\<rparr>) =
      Inr ((), (soft_removed l p (as @ bs) s)\<lparr>spin := k\<rparr>)" for k
    using un by (subst after_soft_removal_run [of _ l "as @ bs"])
      (simp_all add: wf_list_def soft_removed_def note_removal_def)
  let ?run = "soft_fault_attempts (Suc n) l p f b w s"
  consider (list) "next_busy (spin s)" | (flink) "\<not> next_busy (spin s)" "next_busy ?n1"
    | (one) "\<not> next_busy (spin s)" "\<not> next_busy ?n1" "f = b"
    | (blink) "\<not> next_busy (spin s)" "\<not> next_busy ?n1" "f \<noteq> b" "next_busy ?n2"
    | (two) "\<not> next_busy (spin s)" "\<not> next_busy ?n1" "f \<noteq> b" "\<not> next_busy ?n2"
    by blast
  then show ?case
  proof cases
    case list
    then have "?run = soft_fault_attempts n l p f b ?w (s\<lparr>spin := after_wait ?w ?n1\<rparr>)"
      using x by (simp add: lock_eval Let_def)
    then show ?thesis using retry by simp
  next
    case flink
    then have "?run = soft_fault_attempts n l p f b ?w (s\<lparr>spin := after_wait ?w ?n2\<rparr>)"
      using x ok fr by (simp add: lock_eval Let_def)
    then show ?thesis using retry by simp
  next
    case one
    then have "?run = Inr (True, (soft_removed l p (as @ bs) s)\<lparr>spin := ?n2\<rparr>)"
      using x ok fr same fin [of ?n2] at f b Suc.prems(4,5)
      by (simp add: lock_eval Let_def pfn_free_def)
    then show ?thesis by blast
  next
    case blink
    then have "?run = soft_fault_attempts n l p f b ?w (s\<lparr>spin := after_wait ?w ?n3\<rparr>)"
      using x ok fr by (simp add: lock_eval Let_def pfn_free_def)
    then show ?thesis using retry by simp
  next
    case two
    then have "?run = Inr (True, (soft_removed l p (as @ bs) s)\<lparr>spin := ?n3\<rparr>)"
      using x ok fr fin [of ?n3] at Suc.prems(4,5)
      by (simp add: lock_eval Let_def pfn_free_def)
    then show ?thesis by blast
  qed
qed

lemma remove_page_on_soft_fault_run:
  assumes wf: "wf_list s l (as @ p # bs)" and free: "list_free s l"
    and locks: "unlocked_pfns s (set (head (lists s l) # as @ bs))"
  shows "\<exists>m. remove_page_on_soft_fault l p s =
     Inr ((), (soft_removed l p (as @ bs) s)\<lparr>spin := m\<rparr>)"
proof -
  note at = wf_list_at [OF wf]
  note un = wf_list_unlink [OF wf]
  obtain m where m: "soft_fault_attempts 30 l p (flink (pfns s p)) (blink (pfns s p)) 1 s =
        Inr (False, s\<lparr>spin := m\<rparr>) \<or>
      soft_fault_attempts 30 l p (flink (pfns s p)) (blink (pfns s p)) 1 s =
        Inr (True, (soft_removed l p (as @ bs) s)\<lparr>spin := m\<rparr>)"
    using soft_fault_attempts_run [OF assms refl refl] by blast
  show ?thesis
  proof (rule exI [of _ m], rule disjE [OF m])
    assume run: "soft_fault_attempts 30 l p (flink (pfns s p)) (blink (pfns s p)) 1 s =
        Inr (False, s\<lparr>spin := m\<rparr>)"
    have x: "\<not> held_exclusive (lists s l)" "shared_holders (lists s l) = 0"
      using free by (simp_all add: list_free_def)
    then have lists: "(lists s)(l := (lists s l)\<lparr>held_exclusive := False\<rparr>) = lists s" by auto
    have fin: "after_soft_removal l (s\<lparr>spin := k, pfns := unlink p (pfns s)\<rparr>) =
        Inr ((), (soft_removed l p (as @ bs) s)\<lparr>spin := k\<rparr>)" for k
      using un by (subst after_soft_removal_run [of _ l "as @ bs"])
        (simp_all add: wf_list_def soft_removed_def note_removal_def)
    show "remove_page_on_soft_fault l p s = Inr ((), (soft_removed l p (as @ bs) s)\<lparr>spin := m\<rparr>)"
      using at run x fin lists
      by (simp add: remove_page_on_soft_fault_def lock_eval lock_list_exclusive_def
          unlock_list_exclusive_def)
  qed (use at in \<open>simp add: remove_page_on_soft_fault_def prog_simps\<close>)
qed


section \<open>Removal of the first page\<close>

lemma wf_list_nth: "wf_list s l xs \<Longrightarrow> k < length xs \<Longrightarrow> pfn_ok s (xs ! k)"
  by (rule wf_list_page) auto

definition popped :: "list_id \<Rightarrow> pfn_ptr \<Rightarrow> machine \<Rightarrow> machine" where
  "popped l p s = s\<lparr>pfns := on_cell p locked_pfn (unlink p (pfns s)), lists := resize l (- 1) (lists s)\<rparr>"

lemma try_pop_from_list_run:
  assumes wf: "wf_list s l xs" and free: "list_free s l"
    and locks: "unlocked_pfns s (set (head (lists s l) # xs))"
  shows "\<exists>m. try_pop_from_list l s = Inr (NullPfn, s\<lparr>spin := m\<rparr>) \<or>
     (xs \<noteq> [] \<and> try_pop_from_list l s = Inr (hd xs, (popped l (hd xs) s)\<lparr>spin := m\<rparr>))"
proof -
  let ?h = "head (lists s l)" and ?n1 = "after_try (spin s)" let ?n2 = "after_try ?n1"
  let ?n3 = "after_try ?n2" let ?n4 = "after_try ?n3"
  have x: "\<not> held_exclusive (lists s l)" using free by (simp add: list_free_def)
  have h: "pfn_ok s ?h" "pfn_free s ?h" using wf locks by (auto simp: wf_list_def unlocked_pfns_def)
  have fl: "flink (pfns s ?h) = hd (xs @ [?h])" using dll_ends(1) [OF wf_list_dll [OF wf]] .
  have no: "?thesis" if "try_pop_from_list l s = Inr (NullPfn, s\<lparr>spin := m\<rparr>)" for m
    using that by blast
  show ?thesis
  proof (cases "next_busy (spin s) \<or> next_busy ?n1 \<or> xs = []")
    case True
    then show ?thesis
      using x h fl by (intro no [of "if next_busy (spin s) then ?n1 else ?n2"])
        (auto simp: try_pop_from_list_def lock_eval pfn_free_def)
  next
    case False
    then obtain p ys where xs: "xs = p # ys" by (cases xs) auto
    have p: "pfn_ok s p" "pfn_free s p" "p \<noteq> ?h"
      using wf locks by (auto simp: xs wf_list_def unlocked_pfns_def dll_def)
    have at: "flink (pfns s p) = hd (ys @ [?h])" "blink (pfns s p) = ?h"
      using dll_at [of "pfns s" ?h "[]" p ys] wf by (simp_all add: wf_list_def xs)
    show ?thesis
    proof (cases ys)
      case Nil
      show ?thesis
      proof (cases "next_busy ?n2")
        case True
        then show ?thesis using False x h p fl at by (intro no [of ?n3])
          (simp add: try_pop_from_list_def lock_eval pfn_free_def xs)
      next
        case ok: False
        then have "try_pop_from_list l s = Inr (p, (popped l p s)\<lparr>spin := ?n3\<rparr>)"
          using False x h p fl at Nil
          by (simp add: try_pop_from_list_def lock_eval pfn_free_def xs popped_def)
        then show ?thesis using xs by auto
      qed
    next
      case (Cons q zs)
      have q: "pfn_ok s q" "pfn_free s q" "q \<noteq> ?h" "q \<noteq> p"
        using wf locks by (auto simp: xs Cons wf_list_def unlocked_pfns_def dll_def)
      show ?thesis
      proof (cases "next_busy ?n2 \<or> next_busy ?n3")
        case True
        then show ?thesis using False x h p q fl at Cons
          by (intro no [of "if next_busy ?n2 then ?n3 else ?n4"])
            (auto simp: try_pop_from_list_def lock_eval pfn_free_def xs)
      next
        case ok: False
        then have "try_pop_from_list l s = Inr (p, (popped l p s)\<lparr>spin := ?n4\<rparr>)"
          using False x h p q fl at Cons
          by (simp add: try_pop_from_list_def lock_eval pfn_free_def xs popped_def)
        then show ?thesis using xs by auto
      qed
    qed
  qed
qed


section \<open>Removal of a batch\<close>

text \<open>\<open>batch_removed l xs k s\<close>: the first \<open>k\<close> pages of the list \<open>xs\<close> are cut off and locked.\<close>

definition batch_removed :: "list_id \<Rightarrow> pfn_ptr list \<Rightarrow> nat \<Rightarrow> machine \<Rightarrow> machine" where
  "batch_removed l xs k s =
     (let h = head (lists s l) in
      s\<lparr>pfns := on_cells (set (take k xs)) locked_pfn (cut_front h (hd (drop k xs @ [h])) (pfns s)),
        lists := resize l (- of_nat k) (lists s)\<rparr>)"

lemma batch_removed_spin [simp]:
  "(batch_removed l xs k (s\<lparr>spin := m\<rparr>))\<lparr>spin := n\<rparr> = (batch_removed l xs k s)\<lparr>spin := n\<rparr>"
  by (simp add: batch_removed_def Let_def)

lemma batch_removed_spin1: "batch_removed l xs k (s\<lparr>spin := m\<rparr>) = (batch_removed l xs k s)\<lparr>spin := m\<rparr>"
  by (simp add: batch_removed_def Let_def)

lemma nth_next_head: "k < length xs \<Longrightarrow> hd (drop k xs @ [h]) = xs ! k"
  by (simp add: hd_append hd_drop_conv_nth)

lemma nth_append_head: "k \<le> length xs \<Longrightarrow> (xs @ [h]) ! k = hd (drop k xs @ [h])"
  by (cases "k = length xs") (simp_all add: nth_append hd_append hd_drop_conv_nth)

lemma nth_not_in_take: "k < length xs \<Longrightarrow> distinct xs \<Longrightarrow> xs ! k \<notin> set (take k xs)"
  by (auto simp: in_set_conv_nth nth_eq_iff_index_eq)

lemma take_locked:
  assumes "k < length xs" and "distinct xs"
  shows "on_cell (xs ! k) locked_pfn (on_cells (set (take k xs)) locked_pfn m) =
         on_cells (set (take (Suc k) xs)) locked_pfn m"
proof -
  have "xs ! k \<notin> set (take k xs)" using assms by (rule nth_not_in_take)
  then have "{xs ! k} \<inter> set (take k xs) = {}" by simp
  then show ?thesis
    using assms(1) by (subst on_cells_union) (simp_all add: take_Suc_conv_app_nth)
qed

text \<open>The loop of the exclusive version, \<open>k\<close> pages in.\<close>

lemma take_pages_run:
  assumes "wf_list s l xs" and "unlocked_pfns s (set xs)" and "k \<le> length xs"
  shows "take_pages n (head (lists s l)) ((xs @ [head (lists s l)]) ! k) (of_nat k)
       (s\<lparr>pfns := on_cells (set (take k xs)) locked_pfn (pfns s)\<rparr>) =
     (let j = min (length xs) (k + n) in
      Inr (((xs @ [head (lists s l)]) ! j, of_nat j),
           s\<lparr>pfns := on_cells (set (take j xs)) locked_pfn (pfns s)\<rparr>))"
  using assms(3)
proof (induction n arbitrary: k)
  case 0
  then show ?case by (simp add: prog_simps)
next
  case (Suc n)
  let ?h = "head (lists s l)"
  have d: "distinct xs" "?h \<notin> set xs" using dll_distinct [OF wf_list_dll [OF assms(1)]] by simp_all
  show ?case
  proof (cases "k = length xs")
    case True
    then show ?thesis by (simp add: prog_simps Let_def)
  next
    case False
    then have k: "k < length xs" using Suc.prems by simp
    then have p: "xs ! k \<in> set xs" by simp
    let ?s = "s\<lparr>pfns := on_cells (set (take k xs)) locked_pfn (pfns s)\<rparr>"
    have "xs ! k \<notin> set (take k xs)" using k d(1) by (rule nth_not_in_take)
    then have free: "pfn_free ?s (xs ! k)"
      using assms(2) p by (simp add: unlocked_pfns_def pfn_free_def)
    have ok: "pfn_ok s (xs ! k)" using assms(1) k by (rule wf_list_nth)
    have lk: "lock_pfn (xs ! k) ?s =
        Inr ((), s\<lparr>pfns := on_cells (set (take (Suc k) xs)) locked_pfn (pfns s)\<rparr>)"
      using lock_pfn_run [of ?s "xs ! k"] ok free take_locked [OF k d(1)] by simp
    have "flink (pfns s (xs ! k)) = (xs @ [?h]) ! Suc k"
      using wf_list_dll [OF assms(1)] k by (rule dll_next)
    moreover have "(xs @ [?h]) ! k = xs ! k" using k by (simp add: nth_append)
    moreover have "xs ! k \<noteq> ?h" using p d(2) by metis
    moreover have "(of_nat k + 1 :: u64) = of_nat (Suc k)" by simp
    moreover have "min (length xs) (Suc k + n) = min (length xs) (k + Suc n)" by simp
    ultimately show ?thesis
      using lk ok Suc.IH [of "Suc k"] k by (simp add: prog_simps Let_def del: of_nat_Suc)
  qed
qed

lemma remove_batch_exclusive_run:
  assumes wf: "wf_list s l xs" and locks: "unlocked_pfns s (set xs)" and cap: "0 < unat capacity"
    and small: "length xs < 2 ^ 64"
  shows "remove_batch_from_list_head_exclusive l capacity s =
     (if xs = [] then Inr ((0, NullPfn), s)
      else let k = min (length xs) (unat capacity) in
        Inr ((of_nat k, hd xs), batch_removed l xs k s))"
proof (cases "xs = []")
  case True
  then show ?thesis
    using wf_list_head [OF wf] dll_empty [OF wf_list_dll [OF wf]]
    by (simp add: remove_batch_from_list_head_exclusive_def prog_simps)
next
  case False
  let ?h = "head (lists s l)" and ?k = "min (length xs) (unat capacity)"
  have fl: "flink (pfns s ?h) = hd xs"
    using dll_ends(1) [OF wf_list_dll [OF wf]] False by simp
  have h: "hd xs \<noteq> ?h" using dll_distinct [OF wf_list_dll [OF wf]] False hd_in_set by metis
  have run: "take_pages (unat capacity) ?h (hd xs) 0 s =
      Inr (((xs @ [?h]) ! ?k, of_nat ?k), s\<lparr>pfns := on_cells (set (take ?k xs)) locked_pfn (pfns s)\<rparr>)"
    using take_pages_run [OF wf locks, of 0 "unat capacity"] False by (simp add: Let_def nth_append hd_conv_nth)
  have k: "0 < ?k" "?k < 2 ^ 64" using False cap small by auto
  then have "of_nat ?k \<noteq> (0 :: u64)" by (metis less_numeral_extra(3) len64 mod_less of_nat_0 unat_0 unat_of_nat)
  moreover have nx: "(xs @ [?h]) ! ?k = hd (drop ?k xs @ [?h])" by (rule nth_append_head) simp
  moreover have "pfn_ok s (hd (drop ?k xs @ [?h]))"
    using wf nth_mem [of ?k "xs @ [?h]"] unfolding nx by (auto simp: wf_list_def)
  ultimately show ?thesis
    using wf_list_head [OF wf] fl h run False
    by (simp add: remove_batch_from_list_head_exclusive_def prog_simps batch_removed_def Let_def
        cut_front_def set_link_semaphore)
qed

text \<open>
  The loop that extends a batch: the first \<open>k + 1\<close> pages are locked, the first \<open>k\<close> are in the batch.
\<close>

definition batch_extended ::
    "pfn_ptr \<Rightarrow> pfn_ptr list \<Rightarrow> nat \<Rightarrow> nat \<Rightarrow> u64 \<times> pfn_ptr \<times> bool \<Rightarrow> bool" where
  "batch_extended h xs lo j r \<longleftrightarrow> lo \<le> j \<and> j \<le> length xs \<and>
     r = (of_nat j, hd (drop j xs @ [h]), j = length xs)"

lemma spin_before_pfns: "s\<lparr>pfns := a, spin := b\<rparr> = s\<lparr>spin := b, pfns := a\<rparr>"
  by simp

lemma extend_batch_run:
  assumes "dll m h xs" and "\<forall>p \<in> set xs. pfn_ok s p" and "\<forall>p \<in> set xs. lock_of (m p) = 0"
    and "k < length xs"
  shows "\<exists>j i r. extend_batch n h (of_nat k) (xs ! k) ((xs @ [h]) ! Suc k)
       (s\<lparr>pfns := on_cells (set (take (Suc k) xs)) locked_pfn m\<rparr>) =
     Inr (r, s\<lparr>pfns := on_cells (set (take (Suc j) xs)) locked_pfn m, spin := i\<rparr>) \<and>
     batch_extended h xs k j r \<and> j \<le> k + n"
  using assms(2,4)
proof (induction n arbitrary: k s)
  case 0
  then show ?case
    by (intro exI [of _ k] exI [of _ "spin s"] exI)
      (auto simp: prog_simps batch_extended_def hd_append hd_drop_conv_nth)
next
  case (Suc n)
  have d: "distinct xs" "h \<notin> set xs" using dll_distinct [OF assms(1)] by simp_all
  let ?s = "s\<lparr>pfns := on_cells (set (take (Suc k) xs)) locked_pfn m\<rparr>"
  show ?case
  proof (cases "Suc k = length xs")
    case True
    have "(xs @ [h]) ! Suc k = h" by (simp add: True)
    then show ?thesis
      by (intro exI [of _ "length xs"] exI [of _ "spin s"] exI [of _ "(of_nat (length xs), h, True)"])
        (simp add: prog_simps batch_extended_def add.commute flip: True)
  next
    case False
    then have k: "Suc k < length xs" using Suc.prems(2) by simp
    let ?p = "xs ! Suc k"
    have p: "?p \<in> set xs" using k by simp
    have "?p \<notin> set (take (Suc k) xs)" using k d(1) by (rule nth_not_in_take)
    then have free: "pfn_free ?s ?p" using assms(3) p by (simp add: pfn_free_def)
    have ok: "pfn_ok s ?p" using Suc.prems(1) p by blast
    have e: "(xs @ [h]) ! Suc k = ?p" "?p \<noteq> h" using k p d(2) by (auto simp: nth_append)
    show ?thesis
    proof (cases "next_busy (spin s)")
      case True
      then have "extend_batch (Suc n) h (of_nat k) (xs ! k) ((xs @ [h]) ! Suc k) ?s =
          Inr ((of_nat k, xs ! k, False), s\<lparr>pfns := on_cells (set (take (Suc k) xs)) locked_pfn m,
            spin := after_try (spin s)\<rparr>)"
        using e ok free try_lock_pfn_run [of ?s ?p] by (simp add: prog_simps)
      moreover have "batch_extended h xs k k (of_nat k, xs ! k, False)"
        using Suc.prems(2) by (simp add: batch_extended_def hd_append hd_drop_conv_nth)
      ultimately show ?thesis by (metis le_add1)
    next
      case False
      have "flink (m ?p) = (xs @ [h]) ! Suc (Suc k)" using assms(1) k by (rule dll_next)
      then have "extend_batch (Suc n) h (of_nat k) (xs ! k) ((xs @ [h]) ! Suc k) ?s =
          extend_batch n h (of_nat (Suc k)) ?p ((xs @ [h]) ! Suc (Suc k))
            (s\<lparr>spin := after_try (spin s), pfns := on_cells (set (take (Suc (Suc k)) xs)) locked_pfn m\<rparr>)"
        using e ok free False try_lock_pfn_run [of ?s ?p] take_locked [OF k d(1)]
        by (simp add: prog_simps add.commute spin_before_pfns)
      moreover obtain j i r where "extend_batch n h (of_nat (Suc k)) ?p ((xs @ [h]) ! Suc (Suc k))
            (s\<lparr>spin := after_try (spin s), pfns := on_cells (set (take (Suc (Suc k)) xs)) locked_pfn m\<rparr>) =
          Inr (r, s\<lparr>pfns := on_cells (set (take (Suc j) xs)) locked_pfn m, spin := i\<rparr>)"
        "batch_extended h xs (Suc k) j r" "j \<le> Suc k + n"
        using Suc.IH [of "s\<lparr>spin := after_try (spin s)\<rparr>" "Suc k"] Suc.prems(1) k by auto
      ultimately show ?thesis
        by (intro exI [of _ j] exI [of _ i] exI [of _ r]) (simp add: batch_extended_def)
    qed
  qed
qed

lemma start_batch_run:
  assumes wf: "wf_list s l xs" and free: "list_free s l"
    and locks: "unlocked_pfns s (set (head (lists s l) # xs))"
  shows "\<exists>m. start_batch n l (head (lists s l)) w s = Inr (NotLocked, s\<lparr>spin := m\<rparr>) \<or>
     (xs = [] \<and> start_batch n l (head (lists s l)) w s = Inr (ListEmpty, s\<lparr>spin := m\<rparr>)) \<or>
     (\<exists>p. xs = [p] \<and> start_batch n l (head (lists s l)) w s =
        Inr (OnePage p, (batch_removed l xs 1 s)\<lparr>spin := m\<rparr>)) \<or>
     (\<exists>p q zs. xs = p # q # zs \<and> start_batch n l (head (lists s l)) w s =
        Inr (TwoLocked p q, s\<lparr>pfns := on_cells (set (take 2 xs)) locked_pfn
                                  (on_cell (head (lists s l)) locked_pfn (pfns s)),
                              lists := share l (lists s), spin := m\<rparr>))"
  (is "\<exists>m. ?P n w s m")
  using assms
proof (induction n arbitrary: s w)
  case 0
  then show ?case by (intro exI [of _ "spin s"]) (simp add: prog_simps)
next
  case (Suc n)
  let ?h = "head (lists s l)" and ?w = "next_wait_time w" and ?n1 = "after_try (spin s)"
  let ?n2 = "after_try ?n1" let ?n3 = "after_try ?n2" let ?n4 = "after_try ?n3"
  let ?run = "start_batch (Suc n) l ?h w s"
  have x: "\<not> held_exclusive (lists s l)" using Suc.prems(2) by (simp add: list_free_def)
  have h: "pfn_ok s ?h" "pfn_free s ?h" using Suc.prems by (auto simp: wf_list_def unlocked_pfns_def)
  have fl: "flink (pfns s ?h) = hd (xs @ [?h])" using dll_ends(1) [OF wf_list_dll [OF Suc.prems(1)]] .
  have retry: "\<exists>m. ?P (Suc n) w s m" if "?run = start_batch n l ?h ?w (s\<lparr>spin := k\<rparr>)" for k
    unfolding that using Suc.IH [of "s\<lparr>spin := k\<rparr>" ?w] Suc.prems by simp
  consider (list) "next_busy (spin s)" | (head) "\<not> next_busy (spin s)" "next_busy ?n1"
    | (go) "\<not> next_busy (spin s)" "\<not> next_busy ?n1" by blast
  then show ?case
  proof cases
    case list
    then show ?thesis using x by (intro retry [of "after_wait ?w ?n1"]) (simp add: lock_eval Let_def)
  next
    case head
    then show ?thesis using x h
      by (intro retry [of "after_wait ?w ?n2"]) (simp add: lock_eval Let_def)
  next
    case go
    show ?thesis
    proof (cases xs)
      case Nil
      then have "?run = Inr (ListEmpty, s\<lparr>spin := ?n2\<rparr>)"
        using go x h fl by (simp add: lock_eval Let_def pfn_free_def)
      then show ?thesis using Nil by blast
    next
      case (Cons p ys)
      have p: "pfn_ok s p" "pfn_free s p" "p \<noteq> ?h"
        using Suc.prems by (auto simp: Cons wf_list_def unlocked_pfns_def dll_def)
      have at: "flink (pfns s p) = hd (ys @ [?h])" "blink (pfns s p) = ?h"
        using dll_at [of "pfns s" ?h "[]" p ys] Suc.prems(1) by (simp_all add: wf_list_def Cons)
      show ?thesis
      proof (cases "next_busy ?n2")
        case True
        then show ?thesis using go x h p fl Cons
          by (intro retry [of "after_wait ?w ?n3"]) (simp add: lock_eval Let_def pfn_free_def)
      next
        case first: False
        show ?thesis
        proof (cases ys)
          case Nil
          then have "?run = Inr (OnePage p, (batch_removed l xs 1 s)\<lparr>spin := ?n3\<rparr>)"
            using go first x h p fl at Cons
            by (simp add: lock_eval Let_def pfn_free_def batch_removed_def cut_front_def set_link_semaphore)
          then show ?thesis using Cons Nil by blast
        next
          case ys: (Cons q zs)
          have q: "pfn_ok s q" "pfn_free s q" "q \<noteq> ?h" "q \<noteq> p"
            using Suc.prems by (auto simp: Cons ys wf_list_def unlocked_pfns_def dll_def)
          show ?thesis
          proof (cases "next_busy ?n3")
            case True
            then show ?thesis using go first x h p q fl at Cons ys
              by (intro retry [of "after_wait ?w ?n4"]) (simp add: lock_eval Let_def pfn_free_def)
          next
            case second: False
            have "on_cell q locked_pfn (on_cell p locked_pfn m) = on_cells {p, q} locked_pfn m" for m
              using q(4) by (auto simp: on_cells_def fun_eq_iff)
            then have "?run = Inr (TwoLocked p q, s\<lparr>pfns := on_cells (set (take 2 xs)) locked_pfn
                (on_cell ?h locked_pfn (pfns s)), lists := share l (lists s), spin := ?n4\<rparr>)"
              using go first second x h p q fl at Cons ys
              by (simp add: lock_eval Let_def pfn_free_def)
            then show ?thesis using Cons ys by blast
          qed
        qed
      qed
    qed
  qed
qed


lemma batch_size_word:
  assumes "0 < j" and "j \<le> length xs" and "length xs < 2 ^ 63"
  shows "unat (of_nat j :: u64) = j"
  using assms by (simp add: unat_of_nat)

lemma finish_batch_run:
  assumes "pfns t = on_cells X locked_pfn (on_cell h locked_pfn P)" and "h \<notin> X" and "lock_of (P h) = 0"
    and "lists t = share l L" and "pfn_ok t h" and "pfn_ok t nx" and "\<not> wrapped \<Longrightarrow> nx \<in> X"
  shows "block_return
       [write_flink h nx,
        write_blink nx h,
        unlock_list_shared l,
        unlock_pfn h,
        run_if (\<not> wrapped) (unlock_pfn nx),
        change_list_size l (- num)] (num, first) t =
     Inr ((num, first), t\<lparr>pfns := (if wrapped then on_cells X locked_pfn (cut_front h nx P)
            else on_cell nx unlocked_pfn (on_cells X locked_pfn (cut_front h nx P))),
          lists := resize l (- num) L\<rparr>)"
proof -
  have links: "set_blink nx h (set_flink h nx (pfns t)) =
      on_cells X locked_pfn (on_cell h locked_pfn (cut_front h nx P))"
    unfolding assms(1) cut_front_def set_link_semaphore ..
  have un: "on_cell h unlocked_pfn (on_cells X locked_pfn (on_cell h locked_pfn (cut_front h nx P))) =
      on_cells X locked_pfn (cut_front h nx P)"
    using assms(2,3) by (subst on_cells_disjoint) (simp_all add: unlock_after_lock)
  show ?thesis
  proof (cases wrapped)
    case True
    then show ?thesis
      using assms(2-6) by (simp add: prog_simps unlock_pfn_run links un)
  next
    case False
    then show ?thesis
      using assms(2-7) by (simp add: prog_simps unlock_pfn_run links un)
  qed
qed

text \<open>
  The whole operation: no page comes off an empty list; otherwise between one and \<open>capacity\<close> pages
  come off the front, in order and locked.
\<close>

lemma remove_batch_from_list_head_run:
  assumes wf: "wf_list s l xs" and free: "list_free s l"
    and locks: "unlocked_pfns s (set (head (lists s l) # xs))" and cap: "0 < unat capacity"
    and small: "length xs < 2 ^ 64"
  shows "\<exists>m. (xs = [] \<and> remove_batch_from_list_head l capacity s = Inr ((0, NullPfn), s\<lparr>spin := m\<rparr>)) \<or>
     (\<exists>k. xs \<noteq> [] \<and> 0 < k \<and> k \<le> length xs \<and> k \<le> unat capacity \<and>
        remove_batch_from_list_head l capacity s =
          Inr ((of_nat k, hd xs), (batch_removed l xs k s)\<lparr>spin := m\<rparr>))"
proof -
  let ?h = "head (lists s l)"
  let ?run = "remove_batch_from_list_head l capacity s"
  have h: "pfn_ok s ?h" "pfn_free s ?h" using wf locks by (auto simp: wf_list_def unlocked_pfns_def)
  have fl: "flink (pfns s ?h) = hd (xs @ [?h])" using dll_ends(1) [OF wf_list_dll [OF wf]] .
  have ok1: "pfn_ok s (hd (xs @ [?h]))" using wf_list_ends(1) [OF wf] .
  have unf: "?run = (case start_batch 30 l ?h 1 s of Inl e \<Rightarrow> Inl e | Inr (start, t) \<Rightarrow> (case start of
       ListEmpty \<Rightarrow> return (0, NullPfn) t
     | OnePage first_page \<Rightarrow> return (1, first_page) t
     | NotLocked \<Rightarrow> remove_batch_from_list_head_exclusive l capacity t
     | TwoLocked first_page next_page \<Rightarrow>
         bind (read_flink next_page) (\<lambda>look_ahead.
         bind (extend_batch (unat capacity - 1) ?h 1 next_page look_ahead)
           (\<lambda>(num_pages_batched, next_page, wrapped_around).
         block_return
           [write_flink ?h next_page,
            write_blink next_page ?h,
            unlock_list_shared l,
            unlock_pfn ?h,
            run_if (\<not> wrapped_around) (unlock_pfn next_page),
            change_list_size l (- num_pages_batched)]
           (num_pages_batched, first_page))) t))"
    using h ok1 fl by (simp add: remove_batch_from_list_head_def prog_simps
        split: sum.split prod.split batch_start.split)
  obtain m where "start_batch 30 l ?h 1 s = Inr (NotLocked, s\<lparr>spin := m\<rparr>) \<or>
     (xs = [] \<and> start_batch 30 l ?h 1 s = Inr (ListEmpty, s\<lparr>spin := m\<rparr>)) \<or>
     (\<exists>p. xs = [p] \<and> start_batch 30 l ?h 1 s = Inr (OnePage p, (batch_removed l xs 1 s)\<lparr>spin := m\<rparr>)) \<or>
     (\<exists>p q zs. xs = p # q # zs \<and> start_batch 30 l ?h 1 s =
        Inr (TwoLocked p q, s\<lparr>pfns := on_cells (set (take 2 xs)) locked_pfn (on_cell ?h locked_pfn (pfns s)),
                              lists := share l (lists s), spin := m\<rparr>))"
    using start_batch_run [OF wf free locks] by blast
  then consider (not) "start_batch 30 l ?h 1 s = Inr (NotLocked, s\<lparr>spin := m\<rparr>)"
    | (empty) "xs = []" "start_batch 30 l ?h 1 s = Inr (ListEmpty, s\<lparr>spin := m\<rparr>)"
    | (one) p where "xs = [p]" "start_batch 30 l ?h 1 s = Inr (OnePage p, (batch_removed l xs 1 s)\<lparr>spin := m\<rparr>)"
    | (two) p q zs where "xs = p # q # zs" "start_batch 30 l ?h 1 s =
        Inr (TwoLocked p q, s\<lparr>pfns := on_cells (set (take 2 xs)) locked_pfn (on_cell ?h locked_pfn (pfns s)),
                              lists := share l (lists s), spin := m\<rparr>)"
    by blast
  then show ?thesis
  proof cases
    case not
    have "remove_batch_from_list_head_exclusive l capacity (s\<lparr>spin := m\<rparr>) =
       (if xs = [] then Inr ((0, NullPfn), s\<lparr>spin := m\<rparr>)
        else let k = min (length xs) (unat capacity) in
          Inr ((of_nat k, hd xs), (batch_removed l xs k s)\<lparr>spin := m\<rparr>))"
      using remove_batch_exclusive_run [of "s\<lparr>spin := m\<rparr>" l xs capacity] wf locks cap small
      by (simp add: unlocked_pfns_def batch_removed_spin1)
    then have run: "?run = (if xs = [] then Inr ((0, NullPfn), s\<lparr>spin := m\<rparr>)
        else let k = min (length xs) (unat capacity) in
          Inr ((of_nat k, hd xs), (batch_removed l xs k s)\<lparr>spin := m\<rparr>))"
      using not by (simp add: unf)
    define k where "k = min (length xs) (unat capacity)"
    show ?thesis
    proof (cases "xs = []")
      case True
      then have "?run = Inr ((0, NullPfn), s\<lparr>spin := m\<rparr>)" using run by simp
      then show ?thesis using True by blast
    next
      case False
      then have "?run = Inr ((of_nat k, hd xs), (batch_removed l xs k s)\<lparr>spin := m\<rparr>)"
        using run by (simp add: k_def Let_def)
      moreover have "0 < k" "k \<le> length xs" "k \<le> unat capacity" using False cap by (simp_all add: k_def)
      ultimately show ?thesis using False by blast
    qed
  next
    case empty
    then show ?thesis by (auto simp: unf prog_simps)
  next
    case one
    then have "?run = Inr ((of_nat 1, hd xs), (batch_removed l xs 1 s)\<lparr>spin := m\<rparr>)"
      by (simp add: unf prog_simps)
    moreover have "xs \<noteq> []" "0 < (1 :: nat)" "1 \<le> length xs" "1 \<le> unat capacity"
      using one(1) cap by simp_all
    ultimately show ?thesis by blast
  next
    case two
    let ?M = "on_cell ?h locked_pfn (pfns s)" and ?s1 = "s\<lparr>lists := share l (lists s), spin := m\<rparr>"
    have d: "distinct xs" "?h \<notin> set xs" using dll_distinct [OF wf_list_dll [OF wf]] by simp_all
    have q: "q = xs ! 1" "q \<in> set xs" "1 < length xs" "hd xs = p" using two(1) by simp_all
    have start: "start_batch 30 l ?h 1 s =
        Inr (TwoLocked p q, ?s1\<lparr>pfns := on_cells (set (take (Suc 1) xs)) locked_pfn ?M\<rparr>)"
      using two by (simp add: numeral_2_eq_2)
    have "dll ?M ?h xs" using wf_list_dll [OF wf] by simp
    moreover have "\<forall>x \<in> set xs. pfn_ok ?s1 x" using wf by (simp add: wf_list_def)
    moreover have "\<forall>x \<in> set xs. lock_of (?M x) = 0"
      using locks d(2) by (auto simp: unlocked_pfns_def pfn_free_def)
    ultimately obtain j i r where ext: "extend_batch (unat capacity - 1) ?h (of_nat 1) (xs ! 1)
          ((xs @ [?h]) ! Suc 1) (?s1\<lparr>pfns := on_cells (set (take (Suc 1) xs)) locked_pfn ?M\<rparr>) =
        Inr (r, ?s1\<lparr>pfns := on_cells (set (take (Suc j) xs)) locked_pfn ?M, spin := i\<rparr>)"
      and r: "batch_extended ?h xs 1 j r" and j: "j \<le> 1 + (unat capacity - 1)"
      using extend_batch_run [of ?M ?h xs ?s1 1 "unat capacity - 1"] q(3) by blast
    let ?nx = "hd (drop j xs @ [?h])" and ?P = "cut_front ?h (hd (drop j xs @ [?h])) (pfns s)"
    have jl: "1 \<le> j" "j \<le> length xs" "r = (of_nat j, ?nx, j = length xs)"
      using r by (simp_all add: batch_extended_def)
    have nx: "?nx \<in> set (?h # xs)" using jl(2)
      by (cases "j = length xs") (simp_all add: hd_append hd_drop_conv_nth)
    then have nxok: "pfn_ok s ?nx" "lock_of (pfns s ?nx) = 0"
      using wf locks by (auto simp: wf_list_def unlocked_pfns_def pfn_free_def)
    have X: "?h \<notin> set (take (Suc j) xs)" using d(2) by (auto dest: in_set_takeD)
    have lh: "lock_of (?P ?h) = 0" using h(2) by (simp add: pfn_free_def)
    have last: "(if j = length xs then on_cells (set (take (Suc j) xs)) locked_pfn ?P
        else on_cell ?nx unlocked_pfn (on_cells (set (take (Suc j) xs)) locked_pfn ?P)) =
        on_cells (set (take j xs)) locked_pfn ?P"
    proof (cases "j = length xs")
      case False
      then have "?nx = xs ! j" "j < length xs" using jl(2) by (simp_all add: hd_append hd_drop_conv_nth)
      then show ?thesis
        using False nxok(2) d(1) nth_not_in_take [of j xs]
        by (simp add: unlock_after_lock flip: take_locked)
    qed simp
    have heldnx: "j \<noteq> length xs \<Longrightarrow> ?nx \<in> set (take (Suc j) xs)"
      using jl(2) by (simp add: hd_append hd_drop_conv_nth take_Suc_conv_app_nth)
    have look: "flink (pfns s q) = (xs @ [?h]) ! Suc 1" "pfn_ok s q"
      using dll_next [OF wf_list_dll [OF wf] q(3)] q(1,2) wf by (simp_all add: wf_list_def)
    define t where "t = ?s1\<lparr>pfns := on_cells (set (take (Suc j) xs)) locked_pfn ?M, spin := i\<rparr>"
    have "?run = block_return
           [write_flink ?h ?nx, write_blink ?nx ?h, unlock_list_shared l, unlock_pfn ?h,
            run_if (\<not> j = length xs) (unlock_pfn ?nx), change_list_size l (- of_nat j)] (of_nat j, p) t"
    proof -
      let ?t0 = "?s1\<lparr>pfns := on_cells (set (take (Suc 1) xs)) locked_pfn ?M\<rparr>"
      have rd: "read_flink q ?t0 = Inr ((xs @ [?h]) ! Suc 1, ?t0)"
        using look by (simp add: links_run)
      have ex: "extend_batch (unat capacity - 1) ?h 1 q ((xs @ [?h]) ! Suc 1) ?t0 =
          Inr ((of_nat j, ?nx, j = length xs), t)"
        using ext unfolding jl(3) t_def q(1) by (simp only: of_nat_1)
      show ?thesis
        unfolding unf start sum.case prod.case batch_start.case bind_apply rd ex ..
    qed
    also have "\<dots> = Inr ((of_nat j, p), t\<lparr>pfns := on_cells (set (take j xs)) locked_pfn ?P,
        lists := resize l (- of_nat j) (lists s)\<rparr>)"
      using X h nxok(1) heldnx lh unfolding last [symmetric]
      by (subst finish_batch_run [where X = "set (take (Suc j) xs)" and P = "pfns s" and L = "lists s"])
        (simp_all add: t_def pfn_free_def)
    also have "\<dots> = Inr ((of_nat j, hd xs), (batch_removed l xs j s)\<lparr>spin := i\<rparr>)"
      by (simp add: t_def batch_removed_def Let_def q(4))
    finally have "?run = Inr ((of_nat j, hd xs), (batch_removed l xs j s)\<lparr>spin := i\<rparr>)" .
    moreover have "xs \<noteq> []" "0 < j" "j \<le> unat capacity" using jl j cap two(1) by auto
    ultimately show ?thesis using jl(2) by (intro exI [of _ i] disjI2 exI [of _ j] conjI)
  qed
qed


section \<open>Appending a batch\<close>

definition lock_ends :: "pfn_ptr \<Rightarrow> pfn_ptr list \<Rightarrow> descriptors \<Rightarrow> descriptors" where
  "lock_ends h xs m = (if xs = [] then on_cell h locked_pfn m
     else on_cell (last xs) locked_pfn (on_cell h locked_pfn m))"

lemma lock_list_ends_run:
  assumes "wf_list s l xs" and "list_free s l" and "unlocked_pfns s (set (head (lists s l) # xs))"
    and "patience s < fuel"
  shows "\<exists>m. lock_list_ends fuel l w s =
     Inr ((head (lists s l), last (head (lists s l) # xs)),
          s\<lparr>pfns := lock_ends (head (lists s l)) xs (pfns s),
            lists := share l (lists s), spin := m\<rparr>)"
  (is "\<exists>m. lock_list_ends fuel l w s = Inr (?r, ?t s m)")
  using assms
proof (induction fuel arbitrary: s w)
  case (Suc fuel)
  let ?h = "head (lists s l)" and ?n1 = "after_try (spin s)" let ?n2 = "after_try ?n1"
  let ?tl = "last (?h # xs)"
  have x: "\<not> held_exclusive (lists s l)" using Suc.prems(2) by (simp add: list_free_def)
  have h: "pfn_ok s ?h" "pfn_free s ?h" using Suc.prems by (auto simp: wf_list_def unlocked_pfns_def)
  have t: "pfn_ok s ?tl" "pfn_free s ?tl"
    using wf_list_ends(2) [OF Suc.prems(1)] Suc.prems(3) by (auto simp: unlocked_pfns_def)
  have blink: "blink (pfns s ?h) = ?tl" using dll_ends(2) [OF wf_list_dll [OF Suc.prems(1)]] .
  have te: "?tl = ?h \<longleftrightarrow> xs = []" using dll_last_head [OF wf_list_dll [OF Suc.prems(1)]] .
  have retry: "\<exists>m. lock_list_ends fuel l v (s\<lparr>spin := k\<rparr>) = Inr ((?h, ?tl),
      s\<lparr>pfns := lock_ends ?h xs (pfns s), lists := share l (lists s), spin := m\<rparr>)"
    if "length (contention k) < patience s" for v k
    using Suc.IH [of "s\<lparr>spin := k\<rparr>" v] Suc.prems that by (simp add: patience_def)
  show ?case
  proof (cases "next_busy (spin s)")
    case True
    then have "length (contention (after_wait (ucast w) ?n1)) < patience s"
      using busy_patience [of "spin s"] by (simp add: patience_def)
    then show ?thesis using True x h retry by (simp add: lock_eval)
  next
    case head: False
    show ?thesis
    proof (cases "xs = []")
      case True
      then show ?thesis using head x h blink
        by (intro exI [of _ ?n1]) (simp add: lock_eval lock_ends_def)
    next
      case xs: False
      then have l: "last xs \<noteq> ?h" "?tl = last xs" using te by simp_all
      show ?thesis
      proof (cases "next_busy ?n1")
        case True
        then have "length (contention (after_wait (ucast w) ?n2)) < patience s"
          using busy_patience [of ?n1] by (simp add: patience_def)
        from retry [OF this] show ?thesis
          using True head x h t xs l blink by (simp add: lock_eval pfn_free_def)
      next
        case False
        then show ?thesis using head x h t xs l blink
          by (intro exI [of _ ?n2]) (simp add: lock_eval pfn_free_def lock_ends_def)
      qed
    qed
  qed
qed simp

lemma insert_list_to_tail_list_run:
  assumes wf: "wf_list s l xs" and free: "list_free s l"
    and locks: "unlocked_pfns s (set (head (lists s l) # xs))"
    and ys: "wf_list s k ys" "ys \<noteq> []"
    and disj: "set (head (lists s l) # xs) \<inter> set (head (lists s k) # ys) = {}"
  shows "\<exists>m. insert_list_to_tail_list l k s =
     Inr ((), s\<lparr>pfns := append_list (head (lists s l)) (hd ys) (last ys) (pfns s), spin := m\<rparr>)"
proof -
  let ?h = "head (lists s l)" and ?g = "head (lists s k)"
  have ends: "flink (pfns s ?g) = hd ys" "blink (pfns s ?g) = last ys"
    using dll_ends [OF wf_list_dll [OF ys(1)]] ys(2) by simp_all
  have g: "pfn_ok s ?g" "pfn_ok s (hd ys)" "pfn_ok s (last ys)"
    using ys by (auto simp: wf_list_def)
  have h: "pfn_ok s ?h" "pfn_ok s (last (?h # xs))" "pfn_free s ?h" "pfn_free s (last (?h # xs))"
    using wf_list_head [OF wf] wf_list_ends(2) [OF wf] locks by (auto simp: unlocked_pfns_def)
  have blink: "blink (pfns s ?h) = last (?h # xs)" using dll_ends(2) [OF wf_list_dll [OF wf]] .
  obtain m where m: "lock_list_ends (Suc (patience s)) l 1 s =
     Inr ((?h, last (?h # xs)),
          s\<lparr>pfns := lock_ends ?h xs (pfns s), lists := share l (lists s), spin := m\<rparr>)"
    using lock_list_ends_run [OF wf free locks] by blast
  have "insert_list_to_tail_list l k s =
     Inr ((), s\<lparr>pfns := append_list ?h (hd ys) (last ys) (pfns s), spin := m\<rparr>)"
  proof (cases "xs = []")
    case True
    then show ?thesis
      using m ends g h blink
      by (simp add: insert_list_to_tail_list_def lock_eval pfn_free_def lock_ends_def append_list_def set_link_semaphore)
  next
    case False
    then have "last xs \<noteq> ?h" using dll_last_head [OF wf_list_dll [OF wf]] by simp
    then show ?thesis
      using False m ends g h blink
      by (simp add: insert_list_to_tail_list_def lock_eval pfn_free_def lock_ends_def append_list_def set_link_semaphore)
  qed
  then show ?thesis ..
qed


section \<open>Free lists and caches\<close>

lemma try_lock_free_list_run:
  "try_lock_free_list i s =
     (if next_busy (spin s) then Inr (False, s\<lparr>spin := after_try (spin s)\<rparr>)
      else Inr (\<not> bit (free_list_locks (free_lists s)) (unat i),
        s\<lparr>free_lists := (free_lists s)\<lparr>free_list_locks := free_list_locks (free_lists s) OR push_bit (unat i) 1\<rparr>,
          spin := after_try (spin s)\<rparr>))"
  by (simp add: try_lock_free_list_def prog_simps)

lemma unlock_free_list_run:
  "bit (free_list_locks (free_lists s)) (unat i) \<Longrightarrow> unlock_free_list i s =
     Inr ((), s\<lparr>free_lists := (free_lists s)\<lparr>free_list_locks :=
       free_list_locks (free_lists s) AND NOT (push_bit (unat i) 1)\<rparr>\<rparr>)"
  by (simp add: unlock_free_list_def prog_simps)

lemma bit_lock_unlock:
  "unat (i :: u32) < 64 \<Longrightarrow> \<not> bit (w :: u64) (unat i) \<Longrightarrow> (w OR 2 ^ unat i) AND NOT (2 ^ unat i) = w"
  by (rule bit_word_eqI) (auto simp: bit_or_iff bit_and_iff bit_not_iff bit_one_shifted)

lemma bit_locked: "unat (i :: u32) < 64 \<Longrightarrow> bit ((w :: u64) OR 2 ^ unat i) (unat i)"
  by (simp add: bit_or_iff bit_one_shifted)

text \<open>The cache with the pages \<open>ps\<close> written from index \<open>i\<close> on.\<close>

definition cache_from :: "nat \<Rightarrow> pfn_ptr list \<Rightarrow> (nat \<Rightarrow> pfn_ptr) \<Rightarrow> nat \<Rightarrow> pfn_ptr" where
  "cache_from i ps c = (\<lambda>j. if i \<le> j \<and> j < i + length ps then ps ! (j - i) else c j)"

lemma cache_from_Nil [simp]: "cache_from i [] c = c"
  by (auto simp: cache_from_def fun_eq_iff)

lemma cache_from_Cons: "cache_from (Suc i) ps (c(i := p)) = cache_from i (p # ps) c"
  by (auto simp: cache_from_def fun_eq_iff nth_Cons split: nat.split intro!: arg_cong [of _ _ "(!) ps"])

definition set_cache :: "nat \<Rightarrow> (nat \<Rightarrow> pfn_ptr) \<Rightarrow> machine \<Rightarrow> machine" where
  "set_cache t c s = s\<lparr>users := (users s)(t := (users s t)\<lparr>free_page_cache := c\<rparr>)\<rparr>"

lemma set_cache_fields [simp]:
  "pfns (set_cache t c s) = pfns s" "pfn_ok (set_cache t c s) p = pfn_ok s p"
  "free_page_cache (users (set_cache t c s) t) = c" "set_cache t d (set_cache t c s) = set_cache t d s"
  "set_cache t c (s\<lparr>pfns := m\<rparr>) = (set_cache t c s)\<lparr>pfns := m\<rparr>"
  by (simp_all add: set_cache_def)

lemma write_cache_run:
  "i < 64 \<Longrightarrow> write_cache t i p s = Inr ((), set_cache t ((free_page_cache (users s t))(i := p)) s)"
  by (simp add: write_cache_def prog_simps set_cache_def)

lemma fill_cache_run:
  assumes "linked (pfns s) ps" and "distinct ps" and "i + length ps \<le> 64"
    and "\<forall>p \<in> set ps. pfn_ok s p \<and> pfn_held s p" and "ps \<noteq> [] \<Longrightarrow> p0 = hd ps"
  shows "fill_cache (length ps) t i p0 s =
     Inr ((), (set_cache t (cache_from i ps (free_page_cache (users s t))) s)
                \<lparr>pfns := on_cells (set ps) unlocked_pfn (pfns s)\<rparr>)"
  using assms
proof (induction ps arbitrary: i s p0)
  case Nil
  then show ?case by (simp add: prog_simps set_cache_def)
next
  case (Cons p ps)
  let ?c = "free_page_cache (users s t)"
  let ?s = "(set_cache t (?c(i := p)) s)\<lparr>pfns := on_cell p unlocked_pfn (pfns s)\<rparr>"
  have p: "pfn_ok s p" "pfn_held s p" "p0 = p" using Cons.prems by simp_all
  have held: "pfn_held (set_cache t (?c(i := p)) s) p" using p(2) by (simp add: pfn_held_def)
  have nx: "fill_cache (length ps) t (Suc i) (flink (pfns s p)) ?s =
      Inr ((), (set_cache t (cache_from (Suc i) ps (free_page_cache (users ?s t))) ?s)
                \<lparr>pfns := on_cells (set ps) unlocked_pfn (pfns ?s)\<rparr>)"
  proof (rule Cons.IH)
    show "linked (pfns ?s) ps" using Cons.prems(1) by (cases ps) simp_all
    show "ps \<noteq> [] \<Longrightarrow> flink (pfns s p) = hd ps" using Cons.prems(1) by (cases ps) auto
    show "\<forall>q \<in> set ps. pfn_ok ?s q \<and> pfn_held ?s q"
      using Cons.prems(2,4) by (auto simp: pfn_held_def)
  qed (use Cons.prems in simp_all)
  have "on_cells (set ps) unlocked_pfn (on_cell p unlocked_pfn m) = on_cells (set (p # ps)) unlocked_pfn m" for m
    using Cons.prems(2) by (subst on_cells_union) simp_all
  then show ?case
    using p held nx Cons.prems(3)
    by (simp add: prog_simps write_cache_run unlock_pfn_run cache_from_Cons set_cache_def)
qed


lemma linked_take: "dll m h xs \<Longrightarrow> linked m (take k xs)"
proof -
  assume *: "dll m h xs"
  then have "linked m (h # take k xs)" using dll_split [of m h "take k xs" "drop k xs"] by simp
  then show ?thesis by (cases "take k xs") auto
qed

lemma batch_linked:
  assumes "dll m h xs"
  shows "linked (cut_front h (hd (drop k xs @ [h])) m) (take k xs)"
proof -
  have d: "distinct xs" "h \<notin> set xs" using dll_distinct [OF assms] by simp_all
  have "p \<notin> {h, hd (drop k xs @ [h])}" if "p \<in> set (take k xs)" for p
  proof -
    have "p \<in> set xs" "p \<notin> set (drop k xs)"
      using that set_take_disj_set_drop_if_distinct [OF d(1), of k k] by (auto dest: in_set_takeD)
    then show ?thesis using d(2) by (cases "drop k xs") auto
  qed
  then have "linked (cut_front h (hd (drop k xs @ [h])) m) (take k xs) = linked m (take k xs)"
    by (intro linked_cong) (metis cut_front_links)
  then show ?thesis using linked_take [OF assms] by simp
qed

lemma batch_count_words:
  assumes "0 < k" and "k \<le> 64"
  shows "unat (of_nat k :: u64) = k" "(ucast (of_nat k :: u64) :: u16) = of_nat k"
    "unat (of_nat k :: u16) = k" "(ucast (of_nat k :: u16) :: u64) = of_nat k" "(of_nat k :: u16) \<noteq> 0"
proof -
  have t: "take_bit 64 k = k" "take_bit 16 k = k"
    using assms by (simp_all add: take_bit_nat_eq_self_iff)
  show "unat (of_nat k :: u64) = k" "(ucast (of_nat k :: u64) :: u16) = of_nat k"
    "(ucast (of_nat k :: u16) :: u64) = of_nat k"
    using t by (simp_all add: unsigned_of_nat)
  show u: "unat (of_nat k :: u16) = k" using t by (simp add: unsigned_of_nat)
  show "(of_nat k :: u16) \<noteq> 0" using u assms(1) by (metis less_numeral_extra(3) unat_0)
qed

text \<open>The effect of a refill: \<open>k\<close> pages move from the free list \<open>l\<close> into the cache of thread \<open>t\<close>.\<close>

definition refilled :: "list_id \<Rightarrow> nat \<Rightarrow> pfn_ptr list \<Rightarrow> nat \<Rightarrow> machine \<Rightarrow> machine" where
  "refilled l t xs k s =
     (let h = head (lists s l) in
      s\<lparr>pfns := cut_front h (hd (drop k xs @ [h])) (pfns s), lists := resize l (- of_nat k) (lists s),
        users := (users s)(t := (users s t)\<lparr>
          free_page_cache := cache_from 0 (take k xs) (free_page_cache (users s t)),
          free_page_count := of_nat k\<rparr>),
        free_lists := (free_lists s)\<lparr>page_count := page_count (free_lists s) - of_nat k\<rparr>,
        stats := (stats s)\<lparr>n_available := n_available (stats s) - of_nat k\<rparr>\<rparr>)"

lemma try_refill_run:
  assumes wf: "wf_list s (free_list (unat i)) xs" and locks: "unlocked_pfns s (set xs)"
    and i: "i < number_of_lists (free_lists s)" "unat i < 64"
    and bit: "\<not> bit (free_list_locks (free_lists s)) (unat i)" and small: "length xs < 2 ^ 64"
  shows "\<exists>m. (try_refill_cache_from_free_list i t s = Inr (False, s\<lparr>spin := m\<rparr>) \<and>
        (contention (spin s) = [] \<longrightarrow> xs = [] \<and> contention m = [])) \<or>
     (xs \<noteq> [] \<and> try_refill_cache_from_free_list i t s =
        Inr (True, (refilled (free_list (unat i)) t xs (min (length xs) 64) s)\<lparr>spin := m\<rparr>))"
proof -
  let ?l = "free_list (unat i)" and ?k = "min (length xs) 64"
  let ?locks = "free_list_locks (free_lists s)"
  let ?h = "head (lists s ?l)"
  define s1 where "s1 = s\<lparr>free_lists := (free_lists s)\<lparr>free_list_locks := ?locks OR push_bit (unat i) 1\<rparr>,
    spin := after_try (spin s)\<rparr>"
  have wf1: "wf_list s1 ?l xs" "unlocked_pfns s1 (set xs)"
    using wf locks by (simp_all add: s1_def wf_list_def unlocked_pfns_def pfn_free_def)
  have empty: "is_page_list_empty ?l s = Inr (xs = [], s)" "is_page_list_empty ?l s1 = Inr (xs = [], s1)"
    using is_page_list_empty_run [OF wf] is_page_list_empty_run [OF wf1(1)] by simp_all
  consider (empty) "xs = []" | (busy) "xs \<noteq> []" "next_busy (spin s)" | (go) "xs \<noteq> []" "\<not> next_busy (spin s)"
    by blast
  then show ?thesis
  proof cases
    case empty
    then have "try_refill_cache_from_free_list i t s = Inr (False, s\<lparr>spin := spin s\<rparr>)"
      using i \<open>is_page_list_empty ?l s = Inr (xs = [], s)\<close>
      by (simp add: try_refill_cache_from_free_list_def prog_simps Let_def)
    then show ?thesis using empty by blast
  next
    case busy
    then have "try_refill_cache_from_free_list i t s = Inr (False, s\<lparr>spin := after_try (spin s)\<rparr>)"
      using i empty(1)
      by (simp add: try_refill_cache_from_free_list_def prog_simps Let_def try_lock_free_list_run)
    moreover have "contention (spin s) \<noteq> []" using busy(2) by (auto simp: next_busy_def)
    ultimately show ?thesis by blast
  next
    case go
    have k: "0 < ?k" "?k \<le> 64" "?k \<le> length xs" using go(1) by simp_all
    define k where "k = ?k"
    have kw: "unat (of_nat k :: u64) = k" "(ucast (of_nat k :: u64) :: u16) = of_nat k"
      "unat (of_nat k :: u16) = k" "(ucast (of_nat k :: u16) :: u64) = of_nat k" "(of_nat k :: u16) \<noteq> 0"
      using batch_count_words [of k] k unfolding k_def [symmetric] by simp_all
    let ?P = "cut_front ?h (hd (drop k xs @ [?h])) (pfns s)"
    have lock: "try_lock_free_list i s = Inr (True, s1)"
      using go(2) bit by (simp add: try_lock_free_list_run s1_def)
    have batch: "remove_batch_from_list_head_exclusive ?l 64 s1 =
        Inr ((of_nat k, hd xs), batch_removed ?l xs k s1)"
      using remove_batch_exclusive_run [OF wf1, of 64] small go(1) by (simp add: Let_def k_def)
    define s2 where "s2 = (batch_removed ?l xs k s)\<lparr>spin := after_try (spin s)\<rparr>"
    have unlock: "unlock_free_list i (batch_removed ?l xs k s1) = Inr ((), s2)"
      using i(2) bit
      by (simp add: unlock_free_list_run batch_removed_def s1_def s2_def Let_def bit_locked bit_lock_unlock)
    have p2: "pfns s2 = on_cells (set (take k xs)) locked_pfn ?P" by (simp add: s2_def batch_removed_def Let_def)
    have unl: "on_cells (set (take k xs)) unlocked_pfn (pfns s2) = ?P"
      using locks unfolding p2 by (subst unlock_locked) (auto simp: unlocked_pfns_def pfn_free_def dest: in_set_takeD)
    have len: "length (take k xs) = k" using k(3) by (simp add: k_def)
    have fill: "fill_cache k t 0 (hd xs) s2 =
        Inr ((), (set_cache t (cache_from 0 (take k xs) (free_page_cache (users s2 t))) s2)\<lparr>pfns := ?P\<rparr>)"
    proof -
      have "linked (pfns s2) (take k xs)" unfolding p2 using batch_linked [OF wf_list_dll [OF wf]] by simp
      moreover have "distinct (take k xs)" using dll_distinct [OF wf_list_dll [OF wf]] by simp
      moreover have "\<forall>p \<in> set (take k xs). pfn_ok s2 p \<and> pfn_held s2 p"
      proof
        fix p assume "p \<in> set (take k xs)"
        moreover have "pfn_ok s2 p = pfn_ok s p" by (simp add: s2_def batch_removed_def Let_def)
        ultimately show "pfn_ok s2 p \<and> pfn_held s2 p"
          using wf by (auto simp: pfn_held_def p2 wf_list_def dest: in_set_takeD)
      qed
      moreover have "take k xs \<noteq> []" using k go(1) by (simp add: k_def)
      moreover have "hd xs = hd (take k xs)" using k by (simp add: k_def)
      ultimately show ?thesis
        using fill_cache_run [of s2 "take k xs" 0 "hd xs" t] k(2) unfolding len unl by (simp add: k_def)
    qed
    have "try_refill_cache_from_free_list i t s =
        Inr (True, (refilled ?l t xs k s)\<lparr>spin := after_try (spin s)\<rparr>)"
      using i(1) empty lock batch unlock fill go kw
      by (simp add: try_refill_cache_from_free_list_def prog_simps Let_def
          decrease_free_lists_total_count_def refilled_def s2_def batch_removed_def set_cache_def)
    then show ?thesis using go(1) unfolding k_def by blast
  qed
qed


lemma try_free_lists_run:
  assumes "\<forall>i < unat count. wf_list s (free_list i) (F i) \<and> unlocked_pfns s (set (F i)) \<and>
      length (F i) < 2 ^ 64 \<and> \<not> bit (free_list_locks (free_lists s)) i"
    and "count = number_of_lists (free_lists s)" and "0 < unat count" and "unat count \<le> 64"
    and "idx < count"
  shows "\<exists>m. (try_free_lists n count idx t s = Inr (False, s\<lparr>spin := m\<rparr>) \<and>
        (contention (spin s) = [] \<longrightarrow> contention m = [] \<and> (\<forall>j < n. F ((unat idx + j) mod unat count) = []))) \<or>
     (\<exists>i < unat count. F i \<noteq> [] \<and> try_free_lists n count idx t s =
        Inr (True, (refilled (free_list i) t (F i) (min (length (F i)) 64) s)\<lparr>spin := m\<rparr>))"
  using assms(1,2,5)
proof (induction n arbitrary: s idx)
  case 0
  then show ?case by (intro exI [of _ "spin s"]) (simp add: prog_simps)
next
  case (Suc n)
  have i: "unat idx < unat count" using Suc.prems(3) by (simp add: word_less_nat_alt)
  let ?next = "(idx + 1) mod count"
  have c: "count \<noteq> 0" using assms(3) by auto
  have "unat (idx + 1) = unat idx + 1"
    using i assms(4) by (simp add: unat_word_ariths)
  then have nx: "unat ?next = (unat idx + 1) mod unat count" by (simp add: unat_mod)
  then have nless: "?next < count" using assms(3) by (simp add: word_less_nat_alt)
  obtain m where "(try_refill_cache_from_free_list idx t s = Inr (False, s\<lparr>spin := m\<rparr>) \<and>
        (contention (spin s) = [] \<longrightarrow> F (unat idx) = [] \<and> contention m = [])) \<or>
     (F (unat idx) \<noteq> [] \<and> try_refill_cache_from_free_list idx t s =
        Inr (True, (refilled (free_list (unat idx)) t (F (unat idx)) (min (length (F (unat idx))) 64) s)\<lparr>spin := m\<rparr>))"
    using try_refill_run [of s idx "F (unat idx)" t] Suc.prems i assms(4) by auto
  then consider (no) "try_refill_cache_from_free_list idx t s = Inr (False, s\<lparr>spin := m\<rparr>)"
      "contention (spin s) = [] \<longrightarrow> F (unat idx) = [] \<and> contention m = []"
    | (yes) "F (unat idx) \<noteq> []" "try_refill_cache_from_free_list idx t s =
        Inr (True, (refilled (free_list (unat idx)) t (F (unat idx)) (min (length (F (unat idx))) 64) s)\<lparr>spin := m\<rparr>)"
    by blast
  then show ?case
  proof cases
    case yes
    then have "try_free_lists (Suc n) count idx t s =
        Inr (True, (refilled (free_list (unat idx)) t (F (unat idx)) (min (length (F (unat idx))) 64) s)\<lparr>spin := m\<rparr>)"
      by (simp add: prog_simps)
    then show ?thesis using yes(1) i by blast
  next
    case no
    have step: "try_free_lists (Suc n) count idx t s = try_free_lists n count ?next t (s\<lparr>spin := m\<rparr>)"
      using no(1) c by (simp add: prog_simps checked_mod_def)
    have j: "F ((unat idx + j) mod unat count) = []"
      if "F (unat idx) = []" "\<forall>j < n. F ((unat ?next + j) mod unat count) = []" "j < Suc n" for j
    proof (cases j)
      case (Suc j')
      then have "(unat ?next + j') mod unat count = (unat idx + j) mod unat count"
        unfolding nx by (simp add: mod_add_left_eq)
      then show ?thesis using that(2,3) Suc by auto
    qed (use that(1) i in simp)
    have ref: "(refilled l t xs k (s\<lparr>spin := m\<rparr>))\<lparr>spin := m'\<rparr> = (refilled l t xs k s)\<lparr>spin := m'\<rparr>" for l xs k m'
      by (simp add: refilled_def Let_def)
    show ?thesis
      using Suc.IH [of "s\<lparr>spin := m\<rparr>" ?next] Suc.prems(1,2) nless no(2) j
      unfolding step by (auto simp: ref)
  qed
qed

text \<open>The free lists, as \<open>try_get_free_pages\<close> needs them.\<close>

definition wf_free_lists :: "machine \<Rightarrow> (nat \<Rightarrow> pfn_ptr list) \<Rightarrow> bool" where
  "wf_free_lists s F \<longleftrightarrow> 0 < unat (number_of_lists (free_lists s)) \<and>
     unat (number_of_lists (free_lists s)) \<le> 64 \<and>
     (\<forall>i < unat (number_of_lists (free_lists s)). wf_list s (free_list i) (F i) \<and>
        unlocked_pfns s (set (F i)) \<and> length (F i) < 2 ^ 64 \<and>
        \<not> bit (free_list_locks (free_lists s)) i)"

lemma try_get_free_pages_run:
  assumes "wf_free_lists s F"
  shows "\<exists>m. (try_get_free_pages t s = Inr (False, s\<lparr>spin := m\<rparr>) \<and>
        (contention (spin s) = [] \<and> page_count (free_lists s) \<noteq> 0 \<longrightarrow>
           (\<forall>i < unat (number_of_lists (free_lists s)). F i = []))) \<or>
     (\<exists>i < unat (number_of_lists (free_lists s)). F i \<noteq> [] \<and> try_get_free_pages t s =
        Inr (True, (refilled (free_list i) t (F i) (min (length (F i)) 64) s)\<lparr>spin := m\<rparr>))"
proof (cases "page_count (free_lists s) = 0")
  case True
  then show ?thesis by (intro exI [of _ "spin s"]) (simp add: try_get_free_pages_def prog_simps)
next
  case False
  let ?count = "number_of_lists (free_lists s)" and ?idx = "thread_id (users s t) mod number_of_lists (free_lists s)"
  have c: "?count \<noteq> 0" "0 < unat ?count" using assms by (auto simp: wf_free_lists_def)
  have idx: "unat ?idx = unat (thread_id (users s t)) mod unat ?count" by (simp add: unat_mod)
  then have less: "?idx < ?count" using c by (simp add: word_less_nat_alt)
  have run: "try_get_free_pages t s = try_free_lists (unat ?count) ?count ?idx t s"
    using False c by (simp add: try_get_free_pages_def prog_simps checked_mod_def)
  have all: "F i = []" if "\<forall>j < unat ?count. F ((unat ?idx + j) mod unat ?count) = []" "i < unat ?count" for i
  proof -
    let ?j = "(i + (unat ?count - unat ?idx)) mod unat ?count"
    have "unat ?idx < unat ?count" using less by (simp add: word_less_nat_alt)
    then have "(unat ?idx + ?j) mod unat ?count = i"
      using that(2) by (simp add: mod_add_right_eq)
    then show ?thesis using that(1) c(2) by (metis mod_less_divisor)
  qed
  obtain m where "(try_free_lists (unat ?count) ?count ?idx t s = Inr (False, s\<lparr>spin := m\<rparr>) \<and>
        (contention (spin s) = [] \<longrightarrow> contention m = [] \<and>
          (\<forall>j < unat ?count. F ((unat ?idx + j) mod unat ?count) = []))) \<or>
     (\<exists>i < unat ?count. F i \<noteq> [] \<and> try_free_lists (unat ?count) ?count ?idx t s =
        Inr (True, (refilled (free_list i) t (F i) (min (length (F i)) 64) s)\<lparr>spin := m\<rparr>))"
    using try_free_lists_run [of ?count s F ?idx "unat ?count" t] assms c(2) less
    by (auto simp: wf_free_lists_def)
  then show ?thesis using all unfolding run by (intro exI [of _ m]) blast
qed

lemma find_free_list_run:
  assumes "patience s < fuel" and "count \<noteq> 0" and "idx < count" and "unat count \<le> 64"
    and "\<forall>i < unat count. \<not> bit (free_list_locks (free_lists s)) i"
  shows "\<exists>m i. i < count \<and> find_free_list fuel count idx s =
     Inr (i, s\<lparr>free_lists := (free_lists s)\<lparr>free_list_locks :=
        free_list_locks (free_lists s) OR 2 ^ unat i\<rparr>, spin := m\<rparr>)"
  using assms(1,3,5)
proof (induction fuel arbitrary: s idx)
  case (Suc fuel)
  let ?n = "after_try (spin s)"
  have i: "unat idx < unat count" using Suc.prems(2) by (simp add: word_less_nat_alt)
  have less: "(idx + 1) mod count < count" using assms(2) by (simp add: word_mod_less_divisor word_gt_0)
  show ?case
  proof (cases "next_busy (spin s)")
    case True
    then have "length (contention ?n) < fuel"
      using Suc.prems(1) busy_patience [of "spin s"] unfolding patience_def patience_after by linarith
    then obtain m i where "i < count" "find_free_list fuel count ((idx + 1) mod count) (s\<lparr>spin := ?n\<rparr>) =
       Inr (i, s\<lparr>free_lists := (free_lists s)\<lparr>free_list_locks :=
          free_list_locks (free_lists s) OR 2 ^ unat i\<rparr>, spin := m\<rparr>)"
      using Suc.IH [of "s\<lparr>spin := ?n\<rparr>" "(idx + 1) mod count"] less Suc.prems(3)
      by (auto simp: patience_def)
    then show ?thesis
      using True assms(2) by (intro exI [of _ m] exI [of _ i])
        (simp add: prog_simps try_lock_free_list_run checked_mod_def)
  next
    case False
    then show ?thesis using Suc.prems(2,3) i
      by (intro exI [of _ ?n] exI [of _ idx]) (simp add: prog_simps try_lock_free_list_run)
  qed
qed simp

definition cached :: "nat \<Rightarrow> pfn_ptr \<Rightarrow> machine \<Rightarrow> machine" where
  "cached t p s = s\<lparr>users := (users s)(t := (users s t)\<lparr>
     free_page_cache := (free_page_cache (users s t))(unat (free_page_count (users s t)) := p),
     free_page_count := free_page_count (users s t) + 1\<rparr>)\<rparr>"

lemma add_page_to_cache_run:
  "free_page_count (users s t) < 64 \<Longrightarrow>
   add_page_to_cache_or_free_list p i t s = Inr ((), cached t p s)"
  by (simp add: add_page_to_cache_or_free_list_def prog_simps write_cache_run set_cache_def cached_def
      word_less_nat_alt)

lemma add_page_to_free_list_run:
  assumes "\<not> free_page_count (users s t) < 64" and F: "wf_free_lists s F" and p: "pfn_ok s p"
    and new: "\<forall>j < unat (number_of_lists (free_lists s)). p \<notin> set (head (lists s (free_list j)) # F j)"
  shows "\<exists>m j. j < unat (number_of_lists (free_lists s)) \<and> add_page_to_cache_or_free_list p i t s =
     Inr ((), s\<lparr>pfns := append_page (head (lists s (free_list j))) p (pfns s),
       free_lists := (free_lists s)\<lparr>page_count := page_count (free_lists s) + 1\<rparr>, spin := m\<rparr>)"
proof -
  let ?count = "number_of_lists (free_lists s)"
  have c: "?count \<noteq> 0" "unat ?count \<le> 64" using F by (auto simp: wf_free_lists_def)
  have bits: "\<forall>i < unat ?count. \<not> bit (free_list_locks (free_lists s)) i"
    using F by (simp add: wf_free_lists_def)
  have less: "i mod ?count < ?count" using c(1) by (simp add: word_mod_less_divisor word_gt_0)
  obtain m j where j: "j < ?count" and run: "find_free_list (Suc (patience s)) ?count (i mod ?count) s =
     Inr (j, s\<lparr>free_lists := (free_lists s)\<lparr>free_list_locks :=
        free_list_locks (free_lists s) OR 2 ^ unat j\<rparr>, spin := m\<rparr>)"
    using find_free_list_run [OF _ c(1) less c(2) bits, of "Suc (patience s)"] by auto
  have ju: "unat j < unat ?count" using j by (simp add: word_less_nat_alt)
  let ?h = "head (lists s (free_list (unat j)))"
  have wf: "wf_list s (free_list (unat j)) (F (unat j))" using F ju by (simp add: wf_free_lists_def)
  have h: "pfn_ok s ?h" "pfn_ok s (blink (pfns s ?h))"
    using wf_list_head [OF wf] wf_list_ends(2) [OF wf] dll_ends(2) [OF wf_list_dll [OF wf]] by simp_all
  have "add_page_to_cache_or_free_list p i t s =
     Inr ((), s\<lparr>pfns := append_page ?h p (pfns s),
       free_lists := (free_lists s)\<lparr>page_count := page_count (free_lists s) + 1\<rparr>, spin := m\<rparr>)"
    using assms(1) c run h p ju bits
    by (simp add: add_page_to_cache_or_free_list_def prog_simps checked_mod_def unlock_free_list_run
        bit_locked bit_lock_unlock increment_free_lists_total_count_def)
  then show ?thesis using ju by blast
qed


lemma initialize_page_list_run:
  "initialize_page_list l s = Inr ((), s\<lparr>heads := heads s + 1,
     pfns := (pfns s)(HeadPfn (heads s) := zero_pfn\<lparr>blink := HeadPfn (heads s), flink := HeadPfn (heads s)\<rparr>),
     lists := (lists s)(l := \<lparr>head = HeadPfn (heads s), list_size = 0, shared_holders = 0,
                             held_exclusive = False\<rparr>)\<rparr>)"
  by (simp add: initialize_page_list_def zero_malloc_pfn_def initialize_list_head_def prog_simps
      pfn_ok_def on_cells_def fun_eq_iff)

end
