(* ===== verification/Page_Queue.thy ===== *)
theory Page_Queue
  imports List_Effects
begin

text \<open>
  The contract of a page list: a queue.  Pages go in at the tail; a batch comes off the head, in the
  order of insertion.  The locale states the contract and draws its consequences; the
  interpretation shows that \<open>insert_page_to_tail\<close> and \<open>remove_batch_from_list_head\<close> meet it on
  every list, for every sequence of contentions.
\<close>

section \<open>Queues\<close>

text \<open>\<open>dequeue n\<close> takes at most \<open>n\<close> elements and returns how many and the first one.\<close>

locale batch_queue =
  fixes content :: "'s \<Rightarrow> 'p list \<Rightarrow> bool"
    and fresh :: "'s \<Rightarrow> 'p \<Rightarrow> bool"
    and enqueue :: "'p \<Rightarrow> ('s, unit) prog"
    and dequeue :: "u64 \<Rightarrow> ('s, u64 \<times> 'p) prog"
  assumes enqueue_law: "content s xs \<Longrightarrow> fresh s p \<Longrightarrow> p \<notin> set xs \<Longrightarrow>
      \<exists>t. enqueue p s = Inr ((), t) \<and> content t (xs @ [p]) \<and> (\<forall>q. fresh s q \<longrightarrow> fresh t q)"
    and dequeue_law: "content s xs \<Longrightarrow> xs \<noteq> [] \<Longrightarrow> 0 < unat n \<Longrightarrow>
      \<exists>k t. dequeue n s = Inr ((of_nat k, hd xs), t) \<and> 0 < k \<and> k \<le> length xs \<and> k \<le> unat n \<and>
            content t (drop k xs)"
begin

lemma enqueue_all:
  "content s xs \<Longrightarrow> distinct (xs @ ps) \<Longrightarrow> \<forall>p \<in> set ps. fresh s p \<Longrightarrow>
   \<exists>t. for_each ps enqueue s = Inr ((), t) \<and> content t (xs @ ps)"
proof (induction ps arbitrary: s xs)
  case (Cons p ps)
  obtain t where t: "enqueue p s = Inr ((), t)" "content t (xs @ [p])" "\<forall>q. fresh s q \<longrightarrow> fresh t q"
    using enqueue_law [of s xs p] Cons.prems by auto
  obtain u where "for_each ps enqueue t = Inr ((), u)" "content u ((xs @ [p]) @ ps)"
    using Cons.IH [of t "xs @ [p]"] t Cons.prems by auto
  then show ?case using t(1) by (auto simp: bind_apply)
qed (simp add: prog_simps)

lemma first_in_first_out:
  assumes "content s []" and "distinct ps" and "\<forall>p \<in> set ps. fresh s p" and "ps \<noteq> []" and "0 < unat n"
  shows "\<exists>k t. bind (for_each ps enqueue) (\<lambda>_. dequeue n) s = Inr ((of_nat k, hd ps), t) \<and>
           0 < k \<and> k \<le> length ps \<and> k \<le> unat n \<and> content t (drop k ps)"
proof -
  obtain t where t: "for_each ps enqueue s = Inr ((), t)" "content t ps"
    using enqueue_all [of s "[]" ps] assms by auto
  then show ?thesis using dequeue_law [of t ps n] assms(4,5) by (simp add: bind_apply)
qed

end

lemma dll_cut_take:
  assumes "dll m h xs" and "k \<le> length xs"
  shows "dll (on_cells (set (take k xs)) locked_pfn (cut_front h (hd (drop k xs @ [h])) m)) h (drop k xs)"
  using dll_cut_front [of m h "take k xs" "drop k xs"] assms by simp


section \<open>Page lists as queues\<close>

definition frame_page :: "pfn_ptr \<Rightarrow> bool" where
  "frame_page p = (case p of FramePfn f \<Rightarrow> unat f < 2 ^ 40 | _ \<Rightarrow> False)"

text \<open>List \<open>l\<close> holds \<open>xs\<close> and nobody is at work on it; its counter agrees.\<close>

definition ready :: "list_id \<Rightarrow> machine \<Rightarrow> pfn_ptr list \<Rightarrow> bool" where
  "ready l s xs \<longleftrightarrow> wf_list s l xs \<and> list_free s l \<and>
     unlocked_pfns s (set (head (lists s l) # xs)) \<and> list_size (lists s l) = of_nat (length xs) \<and>
     (\<forall>p \<in> set xs. frame_page p)"

definition insertable :: "list_id \<Rightarrow> machine \<Rightarrow> pfn_ptr \<Rightarrow> bool" where
  "insertable l s p \<longleftrightarrow> pfn_ok s p \<and> pfn_free s p \<and> frame_page p \<and> p \<noteq> head (lists s l)"

lemma frames_bounded:
  assumes "distinct xs" and "\<forall>p \<in> set xs. frame_page p"
  shows "length xs \<le> 2 ^ 40"
proof -
  let ?g = "\<lambda>p. case p of FramePfn f \<Rightarrow> unat f | _ \<Rightarrow> 0"
  have "inj_on ?g (set xs)"
    using assms(2) by (auto simp: inj_on_def frame_page_def word_unat_eq_iff split: pfn_ptr.splits)
  then have "card (set xs) = card (?g ` set xs)" by (simp add: card_image)
  also have "\<dots> \<le> card {..< 2 ^ 40 :: nat}"
    using assms(2) by (intro card_mono) (auto simp: frame_page_def split: pfn_ptr.splits)
  finally show ?thesis using assms(1) by (simp add: distinct_card)
qed

lemma ready_bounded: "ready l s xs \<Longrightarrow> length xs \<le> 2 ^ 40"
  using frames_bounded [of xs] by (auto simp: ready_def wf_list_def dll_def)

lemma ready_insert:
  assumes "ready l s xs" and "insertable l s p" and "p \<notin> set xs"
  shows "ready l (s\<lparr>pfns := append_page (head (lists s l)) p (pfns s),
                    lists := resize l 1 (lists s), spin := m\<rparr>) (xs @ [p])"
  using assms dll_append [of "pfns s" "head (lists s l)" xs p]
  by (auto simp: ready_def insertable_def wf_list_def list_free_def unlocked_pfns_def pfn_free_def)

lemma ready_remove:
  assumes "ready l s xs" and "k \<le> length xs"
  shows "ready l ((batch_removed l xs k s)\<lparr>spin := m\<rparr>) (drop k xs)"
proof -
  let ?h = "head (lists s l)"
  have d: "distinct (?h # take k xs @ drop k xs)" using assms by (simp add: ready_def wf_list_def dll_def)
  then have apart: "q \<notin> set (take k xs)" if "q \<in> set (?h # drop k xs)" for q
    using that set_take_disj_set_drop_if_distinct [of xs k k] by (auto dest: in_set_takeD)
  have "(of_nat (length xs) :: u64) - of_nat k = of_nat (length (drop k xs))"
    using assms(2) by (simp add: of_nat_diff)
  then show ?thesis
    using assms dll_cut_take [of "pfns s" ?h xs k] apart
    by (auto simp: ready_def batch_removed_def Let_def wf_list_def list_free_def unlocked_pfns_def
        pfn_free_def dest: in_set_dropD)
qed

interpretation page_lists: batch_queue
  "ready l" "insertable l" "insert_page_to_tail l" "remove_batch_from_list_head l" for l
proof unfold_locales
  fix s xs p
  assume "ready l s xs" "insertable l s p" "p \<notin> set xs"
  moreover from this obtain m where "insert_page_to_tail l p s =
     Inr ((), s\<lparr>pfns := append_page (head (lists s l)) p (pfns s), lists := resize l 1 (lists s), spin := m\<rparr>)"
    using insert_page_to_tail_run [of s l xs p] by (auto simp: ready_def insertable_def)
  moreover have "insertable l (s\<lparr>pfns := append_page (head (lists s l)) p (pfns s),
        lists := resize l 1 (lists s), spin := m\<rparr>) q" if "insertable l s q" for q
    using that by (simp add: insertable_def pfn_free_def)
  ultimately show "\<exists>t. insert_page_to_tail l p s = Inr ((), t) \<and> ready l t (xs @ [p]) \<and>
      (\<forall>q. insertable l s q \<longrightarrow> insertable l t q)"
    using ready_insert by blast
next
  fix s xs and n :: u64
  assume r: "ready l s xs" "xs \<noteq> []" "0 < unat n"
  have "length xs < 2 ^ 64" using ready_bounded [OF r(1)] by simp
  then obtain k m where "0 < k" "k \<le> length xs" "k \<le> unat n"
    "remove_batch_from_list_head l n s = Inr ((of_nat k, hd xs), (batch_removed l xs k s)\<lparr>spin := m\<rparr>)"
    using remove_batch_from_list_head_run [of s l xs n] r by (auto simp: ready_def)
  then show "\<exists>k t. remove_batch_from_list_head l n s = Inr ((of_nat k, hd xs), t) \<and>
      0 < k \<and> k \<le> length xs \<and> k \<le> unat n \<and> ready l t (drop k xs)"
    using ready_remove [OF r(1)] by blast
qed


section \<open>Properties\<close>

text \<open>A machine with two frames, 1 and 2, and the modified list initialised.\<close>

definition blank :: machine where
  "blank = \<lparr>vm = zero_vm\<lparr>max_frame_number := 2, min_frame_number := 1, allocated_frame_numbers := [1, 2]\<rparr>,
     stats = zero_stats, pf = zero_pf, ptes = (\<lambda>_. zero_pte), pfns = (\<lambda>_. zero_pfn),
     committed = (\<lambda>f. f = 1 \<or> f = 2), heads = 0,
     lists = (\<lambda>_. \<lparr>head = NullPfn, list_size = 0, shared_holders = 0, held_exclusive = False\<rparr>),
     free_lists = \<lparr>low_list_bitmap = 0, number_of_lists = 0, page_count = 0, free_list_locks = 0\<rparr>,
     events = (\<lambda>_. False), va_map = (\<lambda>_. None), ram = (\<lambda>_. zero_page),
     users = (\<lambda>_. \<lparr>thread_id = 0, kernel_va_index = 0, kernel_va_space = 0, random_seed = 0,
                    free_page_cache = (\<lambda>_. NullPfn), free_page_count = 0\<rparr>),
     pte_to_trim = 0, ticks = 0, spin = \<lparr>contention = [True, False, True], yields = 0\<rparr>\<rparr>"

definition list_made :: "list_id \<Rightarrow> machine \<Rightarrow> machine" where
  "list_made l s = s\<lparr>heads := heads s + 1,
     pfns := (pfns s)(HeadPfn (heads s) := zero_pfn\<lparr>blink := HeadPfn (heads s), flink := HeadPfn (heads s)\<rparr>),
     lists := (lists s)(l := \<lparr>head = HeadPfn (heads s), list_size = 0, shared_holders = 0,
                             held_exclusive = False\<rparr>)\<rparr>"

lemma lock_of_zero: "lock_of (zero_pfn\<lparr>blink := a, flink := b\<rparr>) = 0" "lock_of zero_pfn = 0"
  by (simp_all add: lock_of_def zero_pfn_def pfn_field_defs get_bits_def)

lemma list_made_ready: "ready l (list_made l s) []"
  by (simp add: ready_def list_made_def wf_list_def dll_Nil pfn_ok_def list_free_def unlocked_pfns_def
      pfn_free_def lock_of_zero)

lemma blank_insertable:
  "insertable l (list_made l blank) (FramePfn 1)" "insertable l (list_made l blank) (FramePfn 2)"
  by (simp_all add: insertable_def list_made_def blank_def pfn_ok_def pfn_free_def lock_of_zero frame_page_def)

text \<open>
  C12: a page list is a queue.  Pages inserted at the tail of an empty list come off its head in the
  order of insertion: a batch starts with the first page inserted, holds at least one page and at
  most \<open>capacity\<close>, and what is left on the list is the rest, in order.  Contentions on any lock
  along the way may shorten the batch, and nothing else.
\<close>

theorem page_list_is_fifo:
  assumes "ready l s []" and "distinct ps" and "\<forall>p \<in> set ps. insertable l s p" and "ps \<noteq> []"
    and "0 < unat capacity"
  shows "\<exists>k t. bind (for_each ps (insert_page_to_tail l)) (\<lambda>_. remove_batch_from_list_head l capacity) s =
           Inr ((of_nat k, hd ps), t) \<and> 0 < k \<and> k \<le> length ps \<and> k \<le> unat capacity \<and>
           ready l t (drop k ps)"
  using assms by (rule page_lists.first_in_first_out)

lemma page_list_is_fifo_witness:
  "\<exists>k t. bind (for_each [FramePfn 2, FramePfn 1] (insert_page_to_tail modified_list))
       (\<lambda>_. remove_batch_from_list_head modified_list 16) (list_made modified_list blank) =
     Inr ((of_nat k, FramePfn 2), t) \<and> 0 < k \<and> k \<le> 2 \<and>
     ready modified_list t (drop k [FramePfn 2, FramePfn 1])"
proof -
  obtain k t where *: "bind (for_each [FramePfn 2, FramePfn 1] (insert_page_to_tail modified_list))
       (\<lambda>_. remove_batch_from_list_head modified_list 16) (list_made modified_list blank) =
     Inr ((of_nat k, FramePfn 2), t)" "0 < k" "k \<le> 2"
     "ready modified_list t (drop k [FramePfn 2, FramePfn 1])"
    using page_list_is_fifo [OF list_made_ready [of modified_list blank], of "[FramePfn 2, FramePfn 1]" 16]
      blank_insertable by auto
  show ?thesis by (rule exI [of _ k], rule exI [of _ t]) (intro conjI *)
qed


lemma two_pages_ready:
  "\<exists>s. ready l s [FramePfn 2, FramePfn 1]"
  using page_lists.enqueue_all [of l "list_made l blank" "[]" "[FramePfn 2, FramePfn 1]"]
    list_made_ready blank_insertable by auto


text \<open>
  C25: appending the pages of one list to another (the trimmer to the modified list, the writer to
  the standby list) is one splice: afterwards the destination holds its own pages followed by the
  new ones.
\<close>

theorem append_list_concatenates:
  assumes "ready l s xs" and "wf_list s k ys" and "ys \<noteq> []"
    and "set (head (lists s l) # xs) \<inter> set (head (lists s k) # ys) = {}"
  shows "\<exists>t. insert_list_to_tail_list l k s = Inr ((), t) \<and> wf_list t l (xs @ ys) \<and> list_free t l \<and>
           (\<forall>q. lock_of (pfns t q) = lock_of (pfns s q)) \<and>
           (\<forall>q. q \<notin> set (head (lists s l) # xs @ ys) \<longrightarrow> pfns t q = pfns s q)"
proof -
  have r: "wf_list s l xs" "list_free s l" "unlocked_pfns s (set (head (lists s l) # xs))"
    using assms(1) by (simp_all add: ready_def)
  obtain m where m: "insert_list_to_tail_list l k s =
     Inr ((), s\<lparr>pfns := append_list (head (lists s l)) (hd ys) (last ys) (pfns s), spin := m\<rparr>)"
    using insert_list_to_tail_list_run [OF r assms(2-4)] ..
  have "append_list (head (lists s l)) (hd ys) (last ys) (pfns s) q = pfns s q"
    if "q \<notin> set (head (lists s l) # xs @ ys)" for q
    using that assms(3) by (intro append_list_other [OF wf_list_dll [OF r(1)]]) auto
  then show ?thesis
    using m r(2) assms(2) dll_append_list [OF wf_list_dll [OF r(1)] wf_list_dll [OF assms(2)] assms(3,4)] r(1)
    by (auto simp: wf_list_def list_free_def)
qed

lemma prepared_batch:
  "\<exists>s. ready modified_list s [] \<and> wf_list s (temp_list 0) [FramePfn 2, FramePfn 1] \<and>
     head (lists s modified_list) = HeadPfn 1 \<and> head (lists s (temp_list 0)) = HeadPfn 0"
proof -
  let ?s = "list_made modified_list (list_made (temp_list 0) blank)"
  let ?t = "?s\<lparr>pfns := append_page (HeadPfn 0) (FramePfn 1) (append_page (HeadPfn 0) (FramePfn 2) (pfns ?s))\<rparr>"
  have h: "head (lists ?s (temp_list 0)) = HeadPfn 0" "head (lists ?s modified_list) = HeadPfn 1"
    by (simp_all add: list_made_def blank_def)
  have d: "dll (pfns ?s) (HeadPfn 0) []" "dll (pfns ?s) (HeadPfn 1) []"
    by (simp_all add: dll_Nil list_made_def blank_def)
  have d0: "dll (pfns ?t) (HeadPfn 0) [FramePfn 2, FramePfn 1]"
    using dll_append [OF dll_append [OF d(1)], of "FramePfn 2" "FramePfn 1"] by simp
  have "pfns ?t (HeadPfn 1) = pfns ?s (HeadPfn 1)"
    using append_page_other [OF d(1), of "HeadPfn 1" "FramePfn 2"]
      append_page_other [OF dll_append [OF d(1)], of "FramePfn 2" "HeadPfn 1" "FramePfn 1"] by simp
  then have d1: "dll (pfns ?t) (HeadPfn 1) []" using d(2) by (simp add: dll_Nil)
  have wf: "wf_list ?t (temp_list 0) [FramePfn 2, FramePfn 1]"
    using d0 h by (simp add: wf_list_def pfn_ok_def list_made_def blank_def)
  have "ready modified_list ?t []"
    using d1 h by (simp add: ready_def wf_list_def pfn_ok_def list_free_def unlocked_pfns_def pfn_free_def)
      (simp add: list_made_def blank_def lock_of_zero)
  then show ?thesis using wf h by (intro exI [of _ ?t]) simp
qed

lemma append_list_concatenates_witness:
  "\<exists>s t. wf_list s (temp_list 0) [FramePfn 2, FramePfn 1] \<and>
     insert_list_to_tail_list modified_list (temp_list 0) s = Inr ((), t) \<and>
     wf_list t modified_list [FramePfn 2, FramePfn 1]"
proof -
  obtain s where s: "ready modified_list s []" "wf_list s (temp_list 0) [FramePfn 2, FramePfn 1]"
    "head (lists s modified_list) = HeadPfn 1" "head (lists s (temp_list 0)) = HeadPfn 0"
    using prepared_batch by blast
  obtain t where t: "insert_list_to_tail_list modified_list (temp_list 0) s = Inr ((), t)"
    "wf_list t modified_list [FramePfn 2, FramePfn 1]"
    using append_list_concatenates [OF s(1,2)] s by auto
  show ?thesis using s(2) t by (intro exI [of _ s] exI [of _ t]) simp
qed

end
