(* ===== verification/Fault_Handler.thy ===== *)
theory Fault_Handler
  imports Page_Queue
begin

text \<open>
  threads/page_fault_handler.c.  A fault on a page whose frame is still around (modified, standby or
  being written) is soft: the page goes back to its owner.  Any other fault is hard: a free frame is
  obtained, from the thread's cache, a free list or the standby list, and filled with zeroes or from
  the page file.

  \<open>resolve_soft_fault\<close> and \<open>resolve_hard_fault\<close> are cut where another thread can change what they
  have read (before the descriptor lock, and between mapping a page and filling it), so that the
  parts can be interleaved with the steps of other threads.
\<close>

definition get_beginning_of_VA_region :: "u64 \<Rightarrow> u64" where
  "get_beginning_of_VA_region va = va AND NOT (PAGE_SIZE - 1)"

text \<open>With \<open>DEBUG\<close> off nothing is validated.\<close>

definition validate_page :: "u64 \<Rightarrow> bool mm" where
  "validate_page va = return True"

definition va_faults_on_access :: "u64 \<Rightarrow> bool" where
  "va_faults_on_access pte \<longleftrightarrow> get_valid pte = PTE_INVALID"

definition count_soft :: "unit mm" where
  "count_soft = on_stats (n_soft_update (\<lambda>n. n + 1))"

definition count_hard :: "unit mm" where
  "count_hard = on_stats (n_hard_update (\<lambda>n. n + 1))"


section \<open>Soft faults\<close>

text \<open>
  Up to the descriptor lock: the entry is locked and its descriptor found; \<open>None\<close> if the entry is no
  longer in transition.
\<close>

definition soft_fault_find_page :: "nat \<Rightarrow> pfn_ptr option mm" where
  "soft_fault_find_page pte =
     bind (lock_pte pte) (\<lambda>_. bind (read_pte pte) (\<lambda>pte_snapshot.
     if \<not> IS_PTE_TRANSITION pte_snapshot then block_return [unlock_pte pte] None
     else bind (gets (\<lambda>s. get_PFN_from_PTE (vm s) pte_snapshot)) (\<lambda>r.
       bind (lift_result r) (\<lambda>available_pfn.
       if available_pfn = NullPfn then
         bind (read_pte pte) (\<lambda>word.
         block_return [assert_that (IS_PTE_ON_DISK word), unlock_pte pte] None)
       else return (Some available_pfn)))))"

text \<open>The page leaves the modified or the standby list; a standby page gives its disk slot back.\<close>

definition leave_list :: "pfn_ptr \<Rightarrow> unit mm" where
  "leave_list available_pfn =
     bind (read_pfn available_pfn) (\<lambda>q.
     if \<not> IS_PFN_MID_WRITE q \<and> \<not> IS_PFN_MID_TRIM q then
       if IS_PFN_MODIFIED q then block
         [signal_event_if_list_is_about_to_run_low modified_list initiate_trimming_event
            TRIMMING_THREAD_ID LOW_PAGE_THRESHOLD,
          remove_page_on_soft_fault modified_list available_pfn]
       else block
         [assert_that (IS_PFN_STANDBY q),
          on_disk (clear_disk_slot (slot_of q)),
          signal_event_if_list_is_about_to_run_low standby_list initiate_writing_event
            WRITING_THREAD_ID LOW_PAGE_THRESHOLD,
          remove_page_on_soft_fault standby_list available_pfn]
     else return ())"

text \<open>From the descriptor lock on.\<close>

definition soft_fault_with_page :: "os \<Rightarrow> nat \<Rightarrow> pfn_ptr \<Rightarrow> bool mm" where
  "soft_fault_with_page w pte available_pfn =
     bind (lock_pfn available_pfn) (\<lambda>_. bind (read_pte pte) (\<lambda>word.
     if IS_PTE_ON_DISK word then block_return [unlock_pfn available_pfn, unlock_pte pte] False
     else bind (read_pfn available_pfn) (\<lambda>q. block_return
       [assert_that (IS_PTE_TRANSITION word),
        assert_that (\<not> IS_PFN_ACTIVE q \<and> \<not> IS_PFN_FREE q),
        leave_list available_pfn,
        map_single_page_from_pte w pte,
        update_pfn available_pfn (set_PFN_active pte),
        write_pte pte (\<lambda>e. set_PTE_to_valid (get_frame_number e) e),
        unlock_pfn available_pfn,
        unlock_pte pte,
        count_soft]
       True)))"

definition resolve_soft_fault :: "os \<Rightarrow> nat \<Rightarrow> bool mm" where
  "resolve_soft_fault w pte = bind (soft_fault_find_page pte) (\<lambda>r. case r of
       None \<Rightarrow> return False
     | Some available_pfn \<Rightarrow> soft_fault_with_page w pte available_pfn)"


section \<open>A page for a hard fault\<close>

definition acquire_free_page :: "nat \<Rightarrow> pfn_ptr option mm" where
  "acquire_free_page t =
     bind (gets (\<lambda>s. free_page_count (users s t))) (\<lambda>count.
     bind (if count = 0 then try_get_free_pages t else return True) (\<lambda>ok.
     if \<not> ok then return None
     else bind (gets (\<lambda>s. free_page_count (users s t) - 1)) (\<lambda>count.
       bind (check_access (unat count < unat FREE_PAGE_CACHE_SIZE)) (\<lambda>_.
       bind (gets (\<lambda>s. free_page_cache (users s t) (unat count))) (\<lambda>page.
       block_return
         [on_user t (free_page_count_update (\<lambda>_. count)),
          lock_pfn page]
         (Some page))))))"

text \<open>The previous owner of every page of the batch is mapped to the disk.\<close>

primrec take_from_owners :: "nat \<Rightarrow> nat \<Rightarrow> nat \<Rightarrow> pfn_ptr \<Rightarrow> unit mm" where
  "take_from_owners 0 t i pfn = return ()"
| "take_from_owners (Suc n) t i pfn =
     bind (read_pfn pfn) (\<lambda>q. case PTE q of
       None \<Rightarrow> raise AccessViolation
     | Some old_pte \<Rightarrow>
         bind (write_pte old_pte (map_pte_to_disk (slot_of q))) (\<lambda>_.
         bind (write_cache t i pfn) (\<lambda>_.
         bind (read_flink pfn) (\<lambda>next_pfn.
         bind (update_pfn pfn set_PFN_free) (\<lambda>_.
         bind (unlock_pfn pfn) (\<lambda>_.
         take_from_owners n t (i + 1) next_pfn))))))"

definition move_batch_from_standby_to_cache :: "nat \<Rightarrow> bool mm" where
  "move_batch_from_standby_to_cache t =
     bind (remove_batch_from_list_head standby_list (ucast (FREE_PAGE_CACHE_SIZE div 4))) (\<lambda>(num, pfn).
     let batch_size = ucast num :: u16 in
     bind (signal_event_if_list_is_about_to_run_low standby_list initiate_writing_event
            WRITING_THREAD_ID LOW_PAGE_THRESHOLD) (\<lambda>_.
     if batch_size = 0 then return False
     else bind (take_from_owners (unat batch_size) t 0 pfn) (\<lambda>_.
       bind (gets (\<lambda>s. free_page_count (users s t))) (\<lambda>count.
       block_return
         [assert_that (count = 0),
          on_user t (free_page_count_update (\<lambda>_. batch_size))]
         True))))"

text \<open>
  The loop that looks for a page.  A batch from standby fills the cache, so two rounds are enough.
\<close>

primrec obtain_free_page :: "nat \<Rightarrow> nat \<Rightarrow> pfn_ptr option mm" where
  "obtain_free_page 0 t = raise SpinForever"
| "obtain_free_page (Suc fuel) t =
     bind (acquire_free_page t) (\<lambda>r. case r of
       Some page \<Rightarrow> return (Some page)
     | None \<Rightarrow> bind (move_batch_from_standby_to_cache t) (\<lambda>ok.
         if ok then obtain_free_page fuel t
         else block_return [ResetEvent standby_pages_ready_event] None))"


section \<open>Hard faults\<close>

text \<open>Nothing to be had: the trimmer is called and the thread waits for standby pages.\<close>

definition wait_for_pages :: "os \<Rightarrow> bool mm" where
  "wait_for_pages w =
     bind (SetEvent initiate_trimming_event) (\<lambda>_.
     bind (get_timestamp w) (\<lambda>start.
     bind (WaitForSingleObject w standby_pages_ready_event) (\<lambda>_.
     bind (get_timestamp w) (\<lambda>end_time.
     block_return
       [on_stats (wait_time_total_update (\<lambda>n. n + (end_time - start))),
        on_stats (hard_faults_missed_update (\<lambda>n. n + 1))]
       False))))"

definition unmap_and_reset_all_kernal_va_for_this_thread :: "os \<Rightarrow> nat \<Rightarrow> unit mm" where
  "unmap_and_reset_all_kernal_va_for_this_thread w t =
     bind (gets (\<lambda>s. users s t)) (\<lambda>u.
     if kernel_va_index u \<noteq> NUM_KERNEL_READ_ADDRESSES then return ()
     else let VAs_to_unmap = pages_from (kernel_va_space u) (unat NUM_KERNEL_READ_ADDRESSES) in
       bind (gets va_map) (\<lambda>m.
       case MapUserPhysicalPagesScatter w VAs_to_unmap None m of
         None \<Rightarrow> raise DebugBreakHit
       | Some m' \<Rightarrow> block
           [modify (\<lambda>s. s\<lparr>va_map := m'\<rparr>),
            on_user t (kernel_va_index_update (\<lambda>_. 0))]))"

text \<open>The fault turned out to be resolved, or the entry is locked: the page goes back.\<close>

definition give_page_back :: "nat \<Rightarrow> pfn_ptr \<Rightarrow> bool mm" where
  "give_page_back t available_pfn =
     bind (gets (\<lambda>s. thread_id (users s t))) (\<lambda>id.
     block_return
       [add_page_to_cache_or_free_list available_pfn id t,
        increment_available_count,
        update_pfn available_pfn set_PFN_free,
        unlock_pfn available_pfn]
       False)"

text \<open>Both addresses are mapped to the frame: the one the disk is read through and the user's.\<close>

definition map_for_hard_fault :: "os \<Rightarrow> nat \<Rightarrow> nat \<Rightarrow> u64 \<Rightarrow> u64 \<Rightarrow> unit mm" where
  "map_for_hard_fault w t pte kernel_read_va frame_number_to_map =
     bind (gets (\<lambda>s. get_VA_from_PTE (vm s) pte)) (\<lambda>r. bind (lift_result r) (\<lambda>va.
     block [map_both_va_to_same_page w kernel_read_va va frame_number_to_map,
            on_user t (kernel_va_index_update (\<lambda>n. n + 1))]))"

text \<open>The content of the page: read back from the page file, or zeroed.\<close>

definition fill_page :: "nat \<Rightarrow> u64 \<Rightarrow> unit mm" where
  "fill_page pte kernel_read_va =
     bind (read_pte pte) (\<lambda>word.
     if IS_PTE_ON_DISK word then
       let disk_slot = get_disk_index word in
       bind (on_disk (get_page_file_offset disk_slot)) (\<lambda>i.
       bind (gets (\<lambda>s. page_file (pf s) i)) (\<lambda>content.
       block [write_page kernel_read_va content,
              on_disk (clear_disk_slot disk_slot)]))
     else block [assert_that (IS_PTE_ZEROED word),
                 write_page kernel_read_va zero_page])"

definition finish_hard_fault :: "os \<Rightarrow> nat \<Rightarrow> nat \<Rightarrow> pfn_ptr \<Rightarrow> u64 \<Rightarrow> bool mm" where
  "finish_hard_fault w t pte available_pfn frame_number_to_map = block_return
     [write_pte pte (set_PTE_to_valid frame_number_to_map),
      update_pfn available_pfn (set_PFN_active pte),
      unlock_pfn available_pfn,
      unlock_pte pte,
      count_hard,
      unmap_and_reset_all_kernal_va_for_this_thread w t]
     True"

text \<open>With a locked page in hand.\<close>

definition hard_fault_with_page :: "os \<Rightarrow> nat \<Rightarrow> nat \<Rightarrow> pfn_ptr \<Rightarrow> bool mm" where
  "hard_fault_with_page w pte t available_pfn =
     bind (gets (\<lambda>s. users s t)) (\<lambda>u.
     bind (assert_that (kernel_va_index u < NUM_KERNEL_READ_ADDRESSES)) (\<lambda>_.
     let kernel_read_va = kernel_va_space u + ucast (kernel_va_index u) * PAGE_SIZE in
     bind (gets (\<lambda>s. get_frame_from_PFN (vm s) available_pfn)) (\<lambda>r.
     bind (lift_result r) (\<lambda>frame_number_to_map.
     bind (try_lock_pte pte) (\<lambda>pte_lock_acquired.
     bind (read_pte pte) (\<lambda>word.
     if \<not> pte_lock_acquired \<or> IS_PTE_VALID word \<or> IS_PTE_TRANSITION word then
       bind (run_if pte_lock_acquired (unlock_pte pte)) (\<lambda>_. give_page_back t available_pfn)
     else bind (map_for_hard_fault w t pte kernel_read_va frame_number_to_map) (\<lambda>_.
       bind (fill_page pte kernel_read_va) (\<lambda>_.
       finish_hard_fault w t pte available_pfn frame_number_to_map))))))))"

definition resolve_hard_fault :: "os \<Rightarrow> nat \<Rightarrow> nat \<Rightarrow> bool mm" where
  "resolve_hard_fault w pte t =
     bind (obtain_free_page 2 t) (\<lambda>r. case r of
       None \<Rightarrow> wait_for_pages w
     | Some available_pfn \<Rightarrow> hard_fault_with_page w pte t available_pfn)"


section \<open>The handler\<close>

text \<open>Rounds of the handler; the result tells whether the fault is resolved.\<close>

primrec fault_rounds :: "nat \<Rightarrow> os \<Rightarrow> nat \<Rightarrow> nat \<Rightarrow> bool mm" where
  "fault_rounds 0 w pte t = raise SpinForever"
| "fault_rounds (Suc fuel) w pte t =
     bind (read_pte pte) (\<lambda>word.
     if IS_PTE_VALID word then return True
     else if IS_PTE_TRANSITION word then
       bind (resolve_soft_fault w pte) (\<lambda>ok.
       if ok then return True else fault_rounds fuel w pte t)
     else if \<not> IS_PTE_ON_DISK word \<and> \<not> IS_PTE_ZEROED word then fault_rounds fuel w pte t
     else bind (resolve_hard_fault w pte t) (\<lambda>ok.
       if ok then return True else fault_rounds fuel w pte t))"

definition page_fault_handler :: "nat \<Rightarrow> os \<Rightarrow> u64 \<Rightarrow> nat \<Rightarrow> bool mm" where
  "page_fault_handler fuel w faulting_va t =
     bind (gets vm) (\<lambda>v.
     if faulting_va < application_va_base v \<or>
        application_va_base v + va_size_in_pointers v * BYTES_PER_VA \<le> faulting_va then return False
     else bind (lift_result (get_PTE_from_VA v faulting_va)) (\<lambda>pte. fault_rounds fuel w pte t))"

end
