(* ===== verification/Scheduler.thy ===== *)
theory Scheduler
  imports Page_Queue
begin

text \<open>
  threads/scheduler.c and part of threads/threads.c: the exponentially weighted average of a worker's run
  time and the rate at which hard faults consume pages.
\<close>

section \<open>Run times\<close>

definition update_estimate :: "rat \<Rightarrow> rat \<Rightarrow> rat" where
  "update_estimate previous_estimate most_recent_job_time =
     (1 - EWMA_SMOOTHING_FACTOR) * previous_estimate + EWMA_SMOOTHING_FACTOR * most_recent_job_time"

definition update_estimated_job_time :: "nat \<Rightarrow> rat \<Rightarrow> unit mm" where
  "update_estimated_job_time worker most_recent_job_time = on_stats (\<lambda>t.
     t\<lparr>worker_runtimes := (worker_runtimes t)(worker :=
        update_estimate (worker_runtimes t worker) most_recent_job_time)\<rparr>)"


section \<open>The scheduler\<close>

text \<open>The local variables of \<open>schedule_tasks\<close> from one round to the next.\<close>

record schedule_state =
  current_timestamp :: u64
  current_hard_fault_count :: u64

definition schedule_round :: "os \<Rightarrow> schedule_state \<Rightarrow> schedule_state mm" where
  "schedule_round w st =
     bind (get_timestamp w) (\<lambda>now.
     bind (get_time_difference now (current_timestamp st)) (\<lambda>elapsed.
     bind (gets (\<lambda>s. n_hard (stats s))) (\<lambda>hard.
     bind (gets (\<lambda>s. page_consumption_per_second (stats s))) (\<lambda>rate.
     let rate = (if current_hard_fault_count st < hard
                 then of_nat (unat (hard - current_hard_fault_count st)) / elapsed else rate) in
     block_return
       [on_stats (page_consumption_per_second_update (\<lambda>_. rate))]
       \<lparr>current_timestamp = now, current_hard_fault_count = hard\<rparr>))))"

end
