(* ===== verification/Trimmer.thy ===== *)
theory Trimmer
  imports Fault_Handler Scheduler
begin

text \<open>
  threads/trimmer.c: takes active pages from their owners.  A batch is collected walking the page
  table; every page of it stays locked until the whole batch is on the modified list.
\<close>

definition check_to_start_writer :: "unit mm" where
  "check_to_start_writer =
     bind (get_size standby_list) (\<lambda>n.
     run_if (unat n < nat (LOW_PAGE_THRESHOLD div 8)) (SetEvent initiate_writing_event))"

text \<open>One entry of the walk: the page and its address if it was trimmed.\<close>

definition trim_entry :: "nat \<Rightarrow> (pfn_ptr \<times> u64) option mm" where
  "trim_entry pte =
     bind (read_pte pte) (\<lambda>word.
     if \<not> IS_PTE_VALID word then return None
     else if IS_PTE_ACCESSED word then bind (lift_result (clear_accessed_bit word)) (\<lambda>new.
       block_return [write_pte pte (\<lambda>_. new)] None)
     else bind (try_lock_pte pte) (\<lambda>ok.
       if \<not> ok then return None
       else bind (read_pte pte) (\<lambda>word.
         bind (gets (\<lambda>s. get_PFN_from_PTE (vm s) word)) (\<lambda>r. bind (lift_result r) (\<lambda>pfn.
         bind (block [lock_pfn pfn, write_pte pte set_PTE_to_transition, unlock_pte pte]) (\<lambda>_.
         bind (gets (\<lambda>s. get_VA_from_PTE (vm s) pte)) (\<lambda>r. bind (lift_result r) (\<lambda>va.
         return (Some (pfn, va))))))))))"

definition next_pte :: "vm_state \<Rightarrow> nat \<Rightarrow> nat" where
  "next_pte v pte = (if pte + 1 = unat (num_ptes v) then 0 else pte + 1)"

text \<open>The walk; \<open>n\<close> attempts are left.  Returns the last entry visited and the batch.\<close>

primrec trim_walk :: "nat \<Rightarrow> nat \<Rightarrow> (pfn_ptr \<times> u64) list \<Rightarrow> (nat \<times> (pfn_ptr \<times> u64) list) mm" where
  "trim_walk 0 pte batch = return (pte, batch)"
| "trim_walk (Suc n) pte batch =
     (if unat MAX_TRIM_BATCH_SIZE \<le> length batch then return (pte, batch)
      else bind (gets (\<lambda>s. next_pte (vm s) pte)) (\<lambda>pte.
        bind (trim_entry pte) (\<lambda>r. case r of
          None \<Rightarrow> trim_walk n pte batch
        | Some page \<Rightarrow> trim_walk n pte (batch @ [page]))))"

text \<open>The loop that unlocks a batch, following the links.\<close>

primrec unlock_batch :: "nat \<Rightarrow> pfn_ptr \<Rightarrow> unit mm" where
  "unlock_batch 0 pfn = return ()"
| "unlock_batch (Suc n) pfn =
     bind (read_flink pfn) (\<lambda>next_pfn. bind (unlock_pfn pfn) (\<lambda>_. unlock_batch n next_pfn))"

definition collect_trimmed :: "list_id \<Rightarrow> pfn_ptr list \<Rightarrow> unit mm" where
  "collect_trimmed l trimmed_pages = for_each trimmed_pages (\<lambda>pfn. block
     [update_pfn pfn (SET_PFN_STATUS PFN_MODIFIED), insert_to_list_tail l pfn])"

text \<open>The batch, unmapped, goes to the modified list.\<close>

definition trim_finish :: "os \<Rightarrow> nat \<Rightarrow> (pfn_ptr \<times> u64) list \<Rightarrow> u64 mm" where
  "trim_finish w pte batch =
     (let trim_batch_size = of_nat (length batch) :: u64; l = temp_list TRIMMING_THREAD_ID in
     if batch = [] then block_return [check_to_start_writer] 0
     else bind (gets va_map) (\<lambda>m.
       case MapUserPhysicalPagesScatter w (map snd batch) None m of
         None \<Rightarrow> raise DebugBreakHit
       | Some m' \<Rightarrow>
           bind (block
             [modify (\<lambda>s. s\<lparr>va_map := m'\<rparr>),
              modify (\<lambda>s. s\<lparr>pte_to_trim := pte\<rparr>),
              initialize_page_list l,
              collect_trimmed l (map fst batch),
              insert_list_to_tail_list modified_list l,
              change_list_size modified_list trim_batch_size]) (\<lambda>_.
           bind (list_head l) (\<lambda>h. bind (read_flink h) (\<lambda>pfn.
           block_return [unlock_batch (length batch) pfn, check_to_start_writer] trim_batch_size)))))"

definition trim_pages :: "os \<Rightarrow> u64 mm" where
  "trim_pages w =
     bind (gets pte_to_trim) (\<lambda>pte.
     bind (trim_walk (unat MAX_TRIM_ATTEMPTS) pte []) (\<lambda>(pte, batch). trim_finish w pte batch))"

text \<open>What the trimming thread does before its loop, and one turn of it after its event has fired.\<close>

definition start_trimmer :: "unit mm" where
  "start_trimmer = modify (\<lambda>s. s\<lparr>pte_to_trim := 0\<rparr>)"

definition trim_turn :: "os \<Rightarrow> unit mm" where
  "trim_turn w =
     bind (ResetEvent initiate_trimming_event) (\<lambda>_.
     bind (get_timestamp w) (\<lambda>start.
     bind (trim_pages w) (\<lambda>batch_size.
     bind (get_timestamp w) (\<lambda>end_time.
     bind (get_time_difference end_time start) (\<lambda>difference.
     update_estimated_job_time TRIMMING_THREAD_ID difference)))))"

end
