(* ===== verification/Writer.thy ===== *)
theory Writer
  imports Trimmer
begin

text \<open>
  threads/writer.c: copies modified pages to the page file and makes them standby.  The pages of a
  batch are taken off the modified list, marked mid-write and unlocked, so that they can be faulted
  back while they are being written; such a page is left to its owner and its disk slot given back.
\<close>

section \<open>Slots and pages for a batch\<close>

text \<open>How many pages this batch aims at; zero if no slots can be had.\<close>

definition write_target :: "u64 mm" where
  "write_target =
     bind (get_size modified_list) (\<lambda>approx_num_mod_pages.
     bind (gets (\<lambda>s. empty_disk_slots (pf s))) (\<lambda>empty.
     if sint empty < sint MIN_WRITE_BATCH_SIZE then return 0
     else let target_page_count = min MAX_WRITE_BATCH_SIZE approx_num_mod_pages in
     bind (gets (\<lambda>s. num_stashed_slots (pf s))) (\<lambda>n.
     bind (gets vm) (\<lambda>v.
     bind (run_if (n < target_page_count) (on_disk (set_and_add_slots_to_stack v target_page_count))) (\<lambda>_.
     bind (gets (\<lambda>s. num_stashed_slots (pf s))) (\<lambda>n.
     if sint n < sint MIN_WRITE_BATCH_SIZE then return 0
     else return (min n target_page_count)))))))"

text \<open>The pages of a batch become mid-write and are unlocked.\<close>

primrec mark_mid_write :: "nat \<Rightarrow> pfn_ptr \<Rightarrow> pfn_ptr list mm" where
  "mark_mid_write 0 pfn = return []"
| "mark_mid_write (Suc n) pfn =
     bind (update_pfn pfn set_pfn_mid_write) (\<lambda>_.
     bind (read_flink pfn) (\<lambda>next_pfn.
     bind (unlock_pfn pfn) (\<lambda>_.
     bind (mark_mid_write n next_pfn) (\<lambda>rest. return (pfn # rest)))))"

text \<open>
  The loop that fills the batch.  Every round takes a page or counts a miss, so the target plus
  \<open>BATCH_ATTEMPTS\<close> bounds the rounds.
\<close>

primrec collect_modified :: "nat \<Rightarrow> u64 \<Rightarrow> u16 \<Rightarrow> pfn_ptr list \<Rightarrow> pfn_ptr list mm" where
  "collect_modified 0 target_page_count misses pages_to_write = raise SpinForever"
| "collect_modified (Suc fuel) target_page_count misses pages_to_write =
     (if unat target_page_count \<le> length pages_to_write then return pages_to_write
      else bind (remove_batch_from_list_head modified_list
                   (target_page_count - of_nat (length pages_to_write))) (\<lambda>(current_batch_size, batch_first).
        if current_batch_size = 0 then
          if misses + 1 = BATCH_ATTEMPTS then return pages_to_write
          else collect_modified fuel target_page_count (misses + 1) pages_to_write
        else bind (mark_mid_write (unat current_batch_size) batch_first) (\<lambda>pages.
          collect_modified fuel target_page_count misses (pages_to_write @ pages))))"

text \<open>Mapped to the kernel's addresses, in order.\<close>

definition frame_numbers_of :: "vm_state \<Rightarrow> pfn_ptr list \<Rightarrow> fault + u64 list" where
  "frame_numbers_of v pages = fold (\<lambda>p r. case r of
       Inl e \<Rightarrow> Inl e
     | Inr fs \<Rightarrow> (case get_frame_from_PFN v p of Inl e \<Rightarrow> Inl e | Inr f \<Rightarrow> Inr (fs @ [f]))) pages (Inr [])"

definition map_batch :: "os \<Rightarrow> pfn_ptr list \<Rightarrow> unit mm" where
  "map_batch w pages_to_write =
     bind (gets (\<lambda>s. frame_numbers_of (vm s) pages_to_write)) (\<lambda>r.
     bind (lift_result r) (\<lambda>frame_numbers_to_map.
     bind (gets (\<lambda>s. kernel_write_va (vm s))) (\<lambda>va.
     map_pages w (length pages_to_write) va frame_numbers_to_map)))"


section \<open>Writing\<close>

text \<open>
  One page: copied into a slot first and locked after that.  The result tells whether it was still
  mid-write and is on the temporary list now.
\<close>

definition copy_to_slot :: "nat \<Rightarrow> u64 mm" where
  "copy_to_slot i =
     bind (on_disk pop_slot) (\<lambda>disk_slot.
     bind (on_disk (get_page_file_offset disk_slot)) (\<lambda>page_file_location.
     bind (gets (\<lambda>s. kernel_write_va (vm s) + of_nat i * PAGE_SIZE)) (\<lambda>va.
     bind (read_page va) (\<lambda>content.
     block_return
       [on_disk (modify (\<lambda>d. d\<lparr>page_file := (page_file d)(page_file_location := content)\<rparr>))]
       disk_slot))))"

definition settle_page :: "list_id \<Rightarrow> pfn_ptr \<Rightarrow> u64 \<Rightarrow> bool mm" where
  "settle_page l pfn disk_slot =
     bind (lock_pfn pfn) (\<lambda>_. bind (read_pfn pfn) (\<lambda>q.
     if \<not> IS_PFN_MID_WRITE q then
       block_return [unlock_pfn pfn, on_disk (clear_disk_slot disk_slot)] False
     else block_return
       [update_pfn pfn (set_pfn_standby disk_slot),
        insert_to_list_tail l pfn]
       True))"

definition write_one :: "list_id \<Rightarrow> nat \<Rightarrow> pfn_ptr \<Rightarrow> bool mm" where
  "write_one l i pfn = bind (copy_to_slot i) (\<lambda>disk_slot. settle_page l pfn disk_slot)"

primrec write_all :: "list_id \<Rightarrow> nat \<Rightarrow> pfn_ptr list \<Rightarrow> nat mm" where
  "write_all l i [] = return 0"
| "write_all l i (pfn # pages) =
     bind (write_one l i pfn) (\<lambda>ok.
     bind (write_all l (i + 1) pages) (\<lambda>n. return (if ok then n + 1 else n)))"

text \<open>The pages written go to the standby list.\<close>

definition publish_written :: "list_id \<Rightarrow> nat \<Rightarrow> u64 mm" where
  "publish_written l pages_written =
     bind (block
       [insert_list_to_tail_list standby_list l,
        change_list_size standby_list (of_nat pages_written)]) (\<lambda>_.
     bind (list_head l) (\<lambda>h. bind (read_flink h) (\<lambda>pfn.
     block_return
       [unlock_batch pages_written pfn,
        increase_available_count (of_nat pages_written),
        SetEvent standby_pages_ready_event]
       (of_nat pages_written))))"

definition write_batch :: "os \<Rightarrow> pfn_ptr list \<Rightarrow> u64 mm" where
  "write_batch w pages_to_write =
     (let l = temp_list WRITING_THREAD_ID in
     bind (map_batch w pages_to_write) (\<lambda>_.
     bind (initialize_page_list l) (\<lambda>_.
     bind (write_all l 0 pages_to_write) (\<lambda>pages_written.
     bind (gets (\<lambda>s. kernel_write_va (vm s))) (\<lambda>va.
     bind (unmap_pages w (length pages_to_write) va) (\<lambda>_.
     if pages_written = 0 then return 0 else publish_written l pages_written))))))"

definition write_pages :: "os \<Rightarrow> u64 mm" where
  "write_pages w =
     bind write_target (\<lambda>target_page_count.
     if target_page_count = 0 then return 0
     else bind (collect_modified (unat target_page_count + unat BATCH_ATTEMPTS) target_page_count 0 [])
       (\<lambda>pages_to_write.
       if pages_to_write = [] then return 0 else write_batch w pages_to_write))"

text \<open>One turn of the writing thread after its event has fired.\<close>

definition write_turn :: "os \<Rightarrow> unit mm" where
  "write_turn w =
     bind (get_timestamp w) (\<lambda>start_time.
     bind (signal_event_if_list_is_about_to_run_low modified_list initiate_trimming_event
            TRIMMING_THREAD_ID LOW_PAGE_THRESHOLD) (\<lambda>_.
     bind (write_pages w) (\<lambda>batch_size.
     bind (get_timestamp w) (\<lambda>end_time.
     bind (get_time_difference end_time start_time) (\<lambda>difference.
     update_estimated_job_time WRITING_THREAD_ID difference)))))"

end
