(* ===== verification/Pruner.thy ===== *)
theory Pruner
  imports Writer
begin

text \<open>
  threads/pruner.c: refills the free lists that are marked low from the standby list.  The thread is
  compiled in only with \<open>PRUNING\<close>, which the checked-in configuration switches off.
\<close>

definition clear_free_list_bit :: "u32 \<Rightarrow> unit mm" where
  "clear_free_list_bit index =
     bind (gets (\<lambda>s. low_list_bitmap (free_lists s))) (\<lambda>b.
     bind (on_free_lists (low_list_bitmap_update (\<lambda>_. b AND NOT (push_bit (unat index) 1)))) (\<lambda>_.
     assert_that (bit b (unat index))))"

text \<open>The previous owners are mapped to the disk; the descriptors stay standby.\<close>

primrec disown_pages :: "nat \<Rightarrow> pfn_ptr \<Rightarrow> unit mm" where
  "disown_pages 0 current = return ()"
| "disown_pages (Suc n) current =
     bind (read_pfn current) (\<lambda>q. case PTE q of
       None \<Rightarrow> raise AccessViolation
     | Some old_pte \<Rightarrow>
         bind (write_pte old_pte (map_pte_to_disk (slot_of q))) (\<lambda>_.
         bind (read_flink current) (\<lambda>next_pfn.
         bind (unlock_pfn current) (\<lambda>_.
         disown_pages n next_pfn))))"

text \<open>The lists marked in the snapshot, whose bits are cleared.\<close>

definition low_lists :: "u64 \<Rightarrow> nat list" where
  "low_lists bitmap = filter (bit bitmap) [0..<unat FREE_LIST_COUNT]"

text \<open>\<open>n\<close> pages from \<open>current\<close> on go to the temporary list; the result is the next page.\<close>

primrec move_to_temp :: "list_id \<Rightarrow> nat \<Rightarrow> pfn_ptr \<Rightarrow> pfn_ptr mm" where
  "move_to_temp l 0 current = return current"
| "move_to_temp l (Suc n) current =
     bind (read_flink current) (\<lambda>next_pfn.
     bind (insert_to_list_tail l current) (\<lambda>_. move_to_temp l n next_pfn))"

primrec fill_low_lists :: "nat \<Rightarrow> nat \<Rightarrow> nat list \<Rightarrow> pfn_ptr \<Rightarrow> unit mm" where
  "fill_low_lists batch num_lists [] current = return ()"
| "fill_low_lists batch num_lists (i # rest) current =
     (let l = temp_list PRUNING_THREAD_ID;
          this_batch = batch div num_lists +
            (if rest = [] then batch mod num_lists else 0)
      in bind (initialize_page_list l) (\<lambda>_.
         if this_batch = 0 then fill_low_lists batch num_lists rest current
         else bind (move_to_temp l this_batch current) (\<lambda>next_page.
           bind (insert_list_to_tail_list (free_list i) l) (\<lambda>_.
           bind (change_list_size (free_list i) (of_nat this_batch)) (\<lambda>_.
           fill_low_lists batch num_lists rest next_page)))))"

definition prune_pages :: "u64 mm" where
  "prune_pages =
     bind (remove_batch_from_list_head standby_list MAX_PRUNE_BATCH_SIZE) (\<lambda>(num, first_pfn).
     let batch = unat (ucast num :: u16) in
     bind (signal_event_if_list_is_about_to_run_low standby_list initiate_writing_event
            WRITING_THREAD_ID LOW_PAGE_THRESHOLD) (\<lambda>_.
     if batch = 0 then return 0
     else bind (disown_pages batch first_pfn) (\<lambda>_.
       bind (gets (\<lambda>s. low_lists (low_list_bitmap (free_lists s)))) (\<lambda>free_lists_to_fill.
       bind (for_each free_lists_to_fill (\<lambda>i. clear_free_list_bit (of_nat i))) (\<lambda>_.
       if free_lists_to_fill = [] then return 0
       else block_return
         [fill_low_lists batch (length free_lists_to_fill) free_lists_to_fill first_pfn,
          increase_free_lists_total_count (of_nat batch)]
         (of_nat batch))))))"

definition prune_turn :: "os \<Rightarrow> unit mm" where
  "prune_turn w =
     bind (get_timestamp w) (\<lambda>start_time.
     bind (signal_event_if_list_is_about_to_run_low standby_list initiate_writing_event
            WRITING_THREAD_ID LOW_PAGE_THRESHOLD) (\<lambda>_.
     bind prune_pages (\<lambda>batch.
     bind (get_timestamp w) (\<lambda>end_time.
     bind (get_time_difference end_time start_time) (\<lambda>difference.
     update_estimated_job_time PRUNING_THREAD_ID difference)))))"

end
