(* ===== verification/Initializer.thy ===== *)
theory Initializer
  imports Fault_Handler Scheduler
begin

text \<open>
  threads/initializer.c: from the start of the process to a system ready to run.  What Windows grants
  is a parameter (record \<open>grants\<close>): the outcome of each step of the acquisition of the privilege, the
  section (0 for null), the frames, the reservations of memory, the threads and events it creates.  A
  null pointer is \<open>None\<close>.  \<open>malloc\<close> always succeeds.
\<close>

datatype thread = user_thread nat | scheduling_thread | trimming_thread | writing_thread

record grants =
  token_opened :: bool
  luid_found :: bool
  privileges_adjusted :: bool
  last_error :: u64
  CreateFileMapping2 :: "mem_extended_parameter \<Rightarrow> u64"
  AllocateUserPhysicalPages :: "u64 \<Rightarrow> u64 \<Rightarrow> u64 list option"
  application_space :: "u64 option"
  write_space :: "u64 option"
  read_space :: "nat \<Rightarrow> u64 option"
  pfn_space :: bool
  commit_pfn :: "u64 \<Rightarrow> bool"
  CreateEvent :: "event \<Rightarrow> bool"
  CreateThread :: "thread \<Rightarrow> bool"
  frequency :: u64

definition null_check :: "'a option \<Rightarrow> 'a mm" where
  "null_check r = (case r of None \<Rightarrow> raise DebugBreakHit | Some x \<Rightarrow> return x)"

definition on_vm :: "(vm_state \<Rightarrow> vm_state) \<Rightarrow> unit mm" where
  "on_vm g = modify (\<lambda>s. s\<lparr>vm := g (vm s)\<rparr>)"

definition set_defaults :: "vm_state \<Rightarrow> vm_state" where
  "set_defaults v = v\<lparr>num_user_threads := DEFAULT_NUM_USER_THREADS, iterations := DEFAULT_ITERATIONS,
     allocated_frame_count := DEFAULT_NUMBER_OF_PHYSICAL_PAGES, pages_in_page_file := DEFAULT_PAGES_IN_PAGE_FILE\<rparr>"


section \<open>Physical pages\<close>

definition ERROR_SUCCESS :: u64 where [simp]: "ERROR_SUCCESS = 0"

definition GetPrivilege :: "grants \<Rightarrow> bool" where
  "GetPrivilege r =
     (if \<not> token_opened r then False
      else if \<not> luid_found r then False
      else if \<not> privileges_adjusted r then False
      else if last_error r \<noteq> ERROR_SUCCESS then False
      else True)"

definition CreateSharedMemorySection :: "grants \<Rightarrow> u64" where
  "CreateSharedMemorySection r = CreateFileMapping2 r \<lparr>parameter_type = UserPhysicalFlags, parameter_value = 0\<rparr>"

text \<open>
  The frames go into a zeroed array of the requested length; Windows may grant fewer of them and
  stores how many in \<open>allocated_frame_count\<close>.
\<close>

definition initialize_physical_pages :: "grants \<Rightarrow> unit mm" where
  "initialize_physical_pages r =
     (if \<not> GetPrivilege r then raise (FatalError ''full_virtual_memory_test : could not get privilege.'')
      else bind (on_vm (physical_page_handle_update (\<lambda>_. CreateSharedMemorySection r))) (\<lambda>_.
        bind (gets (\<lambda>s. physical_page_handle (vm s))) (\<lambda>handle.
        if handle = 0 then return ()
        else bind (gets (\<lambda>s. allocated_frame_count (vm s))) (\<lambda>count.
          case AllocateUserPhysicalPages r handle count of
            None \<Rightarrow> raise (FatalError ''full_virtual_memory_test : could not allocate physical pages.'')
          | Some fs \<Rightarrow> on_vm (\<lambda>v. v\<lparr>allocated_frame_numbers := fs @ replicate (unat count - length fs) 0,
                                    allocated_frame_count := of_nat (length fs)\<rparr>)))))"

text \<open>The first \<open>allocated_frame_count\<close> elements of the array; reading past its end faults.\<close>

definition allocated_frames :: "u64 list mm" where
  "allocated_frames =
     bind (gets vm) (\<lambda>v.
     bind (check_access (unat (allocated_frame_count v) \<le> length (allocated_frame_numbers v))) (\<lambda>_.
     return (take (unat (allocated_frame_count v)) (allocated_frame_numbers v))))"

definition set_max_frame_number :: "unit mm" where
  "set_max_frame_number =
     bind allocated_frames (\<lambda>fs.
     on_vm (\<lambda>v. v\<lparr>max_frame_number := fold max fs 0, min_frame_number := fold min fs (NOT 0)\<rparr>))"


section \<open>Address spaces and tables\<close>

definition initialize_shared_page_parameter :: "unit mm" where
  "initialize_shared_page_parameter = on_vm (\<lambda>v. v\<lparr>virtual_alloc_shared_parameter :=
     \<lparr>parameter_type = UserPhysicalHandle, parameter_value = physical_page_handle v\<rparr>\<rparr>)"

definition initialize_user_VA_space :: "grants \<Rightarrow> unit mm" where
  "initialize_user_VA_space r =
     bind (gets vm) (\<lambda>v.
     let va_span = of_int (VA_SPAN (allocated_frame_count v) (pages_in_page_file v)) :: u64;
         size_in_bytes = va_span * PAGE_SIZE in
     bind (on_vm (\<lambda>v. v\<lparr>va_size_in_bytes := size_in_bytes, va_size_in_pointers := size_in_bytes div 8\<rparr>)) (\<lambda>_.
     bind (null_check (application_space r)) (\<lambda>base.
     on_vm (application_va_base_update (\<lambda>_. base)))))"

definition initialize_kernel_VA_spaces :: "grants \<Rightarrow> unit mm" where
  "initialize_kernel_VA_spaces r =
     bind (null_check (write_space r)) (\<lambda>va.
     on_vm (kernel_write_va_update (\<lambda>_. va)))"

definition make_page_table :: "unit mm" where
  "make_page_table = modify (\<lambda>s. let (v, table) = initialize_page_table (vm s) in s\<lparr>vm := v, ptes := table\<rparr>)"

definition initialize_page_lists :: "unit mm" where
  "initialize_page_lists = block
     [initialize_page_list zero_list,
      initialize_page_list modified_list,
      initialize_page_list standby_list,
      on_free_lists (\<lambda>r. r\<lparr>number_of_lists := FREE_LIST_COUNT, page_count := 0, free_list_locks := 0\<rparr>),
      for_each [0..<unat FREE_LIST_COUNT] (\<lambda>i. initialize_page_list (free_list i))]"

text \<open>The loop over the frames.\<close>

primrec add_frames :: "grants \<Rightarrow> u64 list \<Rightarrow> u32 \<Rightarrow> u32 \<Rightarrow> unit mm" where
  "add_frames r [] list_index num_lists = return ()"
| "add_frames r (f # fs) list_index num_lists =
     bind (if commit_pfn r f then modify (\<lambda>s. s\<lparr>committed := (committed s)(f := True)\<rparr>)
           else raise (FatalError ''Error: Failed to commit memory for PFN.'')) (\<lambda>_.
     bind (block
       [update_pfn (FramePfn f) create_zeroed_pfn,
        insert_to_list_tail (free_list (unat list_index)) (FramePfn f),
        increment_list_size (free_list (unat list_index)),
        increment_free_lists_total_count]) (\<lambda>_.
     bind (checked_mod (list_index + 1) num_lists) (\<lambda>list_index.
     add_frames r fs list_index num_lists)))"

definition initialize_PFN_data :: "grants \<Rightarrow> unit mm" where
  "initialize_PFN_data r =
     bind (assert_that (pfn_space r)) (\<lambda>_.
     bind (gets (\<lambda>s. number_of_lists (free_lists s))) (\<lambda>num_lists.
     bind allocated_frames (\<lambda>frames.
     add_frames r frames 0 num_lists)))"

definition initialize_page_file :: "unit mm" where
  "initialize_page_file = bind (gets vm) (\<lambda>v. on_disk (initialize_page_file_and_metadata v))"


section \<open>Events and threads\<close>

text \<open>A new event is not signalled.\<close>

definition create_event :: "grants \<Rightarrow> event \<Rightarrow> unit mm" where
  "create_event r e = bind (assert_that (CreateEvent r e)) (\<lambda>_. modify (\<lambda>s. s\<lparr>events := (events s)(e := False)\<rparr>))"

definition initialize_events :: "grants \<Rightarrow> unit mm" where
  "initialize_events r = for_each
     [system_start_event, initiate_aging_event, initiate_trimming_event, initiate_writing_event,
      initiate_pruning_event, standby_pages_ready_event, system_exit_event] (create_event r)"

definition initial_seed :: "u64 \<Rightarrow> nat \<Rightarrow> u64" where
  "initial_seed counter i = counter XOR push_bit 32 (of_nat i) XOR signed_drop_bit 16 counter"

text \<open>One user thread: its read space, seed and first cache.\<close>

definition initialize_user_thread :: "os \<Rightarrow> grants \<Rightarrow> nat \<Rightarrow> unit mm" where
  "initialize_user_thread w r i =
     bind (on_user i (kernel_va_space_update (\<lambda>_. case read_space r i of Some va \<Rightarrow> va | None \<Rightarrow> 0))) (\<lambda>_.
     bind (on_user i (thread_id_update (\<lambda>_. of_nat i))) (\<lambda>_.
     bind (get_timestamp w) (\<lambda>counter.
     bind (on_user i (random_seed_update (\<lambda>_. initial_seed counter i))) (\<lambda>_.
     bind (gets (\<lambda>s. number_of_lists (free_lists s))) (\<lambda>count.
     bind (checked_mod (of_nat i) count) (\<lambda>index.
     bind (remove_batch_from_list_head_exclusive (free_list (unat index)) (ucast FREE_PAGE_CACHE_SIZE))
       (\<lambda>(num_pages, first_page).
     block
       [on_free_lists (page_count_update (\<lambda>n. n - num_pages)),
        fill_cache (unat num_pages) i 0 first_page,
        on_user i (free_page_count_update (\<lambda>_. ucast num_pages))])))))))"

text \<open>\<open>user_thread_info\<close> as \<open>zero_malloc\<close> leaves it.\<close>

definition zero_user :: user_thread_info where
  "zero_user = \<lparr>thread_id = 0, kernel_va_index = 0, kernel_va_space = 0, random_seed = 0,
     free_page_cache = (\<lambda>_. NullPfn), free_page_count = 0\<rparr>"

definition create_thread :: "grants \<Rightarrow> thread \<Rightarrow> unit mm" where
  "create_thread r t = assert_that (CreateThread r t)"

definition initialize_threads :: "os \<Rightarrow> grants \<Rightarrow> unit mm" where
  "initialize_threads w r =
     bind (gets (\<lambda>s. unat (num_user_threads (vm s)))) (\<lambda>n. block
       [modify (\<lambda>s. s\<lparr>users := (\<lambda>_. zero_user)\<rparr>),
        for_each [0..<n] (initialize_user_thread w r),
        for_each [0..<n] (\<lambda>i. create_thread r (user_thread i)),
        create_thread r scheduling_thread,
        create_thread r trimming_thread,
        create_thread r writing_thread])"

definition initialize_statistics :: "grants \<Rightarrow> unit mm" where
  "initialize_statistics r =
     bind (gets (\<lambda>s. page_count (free_lists s))) (\<lambda>free.
     on_stats (\<lambda>t. t\<lparr>n_hard := 0, n_soft := 0, n_available := free, timer_frequency := frequency r,
       page_consumption_per_second := DEFAULT_PAGE_CONSUMPTION_RATE,
       worker_runtimes := (worker_runtimes t)(TRIMMING_THREAD_ID := DEFAULT_TRIM_DURATION,
         WRITING_THREAD_ID := DEFAULT_WRITE_DURATION, PRUNING_THREAD_ID := DEFAULT_PRUNE_DURATION)\<rparr>))"

definition initialize_system :: "os \<Rightarrow> grants \<Rightarrow> unit mm" where
  "initialize_system w r = block
     [initialize_physical_pages r,
      set_max_frame_number,
      initialize_shared_page_parameter,
      initialize_user_VA_space r,
      initialize_kernel_VA_spaces r,
      make_page_table,
      initialize_page_lists,
      initialize_PFN_data r,
      initialize_page_file,
      initialize_events r,
      initialize_threads w r,
      initialize_statistics r]"

end
