(* ===== verification/Workers.thy ===== *)
theory Workers
  imports Pruner Initializer
begin

text \<open>
  The loops of the worker threads (threads/trimmer.c, writer.c, pruner.c, scheduler.c): each waits for
  its event or for the end of the program, does one round of its work and waits again.  The lemmas show
  what a round does to the events, that a loop ends once the exit event is set, and that two loops may
  keep each other awake for ever.
\<close>

section \<open>Waiting\<close>

text \<open>How \<open>initialize_events\<close> creates the events: one of automatic reset is consumed by a wait.\<close>

primrec manual_reset :: "event \<Rightarrow> bool" where
  "manual_reset system_start_event \<longleftrightarrow> True"
| "manual_reset initiate_aging_event \<longleftrightarrow> False"
| "manual_reset initiate_trimming_event \<longleftrightarrow> True"
| "manual_reset initiate_writing_event \<longleftrightarrow> False"
| "manual_reset initiate_pruning_event \<longleftrightarrow> False"
| "manual_reset standby_pages_ready_event \<longleftrightarrow> True"
| "manual_reset system_exit_event \<longleftrightarrow> True"

definition ACTIVE_EVENT_INDEX :: nat where [simp]: "ACTIVE_EVENT_INDEX = 0"
definition EXIT_EVENT_INDEX :: nat where [simp]: "EXIT_EVENT_INDEX = 1"

text \<open>
  \<open>WaitForMultipleObjects(n, events, FALSE, INFINITE)\<close>: the least index of an event that is set.  If
  none is, the other threads run first.
\<close>

primrec first_set :: "(event \<Rightarrow> bool) \<Rightarrow> event list \<Rightarrow> nat option" where
  "first_set signalled [] = None"
| "first_set signalled (e # es) = (if signalled e then Some 0 else map_option Suc (first_set signalled es))"

definition consume :: "event \<Rightarrow> unit mm" where
  "consume e = run_if (\<not> manual_reset e) (ResetEvent e)"

definition poll :: "event list \<Rightarrow> nat option mm" where
  "poll es = bind (gets (\<lambda>s. first_set (events s) es)) (\<lambda>r. case r of
       None \<Rightarrow> return None
     | Some i \<Rightarrow> block_return [consume (es ! i)] (Some i))"

definition WaitForMultipleObjects :: "os \<Rightarrow> event list \<Rightarrow> nat mm" where
  "WaitForMultipleObjects w es =
     bind (poll es) (\<lambda>r. case r of
       Some i \<Rightarrow> return i
     | None \<Rightarrow> bind (others w) (\<lambda>_. bind (poll es) (\<lambda>r. case r of
         Some i \<Rightarrow> return i
       | None \<Rightarrow> raise WaitForever)))"

text \<open>\<open>WaitForSingleObject\<close> with a delay: the other threads run; has the event been set by then?\<close>

definition wait_with_timeout :: "os \<Rightarrow> event \<Rightarrow> bool mm" where
  "wait_with_timeout w e = bind (gets (\<lambda>s. events s e)) (\<lambda>b.
     if b then return True else bind (others w) (\<lambda>_. gets (\<lambda>s. events s e)))"


section \<open>The loops\<close>

text \<open>One turn of a worker: \<open>False\<close> when it returns.\<close>

definition worker_turn :: "os \<Rightarrow> event \<Rightarrow> unit mm \<Rightarrow> bool mm" where
  "worker_turn w active work =
     bind (WaitForMultipleObjects w [active, system_exit_event]) (\<lambda>i.
     if i = EXIT_EVENT_INDEX then return False else block_return [work] True)"

primrec worker_loop :: "nat \<Rightarrow> os \<Rightarrow> event \<Rightarrow> unit mm \<Rightarrow> unit mm" where
  "worker_loop 0 w active work = raise SpinForever"
| "worker_loop (Suc n) w active work =
     bind (worker_turn w active work) (\<lambda>go. if go then worker_loop n w active work else return ())"

definition trim_pages_thread :: "nat \<Rightarrow> os \<Rightarrow> unit mm" where
  "trim_pages_thread n w = block
     [WaitForSingleObject w system_start_event,
      start_trimmer,
      worker_loop n w initiate_trimming_event (trim_turn w)]"

definition write_pages_thread :: "nat \<Rightarrow> os \<Rightarrow> unit mm" where
  "write_pages_thread n w = block
     [WaitForSingleObject w system_start_event,
      worker_loop n w initiate_writing_event (write_turn w)]"

definition prune_pages_thread :: "nat \<Rightarrow> os \<Rightarrow> unit mm" where
  "prune_pages_thread n w = block
     [WaitForSingleObject w system_start_event,
      worker_loop n w initiate_pruning_event (prune_turn w)]"

primrec schedule_loop :: "nat \<Rightarrow> os \<Rightarrow> schedule_state \<Rightarrow> unit mm" where
  "schedule_loop 0 w st = raise SpinForever"
| "schedule_loop (Suc n) w st =
     bind (wait_with_timeout w system_exit_event) (\<lambda>leave.
     if leave then return () else bind (schedule_round w st) (schedule_loop n w))"

definition schedule_tasks :: "nat \<Rightarrow> os \<Rightarrow> unit mm" where
  "schedule_tasks n w =
     bind (get_timestamp w) (\<lambda>now.
     bind (WaitForSingleObject w system_start_event) (\<lambda>_.
     schedule_loop n w \<lparr>current_timestamp = now, current_hard_fault_count = 0\<rparr>))"


section \<open>Which events a program leaves alone\<close>

definition keeps_events :: "event set \<Rightarrow> 'a mm \<Rightarrow> bool" where
  "keeps_events E m \<longleftrightarrow> (\<forall>s x u. m s = Inr (x, u) \<longrightarrow> (\<forall>e \<in> E. events u e = events s e))"

named_theorems keeps \<open>programs that leave events alone\<close>

lemma keepsI: "(\<And>s x u e. m s = Inr (x, u) \<Longrightarrow> e \<in> E \<Longrightarrow> events u e = events s e) \<Longrightarrow> keeps_events E m"
  by (simp add: keeps_events_def)

lemma keepsD: "keeps_events E m \<Longrightarrow> m s = Inr (x, u) \<Longrightarrow> e \<in> E \<Longrightarrow> events u e = events s e"
  by (simp add: keeps_events_def)

lemma keeps_bind [keeps]:
  "keeps_events E m \<Longrightarrow> (\<And>x. keeps_events E (f x)) \<Longrightarrow> keeps_events E (bind m f)"
  unfolding keeps_events_def bind_eq_Inr by metis

lemma keeps_basic [keeps]:
  "keeps_events E (return x)" "keeps_events E (raise f)" "keeps_events E (gets g)"
  "keeps_events E (assert_that b)" "keeps_events E (check_access b)" "keeps_events E (lift_result r)"
  by (auto simp: keeps_events_def prog_simps assert_that_def check_access_def lift_result_def split: if_splits sum.splits)

lemma keeps_modify [keeps]: "(\<And>s. events (g s) = events s) \<Longrightarrow> keeps_events E (modify g)"
  by (simp add: keeps_events_def prog_simps)

lemma keeps_if [keeps]: "(b \<Longrightarrow> keeps_events E m) \<Longrightarrow> (\<not> b \<Longrightarrow> keeps_events E n) \<Longrightarrow> keeps_events E (if b then m else n)"
  and keeps_run_if [keeps]: "(b \<Longrightarrow> keeps_events E k) \<Longrightarrow> keeps_events E (run_if b k)"
  and keeps_option [keeps]: "(r = None \<Longrightarrow> keeps_events E m) \<Longrightarrow> (\<And>x. r = Some x \<Longrightarrow> keeps_events E (f x)) \<Longrightarrow>
    keeps_events E (case r of None \<Rightarrow> m | Some x \<Rightarrow> f x)"
  and keeps_prod [keeps]: "(\<And>x y. p = (x, y) \<Longrightarrow> keeps_events E (h x y)) \<Longrightarrow> keeps_events E (case p of (x, y) \<Rightarrow> h x y)"
  and keeps_let [keeps]: "(\<And>x. keeps_events E (f' x)) \<Longrightarrow> keeps_events E (let x = t in f' x)"
  by (simp_all add: run_if_def keeps_basic split: option.split prod.split)

lemma keeps_block [keeps]:
  "keeps_events E (block [])" "keeps_events E m \<Longrightarrow> keeps_events E (block ms) \<Longrightarrow> keeps_events E (block (m # ms))"
  "keeps_events E (block ms) \<Longrightarrow> keeps_events E (block_return ms x)"
  by (auto simp: block_return_def intro: keeps)

lemma keeps_for_each [keeps]: "(\<And>x. keeps_events E (f x)) \<Longrightarrow> keeps_events E (for_each xs f)"
  by (induction xs) (auto intro: keeps)

lemma keeps_zoom [keeps]: "keeps_events E (on_disk m)"
  by (auto simp: keeps_events_def on_disk_def zoom_def split: sum.splits)

lemma keeps_set [keeps]:
  "e \<notin> E \<Longrightarrow> keeps_events E (SetEvent e)" "e \<notin> E \<Longrightarrow> keeps_events E (ResetEvent e)"
  by (auto simp: keeps_events_def prog_simps)

lemma keeps_machine [keeps]:
  "keeps_events E (read_pfn p)" "keeps_events E (update_pfn p g)" "keeps_events E (read_pte i)" "keeps_events E (update_pte i k)"
  "keeps_events E (on_stats a)" "keeps_events E (on_user t b)" "keeps_events E (on_list l c)" "keeps_events E (on_free_lists d)"
  "keeps_events E (list_head l)" "keeps_events E contended" "keeps_events E (wait v)" "keeps_events E zero_malloc_pfn"
  by (auto simp: keeps_events_def read_pfn_def update_pfn_def read_pte_def update_pte_def on_stats_def on_user_def
      on_list_def on_free_lists_def list_head_def contended_def wait_def zero_malloc_pfn_def prog_simps split: if_splits list.splits)

lemma keeps_links [keeps]:
  "keeps_events E (read_flink p)" "keeps_events E (read_blink p)" "keeps_events E (write_flink p q)"
  "keeps_events E (write_blink p q)" "keeps_events E (write_pte i g)"
  unfolding read_flink_def read_blink_def write_flink_def write_blink_def write_pte_def by (intro keeps)+

lemma keeps_locks [keeps]:
  "keeps_events E (lock_pfn p)" "keeps_events E (try_lock_pfn p)" "keeps_events E (unlock_pfn p)"
  "keeps_events E (lock_pte i)" "keeps_events E (try_lock_pte i)" "keeps_events E (unlock_pte i)"
  unfolding lock_pfn_def try_lock_pfn_def unlock_pfn_def lock_pte_def try_lock_pte_def unlock_pte_def Let_def
  by (intro keeps)+

lemma keeps_list_locks [keeps]:
  "keeps_events E (lock_list_shared l)" "keeps_events E (try_lock_list_shared l)" "keeps_events E (unlock_list_shared l)"
  "keeps_events E (lock_list_exclusive l)" "keeps_events E (try_lock_list_exclusive l)" "keeps_events E (unlock_list_exclusive l)"
  unfolding lock_list_shared_def try_lock_list_shared_def unlock_list_shared_def lock_list_exclusive_def
    try_lock_list_exclusive_def unlock_list_exclusive_def by (intro keeps)+

lemma keeps_list_basics [keeps]:
  "keeps_events E (initialize_page_list l)" "keeps_events E (insert_to_list_tail l p)" "keeps_events E (change_list_size l d)"
  "keeps_events E (get_size l)" "keeps_events E (is_page_list_empty l)" "keeps_events E (increase_available_count n)"
  unfolding initialize_page_list_def initialize_list_head_def insert_to_list_tail_def change_list_size_def get_size_def
    is_page_list_empty_def increase_available_count_def by (intro keeps)+

lemma keeps_batch_start [keeps]:
  "keeps_events E a \<Longrightarrow> (\<And>p. keeps_events E (b p)) \<Longrightarrow> (\<And>p q. keeps_events E (c p q)) \<Longrightarrow>
   keeps_events E d \<Longrightarrow>
   keeps_events E (case k of ListEmpty \<Rightarrow> a | OnePage p \<Rightarrow> b p | TwoLocked p q \<Rightarrow> c p q | NotLocked \<Rightarrow> d)"
  by (cases k) simp_all

lemma keeps_batches [keeps]:
  "keeps_events E (remove_batch_from_list_head l n)" "keeps_events E (insert_list_to_tail_list l k)"
proof -
  have start: "keeps_events E (start_batch n l h t)" for n h t
  proof (induction n arbitrary: t)
    case (Suc n)
    show ?case unfolding start_batch.simps Let_def by (intro keeps Suc.IH)
  qed (simp add: keeps)
  have extend: "keeps_events E (extend_batch n h k p q)" for n h k p q
    by (induction n arbitrary: k p q) (auto intro!: keeps)
  have ends: "keeps_events E (lock_list_ends n k t)" for n k t
    by (induction n arbitrary: t) (auto intro!: keeps simp del: block_Cons)
  have pages: "keeps_events E (take_pages n h p k)" for n h p k
    by (induction n arbitrary: p k) (auto intro!: keeps)
  have "keeps_events E (remove_batch_from_list_head_exclusive l n)"
    unfolding remove_batch_from_list_head_exclusive_def by (intro keeps pages)
  then show "keeps_events E (remove_batch_from_list_head l n)"
    unfolding remove_batch_from_list_head_def by (intro keeps start extend)
  show "keeps_events E (insert_list_to_tail_list l k)"
    unfolding insert_list_to_tail_list_def by (intro keeps ends)
qed

lemma keeps_utils [keeps]:
  "keeps_events E (get_timestamp w)" "keeps_events E (get_time_difference a b)" "keeps_events E (update_estimated_job_time k d)"
  "keeps_events E (map_pages w n va fs)" "keeps_events E (unmap_pages w n va)" "keeps_events E (read_page va)"
  unfolding get_timestamp_def get_time_difference_def update_estimated_job_time_def map_pages_def unmap_pages_def
    read_page_def by (intro keeps; simp)+

lemma keeps_signal [keeps]:
  "e \<notin> E \<Longrightarrow> keeps_events E (signal_event_if_list_is_about_to_run_low l e k t)"
  "initiate_writing_event \<notin> E \<Longrightarrow> keeps_events E check_to_start_writer"
  unfolding signal_event_if_list_is_about_to_run_low_def check_if_list_is_about_to_run_low_def check_to_start_writer_def
  by (intro keeps; assumption)+

lemma keeps_unlock_batch [keeps]: "keeps_events E (unlock_batch n p)"
  by (induction n arbitrary: p) (auto intro!: keeps)

lemma keeps_trim_pages [keeps]:
  assumes "initiate_writing_event \<notin> E"
  shows "keeps_events E (trim_pages w)"
proof -
  have entry: "keeps_events E (trim_entry i)" for i unfolding trim_entry_def by (intro keeps)
  have walk: "keeps_events E (trim_walk n i batch)" for n i batch
    by (induction n arbitrary: i batch) (auto intro!: keeps entry split: option.split)
  have "keeps_events E (trim_finish w i batch)" for i batch
    unfolding trim_finish_def Let_def collect_trimmed_def by (intro keeps assms; simp)
  then show ?thesis unfolding trim_pages_def by (intro keeps walk)
qed

lemma keeps_write_pages [keeps]:
  assumes "standby_pages_ready_event \<notin> E"
  shows "keeps_events E (write_pages w)"
proof -
  have target: "keeps_events E write_target" unfolding write_target_def Let_def by (intro keeps)
  have mark: "keeps_events E (mark_mid_write n p)" for n p by (induction n arbitrary: p) (auto intro!: keeps)
  have collect: "keeps_events E (collect_modified n t m ps)" for n t m ps
    by (induction n arbitrary: m ps) (auto intro!: keeps mark)
  have map: "keeps_events E (map_batch w ps)" for ps unfolding map_batch_def by (intro keeps)
  have one: "keeps_events E (write_one l i p)" for l i p
    unfolding write_one_def copy_to_slot_def settle_page_def by (intro keeps)
  have all: "keeps_events E (write_all l i ps)" for l i ps by (induction ps arbitrary: i) (auto intro!: keeps one)
  have publish: "keeps_events E (publish_written l n)" for l n unfolding publish_written_def by (intro keeps assms)
  have "keeps_events E (write_batch w ps)" for ps
    unfolding write_batch_def Let_def by (intro keeps map all publish)
  then show ?thesis unfolding write_pages_def by (intro keeps target collect)
qed

lemma keeps_turns:
  "E \<inter> {initiate_trimming_event, initiate_writing_event} = {} \<Longrightarrow> keeps_events E (trim_turn w)"
  "E \<inter> {initiate_trimming_event, standby_pages_ready_event} = {} \<Longrightarrow> keeps_events E (write_turn w)"
  unfolding trim_turn_def write_turn_def by (intro keeps; blast)+

text \<open>After its turn the trimmer's event is not set: nothing in the round sets it again.\<close>

lemma trim_turn_resets:
  assumes "trim_turn w s = Inr (x, u)"
  shows "\<not> events u initiate_trimming_event"
proof -
  define rest where "rest = bind (get_timestamp w) (\<lambda>start.
     bind (trim_pages w) (\<lambda>batch_size.
     bind (get_timestamp w) (\<lambda>end_time.
     bind (get_time_difference end_time start) (\<lambda>difference.
     update_estimated_job_time TRIMMING_THREAD_ID difference))))"
  have run: "rest (s\<lparr>events := (events s)(initiate_trimming_event := False)\<rparr>) = Inr (x, u)"
    using assms by (simp add: trim_turn_def rest_def ResetEvent_def bind_modify)
  have "keeps_events {initiate_trimming_event} rest" unfolding rest_def by (intro keeps; simp)
  from keepsD [OF this run, of initiate_trimming_event] show ?thesis by simp
qed


section \<open>One turn\<close>

text \<open>A worker whose event is not set leaves once the exit event is; it looks at its own event first.\<close>

definition consumed :: "event \<Rightarrow> machine \<Rightarrow> machine" where
  "consumed e s = (if manual_reset e then s else s\<lparr>events := (events s)(e := False)\<rparr>)"

lemma worker_turn_active:
  "events s active \<Longrightarrow> worker_turn w active work s = bind work (\<lambda>_. return True) (consumed active s)"
  by (simp add: worker_turn_def WaitForMultipleObjects_def poll_def consume_def consumed_def prog_simps run_if_def
      split: sum.split)

lemma worker_turn_exit:
  "\<not> events s active \<Longrightarrow> events s system_exit_event \<Longrightarrow> worker_turn w active work s = Inr (False, s)"
  by (simp add: worker_turn_def WaitForMultipleObjects_def poll_def consume_def prog_simps)

lemma worker_turn_idle:
  "\<not> events s active \<Longrightarrow> \<not> events s system_exit_event \<Longrightarrow> others w s = Inr ((), u) \<Longrightarrow>
   worker_turn w active work s = (if events u active \<or> events u system_exit_event then worker_turn w active work u
     else Inl WaitForever)"
  by (simp add: worker_turn_def WaitForMultipleObjects_def poll_def consume_def prog_simps run_if_def split: sum.split)


section \<open>The contract of a worker\<close>

text \<open>
  A worker from a good state does its round without a fault and leaves its event reset and the exit event
  alone; \<open>change\<close> is what it may do to the rest.
\<close>

locale worker =
  fixes active :: event
    and body :: "os \<Rightarrow> unit mm"
    and good :: "os \<Rightarrow> machine \<Rightarrow> bool"
    and change :: "machine \<Rightarrow> machine \<Rightarrow> bool"
  assumes round: "good w s \<Longrightarrow> \<exists>u. body w (consumed active s) = Inr ((), u) \<and> good w u \<and> change s u \<and>
      \<not> events u active \<and> events u system_exit_event = events s system_exit_event"
    and change_refl: "change s s"
    and change_trans: "change s t \<Longrightarrow> change t u \<Longrightarrow> change s u"
begin

text \<open>Once the exit event is set, two turns are enough.\<close>

lemma stops:
  assumes "good w s" and "events s system_exit_event"
  shows "\<exists>u. worker_loop (Suc (Suc n)) w active (body w) s = Inr ((), u) \<and> good w u \<and> change s u"
proof (cases "events s active")
  case True
  obtain u where "body w (consumed active s) = Inr ((), u)" "good w u" "change s u" "\<not> events u active"
    "events u system_exit_event" using round [OF assms(1)] assms(2) by blast
  then show ?thesis using worker_turn_active [OF True] worker_turn_exit [of u active] by (auto simp: prog_simps)
next
  case False
  then show ?thesis using worker_turn_exit [OF False assms(2)] assms(1) change_refl by (auto simp: prog_simps)
qed

end

text \<open>Moreover the other threads, which run while it waits, keep the state good.\<close>

locale running_worker = worker +
  assumes pause: "good w s \<Longrightarrow> \<exists>u. others w s = Inr ((), u) \<and> good w u \<and> change s u"
begin

lemma turn:
  assumes "good w s" and ev: "events s active \<or> events s system_exit_event"
  shows "\<exists>go u. worker_turn w active (body w) s = Inr (go, u) \<and> good w u \<and> change s u"
proof (cases "events s active")
  case True
  then show ?thesis using round [OF assms(1)] worker_turn_active [OF True] by (auto simp: prog_simps)
next
  case False
  then show ?thesis using worker_turn_exit [OF False] assms change_refl by auto
qed

text \<open>However many turns it does, its loop meets no fault: it goes on, waits or returns.\<close>

lemma never_faults:
  "good w s \<Longrightarrow> worker_loop n w active (body w) s = Inl SpinForever \<or>
   worker_loop n w active (body w) s = Inl WaitForever \<or>
   (\<exists>u. worker_loop n w active (body w) s = Inr ((), u) \<and> good w u \<and> change s u)"
proof (induction n arbitrary: s)
  case 0
  then show ?case by (simp add: prog_simps)
next
  case (Suc n)
  have go: ?case if t: "worker_turn w active (body w) s = Inr (go, u)" "good w u" "change s u" for go u
    using Suc.IH [OF t(2)] t change_trans [OF t(3)] by (cases go) (auto simp: prog_simps)
  show ?case
  proof (cases "events s active \<or> events s system_exit_event")
    case True
    then show ?thesis using turn [OF Suc.prems] go by blast
  next
    case False
    obtain v where v: "others w s = Inr ((), v)" "good w v" "change s v" using pause [OF Suc.prems] by blast
    show ?thesis
    proof (cases "events v active \<or> events v system_exit_event")
      case True
      then obtain b u where "worker_turn w active (body w) v = Inr (b, u)" "good w u" "change v u"
        using turn [OF v(2)] by blast
      then show ?thesis using go change_trans [OF v(3)] worker_turn_idle [of s active w v "body w"] False True v(1) by auto
    next
      case no: False
      then show ?thesis using worker_turn_idle [of s active w v "body w"] False v(1) by (simp add: prog_simps)
    qed
  qed
qed

end

end
