(* ===== verification/Simulator.thy ===== *)
theory Simulator
  imports Pruner Initializer
begin

text \<open>
  threads/simulator.c and threads/releaser.c: the user threads, which write to simulated addresses
  and call the fault handler when the page is not there, and the unmapping at the end of a run.
\<close>

text \<open>
  One access: the word is stored, or the fault is handled and the store tried again.  Each round that
  faults is followed by a round that succeeds unless the page is trimmed in between.
  \<open>snapshot_addr\<close> is the address of a local variable, see \<open>set_accessed_bit\<close>.
\<close>

primrec access_va :: "nat \<Rightarrow> os \<Rightarrow> u64 \<Rightarrow> u64 \<Rightarrow> u64 \<Rightarrow> nat \<Rightarrow> unit mm" where
  "access_va 0 w accessed_addr snapshot_addr va t = raise SpinForever"
| "access_va (Suc fuel) w accessed_addr snapshot_addr va t =
     bind (store_word va va) (\<lambda>stored.
     if stored then
       bind (gets (\<lambda>s. get_PTE_from_VA (vm s) va)) (\<lambda>r. bind (lift_result r) (\<lambda>pte.
       write_pte pte (set_accessed_bit accessed_addr snapshot_addr)))
     else bind (page_fault_handler (Suc fuel) w va t) (\<lambda>ok.
       if \<not> ok then raise (FatalError ''User app attempted to access invalid VA.'')
       else access_va fuel w accessed_addr snapshot_addr va t))"

text \<open>The simulation of one thread: \<open>n\<close> accesses, each at the next address.\<close>

primrec user_accesses :: "nat \<Rightarrow> nat \<Rightarrow> os \<Rightarrow> u64 \<Rightarrow> u64 \<Rightarrow> u64 \<Rightarrow> nat \<Rightarrow> u64 mm" where
  "user_accesses 0 fuel w accessed_addr snapshot_addr va t = return va"
| "user_accesses (Suc n) fuel w accessed_addr snapshot_addr va t =
     bind (gets (\<lambda>s. get_next_va (vm s) va (random_seed (users s t)))) (\<lambda>r.
     bind (lift_result r) (\<lambda>(va, seed).
     bind (on_user t (random_seed_update (\<lambda>_. seed))) (\<lambda>_.
     bind (access_va fuel w accessed_addr snapshot_addr va t) (\<lambda>_.
     user_accesses n fuel w accessed_addr snapshot_addr va t))))"

definition run_user_app_simulation :: "nat \<Rightarrow> os \<Rightarrow> u64 \<Rightarrow> u64 \<Rightarrow> nat \<Rightarrow> unit mm" where
  "run_user_app_simulation fuel w accessed_addr snapshot_addr t =
     bind (WaitForSingleObject w system_start_event) (\<lambda>_.
     bind (gets (\<lambda>s. get_arbitrary_va (vm s) (random_seed (users s t)))) (\<lambda>r.
     bind (lift_result r) (\<lambda>(va, seed).
     bind (on_user t (random_seed_update (\<lambda>_. seed))) (\<lambda>_.
     bind (gets (\<lambda>s. unat (iterations (vm s)))) (\<lambda>n.
     bind (user_accesses n fuel w accessed_addr snapshot_addr va t) (\<lambda>_. return ()))))))"


section \<open>The end of a run\<close>

text \<open>\<open>unmap_all_pages\<close> of threads/releaser.c.\<close>

definition unmap_all_pages :: "os \<Rightarrow> unit mm" where
  "unmap_all_pages w =
     bind (gets (\<lambda>s. unat (num_ptes (vm s)))) (\<lambda>n.
     for_each [0..<n] (\<lambda>pte. bind (read_pte pte) (\<lambda>word.
       if get_valid word = 0 then return ()
       else bind (gets (\<lambda>s. get_VA_from_PTE (vm s) pte)) (\<lambda>r. bind (lift_result r) (\<lambda>va.
         unmap_pages w 1 va)))))"

end
