(* ===== verification/Ring_Buffer.thy ===== *)
theory Ring_Buffer
  imports Prelude
begin

text \<open>
  A ring buffer of \<open>size\<close> cells.  The interface is a push to the cell the head is at; what follows from
  it is that the buffer holds the last \<open>size\<close> elements.  The program has three: the samples of the
  workers, the rates of consumption and the traces.
\<close>

locale ring_buffer =
  fixes push :: "'a \<Rightarrow> 'b \<Rightarrow> 'b"
    and cell :: "'b \<Rightarrow> nat \<Rightarrow> 'c"
    and head :: "'b \<Rightarrow> nat"
    and holds :: "'a \<Rightarrow> 'c \<Rightarrow> bool"
    and size :: nat
  assumes head_less: "head b < size"
    and push_head: "head (push x b) = (head b + 1) mod size"
    and push_here: "holds x (cell (push x b) (head b))"
    and push_elsewhere: "k \<noteq> head b \<Longrightarrow> cell (push x b) k = cell b k"
begin

lemma head_fold: "head (fold push xs b) = (head b + length xs) mod size"
proof (induction xs rule: rev_induct)
  case Nil
  then show ?case using head_less [of b] by simp
next
  case (snoc x xs)
  then show ?case by (simp add: push_head mod_add_left_eq flip: add.assoc) (simp add: mod_Suc_eq)
qed

text \<open>The \<open>i\<close>-th element from the end is \<open>i + 1\<close> cells before the head.\<close>

lemma keeps_last:
  assumes "i < length xs" and "i < size"
  shows "holds (rev xs ! i) (cell (fold push xs b) ((head b + (length xs - 1 - i)) mod size))"
  using assms
proof (induction xs arbitrary: i rule: rev_induct)
  case (snoc x xs)
  show ?case
  proof (cases i)
    case 0
    then show ?thesis using push_here [of x "fold push xs b"] by (simp add: head_fold)
  next
    case (Suc j)
    then have j: "j < length xs" "j + 1 < size" using snoc.prems by simp_all
    define m where "m = head b + (length xs - 1 - j)"
    have "head b + length xs = m + (j + 1)" using j(1) by (simp add: m_def)
    moreover have "m mod size \<noteq> (m + (j + 1)) mod size"
      using j(2) mod_eq_dvd_iff_nat [of m "m + (j + 1)" size] by (auto dest: nat_dvd_not_less [rotated])
    ultimately have "m mod size \<noteq> head (fold push xs b)" by (simp add: head_fold)
    then show ?thesis using snoc.IH [of j] j Suc push_elsewhere by (simp add: m_def nth_append)
  qed
qed simp

text \<open>Read in the order in which they were written, the cells are the last elements.\<close>

lemma last_in_order:
  assumes "m \<le> length xs" and "m \<le> size"
  shows "list_all2 holds (drop (length xs - m) xs)
    (map (\<lambda>j. cell (fold push xs b) ((head b + (length xs - m) + j) mod size)) [0..<m])"
proof (rule list_all2_all_nthI)
  fix j assume "j < length (drop (length xs - m) xs)"
  with assms have j: "j < m" by simp
  have "holds (rev xs ! (m - 1 - j)) (cell (fold push xs b) ((head b + (length xs - 1 - (m - 1 - j))) mod size))"
    using assms j by (intro keeps_last) simp_all
  moreover have "length xs - 1 - (m - 1 - j) = length xs - m + j" using assms j by simp
  moreover have "rev xs ! (m - 1 - j) = xs ! (length xs - m + j)" using assms j by (simp add: rev_nth)
  ultimately show "holds (drop (length xs - m) xs ! j)
    (map (\<lambda>j. cell (fold push xs b) ((head b + (length xs - m) + j) mod size)) [0..<m] ! j)"
    using assms j by (simp add: add.assoc)
qed (use assms in simp)

end

text \<open>The head of each buffer is a machine integer whose width its size divides: overflow does no harm to the cells.\<close>

lemma unat_add_mod:
  assumes "k \<le> LENGTH('a)"
  shows "unat (a + of_nat n :: 'a::len word) mod 2 ^ k = (unat a + n) mod 2 ^ k"
proof -
  have "(2 :: nat) ^ k dvd 2 ^ LENGTH('a)" using assms by (rule le_imp_power_dvd)
  then show ?thesis by (simp add: unat_word_ariths unat_of_nat mod_mod_cancel mod_add_right_eq)
qed

end
