(* ===== verification/Statistics.thy ===== *)
theory Statistics
  imports Scheduler Ring_Buffer "HOL-Library.Multiset"
begin

text \<open>
  The statistics of threads/threads.c and threads/scheduler.c, compiled with \<open>STATS_MODE\<close>: the circular
  buffers of samples and the figures printed from them.
\<close>

section \<open>Sample buffers\<close>

definition NUMBER_OF_SAMPLES :: nat where [simp]: "NUMBER_OF_SAMPLES = 512"
definition NUMBER_OF_CONSUMPTION_SAMPLES :: nat where [simp]: "NUMBER_OF_CONSUMPTION_SAMPLES = 512"

record batch_sample =
  batch_size :: u64
  time_in_seconds :: rat

record sample_buffer =
  data :: "nat \<Rightarrow> batch_sample"
  buffer_head :: u16

record consumption_data =
  consumption_rate :: u64
  pages_available :: u64

record consumption_buffer =
  consumption_samples :: "nat \<Rightarrow> consumption_data"
  consumption_head :: u64

text \<open>One buffer for the trimmer and one for the writer.\<close>

record sample_buffers =
  trim_samples :: sample_buffer
  write_samples :: sample_buffer

definition on_buffer :: "(sample_buffer \<Rightarrow> sample_buffer) \<Rightarrow> nat \<Rightarrow> sample_buffers \<Rightarrow> sample_buffers" where
  "on_buffer f worker g =
     (if worker = WRITING_THREAD_ID then write_samples_update f g else trim_samples_update f g)"

definition buffer_of :: "nat \<Rightarrow> sample_buffers \<Rightarrow> sample_buffer" where
  "buffer_of worker g = (if worker = WRITING_THREAD_ID then write_samples g else trim_samples g)"

definition push_sample :: "batch_sample \<Rightarrow> sample_buffer \<Rightarrow> sample_buffer" where
  "push_sample sample buffer =
     (let i = unat (buffer_head buffer) mod NUMBER_OF_SAMPLES
      in buffer\<lparr>data := (data buffer)(i := sample), buffer_head := buffer_head buffer + 1\<rparr>)"

definition push_to_samples :: "batch_sample \<Rightarrow> nat \<Rightarrow> sample_buffers \<Rightarrow> sample_buffers" where
  "push_to_samples sample = on_buffer (push_sample sample)"

definition record_batch_size_and_time :: "rat \<Rightarrow> u64 \<Rightarrow> nat \<Rightarrow> sample_buffers \<Rightarrow> sample_buffers" where
  "record_batch_size_and_time time_in_fractional_seconds pages =
     push_to_samples \<lparr>batch_size = pages, time_in_seconds = time_in_fractional_seconds\<rparr>"

definition add_consumption_data :: "rat \<Rightarrow> u64 \<Rightarrow> consumption_buffer \<Rightarrow> consumption_buffer" where
  "add_consumption_data rate available buffer =
     (let i = unat (consumption_head buffer) mod NUMBER_OF_SAMPLES
      in buffer\<lparr>consumption_samples := (consumption_samples buffer)
                  (i := \<lparr>consumption_rate = of_int (to_integer rate), pages_available = available\<rparr>),
                consumption_head := consumption_head buffer + 1\<rparr>)"

text \<open>
  The figures \<open>analyze_and_print_statistics\<close> prints: averages and maxima of time and size.  A quotient
  by zero, in C not a number or infinite, is \<open>None\<close>.
\<close>

definition quotient :: "rat \<Rightarrow> rat \<Rightarrow> rat option" where
  "quotient a b = (if b = 0 then None else Some (a / b))"

definition valid_samples :: "sample_buffer \<Rightarrow> batch_sample list" where
  "valid_samples buffer = map (data buffer) [0..<min NUMBER_OF_SAMPLES (unat (buffer_head buffer))]"

record sample_analysis =
  average_time :: "rat option"
  longest_run :: rat
  average_batch_size :: "rat option"
  largest_size :: u64

definition batch_figures :: "batch_sample list \<Rightarrow> sample_analysis" where
  "batch_figures xs =
     (let tcount = of_nat (length xs) in
      \<lparr>average_time = quotient (sum_list (map time_in_seconds xs)) tcount,
       longest_run = fold (\<lambda>x m. max (time_in_seconds x) m) xs 0,
       average_batch_size = quotient (of_nat (unat (sum_list (map batch_size xs)))) tcount,
       largest_size = fold (\<lambda>x m. max (batch_size x) m) xs 0\<rparr>)"

definition analyze_statistics :: "nat \<Rightarrow> sample_buffers \<Rightarrow> sample_analysis" where
  "analyze_statistics worker g = batch_figures (valid_samples (buffer_of worker g))"


text \<open>
  The figures \<open>print_consumption_data\<close> prints: the rate of every time step, the average and the
  highest, in megabytes per second.
\<close>

record consumption_report =
  step_rates :: "u64 list"
  average_rate :: "rat option"
  highest_rate :: rat

definition valid_consumption :: "consumption_buffer \<Rightarrow> u64 list" where
  "valid_consumption buffer = map (\<lambda>i. consumption_rate (consumption_samples buffer i))
     [0..<min NUMBER_OF_CONSUMPTION_SAMPLES (unat (consumption_head buffer))]"

definition print_consumption_data :: "consumption_buffer \<Rightarrow> consumption_report" where
  "print_consumption_data buffer =
     (let rates = valid_consumption buffer;
          total_rate_sum = fold (\<lambda>rate sum. sum + rate) rates 0;
          largest_rate = fold (\<lambda>rate m. max (of_nat (unat rate)) m) rates (0 :: rat);
          page = of_nat (unat PAGE_SIZE) / of_nat (unat (MB 1)) in
      \<lparr>step_rates = map (\<lambda>rate. rate * PAGE_SIZE div MB 1) rates,
       average_rate = map_option (\<lambda>r. r * page) (quotient (of_nat (unat total_rate_sum)) (of_nat (length rates))),
       highest_rate = largest_rate * page\<rparr>)"

text \<open>
  The figures \<open>print_statistics\<close> prints: the pages in each state with their share of the frames, the
  faults of each kind with theirs, and the time spent waiting.
\<close>

definition percentage :: "rat \<Rightarrow> rat \<Rightarrow> rat option" where
  "percentage x all_pages = map_option (\<lambda>q. 100 * q) (quotient x all_pages)"

definition double_of :: "u64 \<Rightarrow> rat" where
  "double_of n = of_int (sint n)"

record statistics_report =
  page_counts :: "(u64 \<times> rat option) list"
  empty_slots :: u64
  fault_counts :: "(u64 \<times> rat option) list"
  seconds_waited :: "rat option"
  faults_missed :: u64

definition print_statistics :: "machine \<Rightarrow> statistics_report" where
  "print_statistics s =
     (let total = allocated_frame_count (vm s);
          n_free = page_count (free_lists s);
          n_modified = list_size (lists s modified_list);
          n_standby = list_size (lists s standby_list);
          active_page_count = total - (n_free + n_modified + n_standby);
          share = (\<lambda>x. percentage x (of_nat (unat total)));
          n_hard = n_hard (stats s); n_soft = n_soft (stats s);
          fault_share = (\<lambda>x. percentage (double_of x) (double_of (n_hard + n_soft))) in
      \<lparr>page_counts =
         [(n_free, share (double_of n_free)),
          (active_page_count, share (of_nat (unat active_page_count))),
          (n_modified, share (double_of n_modified)),
          (n_standby, share (double_of n_standby))],
       empty_slots = empty_disk_slots (pf s),
       fault_counts = [(n_hard, fault_share n_hard), (n_soft, fault_share n_soft)],
       seconds_waited = quotient (double_of (wait_time_total (stats s))) (double_of (timer_frequency (stats s))),
       faults_missed = hard_faults_missed (stats s)\<rparr>)"


section \<open>The buffers as rings\<close>

interpretation samples: ring_buffer push_sample data "\<lambda>b. unat (buffer_head b) mod 512" "(=)" 512
proof
  show "unat (buffer_head (push_sample x b)) mod 512 = (unat (buffer_head b) mod 512 + 1) mod 512" for x b
    using unat_add_mod [of 9 "buffer_head b" 1] by (simp add: push_sample_def Let_def mod_simps)
qed (simp_all add: push_sample_def Let_def)

interpretation rates: ring_buffer "\<lambda>(rate, available). add_consumption_data rate available" consumption_samples
  "\<lambda>b. unat (consumption_head b) mod 512" "\<lambda>(rate, available) c. c = \<lparr>consumption_rate = of_int (to_integer rate), pages_available = available\<rparr>" 512
proof
  show "unat (consumption_head ((\<lambda>(rate, available). add_consumption_data rate available) x b)) mod 512 =
      (unat (consumption_head b) mod 512 + 1) mod 512" for x b
    using unat_add_mod [of 9 "consumption_head b" 1] by (simp add: add_consumption_data_def Let_def mod_simps split: prod.split)
qed (auto simp: add_consumption_data_def Let_def)

lemma head_after:
  "buffer_head (fold push_sample xs b) = buffer_head b + of_nat (length xs)"
  by (induction xs arbitrary: b) (simp_all add: push_sample_def Let_def)

lemma mset_rotate: "mset (rotate n xs) = mset xs"
  by (metis rotate_drop_take mset_append add.commute append_take_drop_id)

text \<open>The heads start at zero; as long as the 16-bit head has not come round, the analysis sees the last samples.\<close>

lemma valid_after:
  assumes "buffer_head b = 0" and "length xs < 2 ^ 16"
  shows "mset (valid_samples (fold push_sample xs b)) = mset (drop (length xs - 512) xs)"
proof -
  let ?m = "min 512 (length xs)" and ?c = "data (fold push_sample xs b)"
  have "drop (length xs - ?m) xs = map (\<lambda>j. ?c ((length xs - ?m + j) mod 512)) [0..<?m]"
    using samples.last_in_order [of ?m xs b] assms(1) by (simp add: list_all2_eq)
  also have "\<dots> = map ?c (rotate (length xs - ?m) [0..<?m])"
    by (rule nth_equalityI) (auto simp: nth_rotate min_def)
  finally have "mset (drop (length xs - ?m) xs) = mset (map ?c [0..<?m])" by (simp only: mset_map mset_rotate)
  moreover have "unat (buffer_head (fold push_sample xs b)) = length xs"
    using assms by (simp add: head_after unat_of_nat)
  moreover have "drop (length xs - ?m) xs = drop (length xs - 512) xs" by (simp add: min_def)
  ultimately show ?thesis by (simp add: valid_samples_def)
qed

text \<open>The figures do not depend on the order of the batches.\<close>

lemma sum_list_permuted:
  fixes f :: "'b \<Rightarrow> 'a::comm_monoid_add"
  shows "mset xs = mset ys \<Longrightarrow> sum_list (map f xs) = sum_list (map f ys)"
  by (metis mset_map sum_mset_sum_list)

lemma fold_max_permuted:
  fixes f :: "'b \<Rightarrow> 'a::linorder"
  shows "mset xs = mset ys \<Longrightarrow> fold (\<lambda>x m. max (f x) m) xs a = fold (\<lambda>x m. max (f x) m) ys a"
  by (rule fold_permuted_eq [where P = "\<lambda>_. True"]) (auto simp: max.left_commute)

lemma batch_figures_cong:
  assumes "mset xs = mset ys"
  shows "batch_figures xs = batch_figures ys"
  unfolding batch_figures_def mset_eq_length [OF assms] sum_list_permuted [OF assms] fold_max_permuted [OF assms] ..

text \<open>The calls of the workers, and the batches of those that use the same buffer as \<open>worker\<close>.\<close>

definition record_batches :: "(rat \<times> u64 \<times> nat) list \<Rightarrow> sample_buffers \<Rightarrow> sample_buffers" where
  "record_batches = fold (\<lambda>(time, pages, worker). record_batch_size_and_time time pages worker)"

definition batches_of :: "nat \<Rightarrow> (rat \<times> u64 \<times> nat) list \<Rightarrow> batch_sample list" where
  "batches_of worker calls = map (\<lambda>(time, pages, _). \<lparr>batch_size = pages, time_in_seconds = time\<rparr>)
     (filter (\<lambda>(_, _, v). (v = WRITING_THREAD_ID) = (worker = WRITING_THREAD_ID)) calls)"

lemma buffer_after: "buffer_of worker (record_batches calls g) = fold push_sample (batches_of worker calls) (buffer_of worker g)"
  by (induction calls arbitrary: g)
    (auto simp: record_batches_def batches_of_def buffer_of_def record_batch_size_and_time_def push_to_samples_def on_buffer_def)


section \<open>Properties\<close>

text \<open>
  C35: the figures of a worker cover its last 512 batches.  Whatever the workers record in whatever order,
  \<open>analyze_and_print_statistics\<close> prints the figures of the last 512 batches of its buffer, from which
  the batches of the writer are kept apart and those of the pruner are not kept apart from the trimmer's.
  This holds for fewer than 65536 batches only: the head of the buffer is a 16-bit number, and as many
  cells are analysed as the number of batches modulo 65536 says, none after exactly 65536.
\<close>

theorem analysis_covers_last_batches:
  assumes "buffer_head (buffer_of worker g) = 0"
  shows "(length (batches_of worker calls) < 2 ^ 16 \<longrightarrow>
       analyze_statistics worker (record_batches calls g) =
         batch_figures (drop (length (batches_of worker calls) - NUMBER_OF_SAMPLES) (batches_of worker calls))) \<and>
    length (valid_samples (buffer_of worker (record_batches calls g))) =
      min NUMBER_OF_SAMPLES (length (batches_of worker calls) mod 2 ^ 16)"
  using batch_figures_cong [OF valid_after [OF assms, of "batches_of worker calls"]] assms
  by (simp add: analyze_statistics_def buffer_after valid_samples_def head_after unat_of_nat)

definition no_samples :: sample_buffers where
  "no_samples = (let b = \<lparr>data = (\<lambda>_. \<lparr>batch_size = 0, time_in_seconds = 0\<rparr>), buffer_head = 0\<rparr>
     in \<lparr>trim_samples = b, write_samples = b\<rparr>)"

lemma analysis_covers_last_batches_witness:
  "analyze_statistics TRIMMING_THREAD_ID (record_batches
       [(1/2, 64, TRIMMING_THREAD_ID), (2, 512, WRITING_THREAD_ID), (1/4, 128, PRUNING_THREAD_ID)] no_samples) =
     \<lparr>average_time = Some (3/8), longest_run = 1/2, average_batch_size = Some 96, largest_size = 128\<rparr> \<and>
   valid_samples (write_samples (record_batches (replicate 65536 (2, 512, WRITING_THREAD_ID)) no_samples)) = []"
proof -
  have "buffer_head (buffer_of w no_samples) = 0" for w by (simp add: no_samples_def buffer_of_def Let_def)
  note covers = analysis_covers_last_batches [OF this]
  have "length (valid_samples (write_samples (record_batches (replicate 65536 (2, 512, WRITING_THREAD_ID)) no_samples))) = 0"
    using covers [of WRITING_THREAD_ID "replicate 65536 (2, 512, WRITING_THREAD_ID)"]
    by (simp add: batches_of_def buffer_of_def)
  moreover have "batches_of 0 [(1/2, 64, 0), (2, 512, 1), (1/4, 128, 2)] =
      [\<lparr>batch_size = 64, time_in_seconds = 1/2\<rparr>, \<lparr>batch_size = 128, time_in_seconds = 1/4\<rparr>]"
    by (simp add: batches_of_def)
  ultimately show ?thesis
    using covers [of 0 "[(1/2, 64, 0), (2, 512, 1), (1/4, 128, 2)]"]
    by (simp add: batch_figures_def quotient_def max_def)
qed

end
