(* ===== verification/Process.thy ===== *)
theory Process
  imports Workers Simulator Statistics
begin

text \<open>
  The process as a whole (threads/simulator.c, threads/releaser.c): the arguments of the command line,
  the test with its threads, and the release of what the initialisation acquired.
\<close>

section \<open>Arguments\<close>

text \<open>
  \<open>strtol(s, NULL, 10)\<close> of the C library, with a \<open>long\<close> of 32 bits: white space, a sign, digits up to
  the first other character; a value out of range saturates.
\<close>

definition is_space :: "char \<Rightarrow> bool" where
  "is_space c \<longleftrightarrow> (of_char c :: nat) \<in> {9, 10, 11, 12, 13, 32}"

definition digit_value :: "char \<Rightarrow> nat option" where
  "digit_value c = (let n = of_char c :: nat in if 48 \<le> n \<and> n \<le> 57 then Some (n - 48) else None)"

primrec read_digits :: "nat \<Rightarrow> string \<Rightarrow> nat" where
  "read_digits acc [] = acc"
| "read_digits acc (c # cs) = (case digit_value c of None \<Rightarrow> acc | Some d \<Rightarrow> read_digits (10 * acc + d) cs)"

definition read_sign :: "string \<Rightarrow> bool \<times> string" where
  "read_sign s = (case s of [] \<Rightarrow> (False, s) | c # cs \<Rightarrow>
     if c = CHR ''-'' then (True, cs) else if c = CHR ''+'' then (False, cs) else (False, s))"

definition strtol :: "string \<Rightarrow> u32" where
  "strtol s =
     (let (negative, digits) = read_sign (dropWhile is_space s);
          n = int (read_digits 0 digits);
          value = (if negative then - n else n)
      in of_int (max (- (2 ^ 31)) (min (2 ^ 31 - 1) value)))"

text \<open>A \<open>long\<close> assigned to a \<open>ULONG64\<close> is extended with its sign.\<close>

definition read_arguments :: "string list \<Rightarrow> vm_state \<Rightarrow> vm_state" where
  "read_arguments argv v = v\<lparr>num_user_threads := strtol (argv ! 1), iterations := scast (strtol (argv ! 2)),
     allocated_frame_count := scast (strtol (argv ! 3)), pages_in_page_file := scast (strtol (argv ! 4))\<rparr>"


section \<open>Resources\<close>

text \<open>
  What the process owns.  A pointer or handle is null until it is acquired; released, it keeps its
  value.  To release a null pointer has no effect, to release one twice corrupts the heap.  The heads of
  the page lists are counted by \<open>heads\<close> of the machine.
\<close>

datatype resource =
    SectionHandle | FrameNumberArray | PhysicalPages
  | ApplicationRegion | WriteRegion | ReadRegion nat
  | PageTable | FreeListArray | PfnRegion
  | PageFile | PageFileBitmaps | SlotStack
  | EventHandle event
  | UserThreadArray | UserThreadIdArray | WorkerThreadIdArray | UserThreadInfo | ThreadHandle thread

datatype pointer = Null | Live | Dangling

record process =
  machine_of :: machine
  ledger :: "resource \<Rightarrow> pointer"

type_synonym 'a pm = "(process, 'a) prog"

definition on_machine :: "'a mm \<Rightarrow> 'a pm" where
  "on_machine = zoom machine_of (\<lambda>s p. p\<lparr>machine_of := s\<rparr>)"

definition acquire :: "resource \<Rightarrow> unit pm" where
  "acquire x = modify (\<lambda>p. p\<lparr>ledger := (ledger p)(x := Live)\<rparr>)"

definition release :: "resource \<Rightarrow> unit pm" where
  "release x = bind (gets (\<lambda>p. ledger p x)) (\<lambda>state. case state of
       Null \<Rightarrow> return ()
     | Live \<Rightarrow> modify (\<lambda>p. p\<lparr>ledger := (ledger p)(x := Dangling)\<rparr>)
     | Dangling \<Rightarrow> raise AccessViolation)"

text \<open>The resources each function of initializer.c acquires, with \<open>n\<close> user threads.\<close>

definition physical_page_resources :: "resource list" where
  "physical_page_resources = [SectionHandle, FrameNumberArray, PhysicalPages]"

definition list_resources :: "resource list" where
  "list_resources = [FreeListArray]"

definition page_file_resources :: "resource list" where
  "page_file_resources = [PageFile, PageFileBitmaps, SlotStack]"

definition event_resources :: "resource list" where
  "event_resources = map EventHandle
     [system_start_event, initiate_aging_event, initiate_trimming_event, initiate_writing_event,
      initiate_pruning_event, standby_pages_ready_event, system_exit_event]"

definition thread_resources :: "nat \<Rightarrow> resource list" where
  "thread_resources n = [UserThreadArray, UserThreadIdArray, WorkerThreadIdArray, UserThreadInfo] @
     map ReadRegion [0..<n] @ map (ThreadHandle \<circ> user_thread) [0..<n] @
     [ThreadHandle scheduling_thread, ThreadHandle trimming_thread, ThreadHandle writing_thread]"

definition initial_resources :: "nat \<Rightarrow> resource list" where
  "initial_resources n = physical_page_resources @ [ApplicationRegion, WriteRegion, PageTable] @ list_resources @
     [PfnRegion] @ page_file_resources @ event_resources @ thread_resources n"

text \<open>A failed initialisation ends the process, so the resources matter only when it succeeds.\<close>

definition initialize_process :: "os \<Rightarrow> grants \<Rightarrow> unit pm" where
  "initialize_process w r =
     bind (on_machine (initialize_system w r)) (\<lambda>_.
     bind (gets (\<lambda>p. unat (num_user_threads (vm (machine_of p))))) (\<lambda>n.
     for_each (initial_resources n) acquire))"


section \<open>The release\<close>

definition free_events :: "unit pm" where
  "free_events = block
     [release UserThreadArray,
      release UserThreadIdArray,
      release (EventHandle system_start_event),
      release (EventHandle standby_pages_ready_event),
      release (EventHandle initiate_aging_event),
      release (EventHandle initiate_trimming_event),
      release (EventHandle initiate_writing_event)]"

definition free_page_file_data :: "unit pm" where
  "free_page_file_data = block [release PageFile, release PageFileBitmaps]"

definition free_PFN_data :: "unit pm" where
  "free_PFN_data = release PfnRegion"

definition free_PTE_data :: "unit pm" where
  "free_PTE_data = release PageTable"

text \<open>The loop reads the addresses of the regions in \<open>user_thread_info\<close>.\<close>

definition free_VA_space_data :: "unit pm" where
  "free_VA_space_data =
     bind (gets (\<lambda>p. unat (num_user_threads (vm (machine_of p))))) (\<lambda>n. block
       [release ApplicationRegion,
        release WriteRegion,
        for_each [0..<n] (\<lambda>i. bind (gets (\<lambda>p. ledger p UserThreadInfo)) (\<lambda>state.
          bind (check_access (state = Live)) (\<lambda>_. release (ReadRegion i))))])"

text \<open>The walk over the page table reads it.\<close>

definition free_all_data_and_shut_down :: "os \<Rightarrow> unit pm" where
  "free_all_data_and_shut_down w = block
     [bind (gets (\<lambda>p. ledger p PageTable)) (\<lambda>state. check_access (state = Live)),
      on_machine (unmap_all_pages w),
      free_events,
      free_page_file_data,
      free_PFN_data,
      free_PTE_data,
      free_VA_space_data,
      release PhysicalPages,
      release FrameNumberArray]"


section \<open>The test\<close>

text \<open>Only with the switch \<open>DO_WORK_TO_SLOW_CONSUMPTION\<close>; the result is dropped.\<close>

definition do_work_to_slow_consumption :: u64 where
  "do_work_to_slow_consumption = ((snd \<circ> xorshift64) ^^ 10) 19941994"

text \<open>What each thread runs, as \<open>initialize_threads\<close> creates them.\<close>

primrec thread_body :: "nat \<Rightarrow> nat \<Rightarrow> os \<Rightarrow> u64 \<Rightarrow> u64 \<Rightarrow> thread \<Rightarrow> unit mm" where
  "thread_body fuel rounds w a b (user_thread i) = run_user_app_simulation fuel w a b i"
| "thread_body fuel rounds w a b scheduling_thread = schedule_tasks rounds w"
| "thread_body fuel rounds w a b trimming_thread = trim_pages_thread rounds w"
| "thread_body fuel rounds w a b writing_thread = write_pages_thread rounds w"

text \<open>
  A wait for the end of a thread lets it run to its end (\<open>run\<close>); what the threads do before is among
  the steps of \<open>others\<close>.  \<open>WaitForMultipleObjects\<close> fails, without waiting, for no handle and for more
  than \<open>MAXIMUM_WAIT_OBJECTS\<close>; \<open>begin_system_test\<close> does not look at its result.
\<close>

definition MAXIMUM_WAIT_OBJECTS :: nat where [simp]: "MAXIMUM_WAIT_OBJECTS = 64"

definition wait_for_all :: "(thread \<Rightarrow> unit mm) \<Rightarrow> thread list \<Rightarrow> unit mm" where
  "wait_for_all run threads =
     (if threads = [] \<or> MAXIMUM_WAIT_OBJECTS < length threads then return () else for_each threads run)"

definition begin_system_test :: "(thread \<Rightarrow> unit mm) \<Rightarrow> unit mm" where
  "begin_system_test run =
     bind (gets (\<lambda>s. unat (num_user_threads (vm s)))) (\<lambda>n. block
       [SetEvent system_start_event,
        wait_for_all run (map user_thread [0..<n]),
        SetEvent system_exit_event,
        run trimming_thread,
        run writing_thread,
        run scheduling_thread])"


section \<open>The program\<close>

datatype outcome = Usage | Finished "rat option" rat

text \<open>
  \<open>argv\<close> starts with the name of the program.  The outcome holds the figures that are printed: the
  ratio of physical to virtual memory in percent and the seconds the test took.
\<close>

definition physical_ratio :: "vm_state \<Rightarrow> rat option" where
  "physical_ratio v = map_option (\<lambda>q. 100 * q)
     (quotient (of_nat (unat (allocated_frame_count v))) (of_int (VA_SPAN (allocated_frame_count v) (pages_in_page_file v))))"

definition main :: "(thread \<Rightarrow> unit mm) \<Rightarrow> os \<Rightarrow> grants \<Rightarrow> string list \<Rightarrow> outcome pm" where
  "main run w r argv =
     bind (on_machine (on_vm set_defaults)) (\<lambda>_.
     if length argv = 5 then
       bind (on_machine (on_vm (read_arguments argv))) (\<lambda>_.
       bind (gets (\<lambda>p. physical_ratio (vm (machine_of p)))) (\<lambda>ratio.
       bind (initialize_process w r) (\<lambda>_.
       bind (on_machine (get_timestamp w)) (\<lambda>start_time.
       bind (on_machine (begin_system_test run)) (\<lambda>_.
       bind (on_machine (get_timestamp w)) (\<lambda>end_time.
       bind (on_machine (get_time_difference end_time start_time)) (\<lambda>runtime.
       bind (free_all_data_and_shut_down w) (\<lambda>_.
       return (Finished ratio runtime)))))))))
     else return Usage)"

end
