(* ===== verification/User_Events.thy ===== *)
theory User_Events
  imports Process
begin

text \<open>
  The start and the exit event belong to the main thread: neither the fault handler, nor a user thread,
  nor the loop of a worker sets or resets them, if the other threads do not.
\<close>

abbreviation main_events :: "event set" where
  "main_events \<equiv> {system_start_event, system_exit_event}"

abbreviation keeps_main :: "'a mm \<Rightarrow> bool" where
  "keeps_main \<equiv> keeps_events main_events"

lemma keeps_write_cache [keeps]: "keeps_events E (write_cache t i p)"
  unfolding write_cache_def by (intro keeps)

lemma keeps_checked_mod [keeps]: "keeps_events E (checked_mod a b)"
  unfolding checked_mod_def by (intro keeps)

lemma keeps_free_list_locks [keeps]:
  "keeps_events E (try_lock_free_list i)" "keeps_events E (unlock_free_list i)"
  unfolding try_lock_free_list_def unlock_free_list_def by (intro keeps)+

lemma keeps_exclusive_batch [keeps]: "keeps_events E (remove_batch_from_list_head_exclusive l n)"
proof -
  have pages: "keeps_events E (take_pages n h p k)" for n h p k
    by (induction n arbitrary: p k) (auto intro!: keeps)
  show ?thesis unfolding remove_batch_from_list_head_exclusive_def by (intro keeps pages)
qed

lemma keeps_fill_cache [keeps]: "keeps_events E (fill_cache n t i p)"
  by (induction n arbitrary: i p) (auto intro!: keeps)

lemma keeps_refill [keeps]: "keeps_events E (try_refill_cache_from_free_list i t)"
  unfolding try_refill_cache_from_free_list_def Let_def decrease_free_lists_total_count_def decrease_available_count_def
  by (intro keeps)

lemma keeps_free_pages [keeps]: "keeps_events E (try_get_free_pages t)"
proof -
  have "keeps_events E (try_free_lists n count i t)" for n count i
    by (induction n arbitrary: i) (auto intro!: keeps)
  then show ?thesis unfolding try_get_free_pages_def by (intro keeps)
qed

lemma keeps_add_page [keeps]: "keeps_events E (add_page_to_cache_or_free_list p i t)"
proof -
  have "keeps_events E (find_free_list n count i)" for n count i
    by (induction n arbitrary: i) (auto intro!: keeps)
  then show ?thesis unfolding add_page_to_cache_or_free_list_def increment_free_lists_total_count_def by (intro keeps)
qed

lemma keeps_soft_removal [keeps]: "keeps_main (remove_page_on_soft_fault l p)"
proof -
  have after: "keeps_main (after_soft_removal l)"
    unfolding after_soft_removal_def decrement_list_size_def decrement_available_count_def by (intro keeps) simp_all
  have remove: "keeps_main (remove_page_from_list p)" for p unfolding remove_page_from_list_def by (intro keeps)
  have "keeps_main (soft_fault_attempts n l p f b v)" for n f b v
    by (induction n arbitrary: v) (auto simp: Let_def intro!: keeps after remove simp del: block_Cons)
  then show ?thesis unfolding remove_page_on_soft_fault_def by (intro keeps after remove)
qed

lemma keeps_map_single [keeps]: "keeps_events E (map_single_page_from_pte w i)"
  unfolding map_single_page_from_pte_def by (intro keeps)

lemma keeps_soft_fault [keeps]: "keeps_main (resolve_soft_fault w i)"
proof -
  have leave: "keeps_main (leave_list p)" for p unfolding leave_list_def by (intro keeps) simp_all
  have "keeps_main (soft_fault_find_page i)" unfolding soft_fault_find_page_def by (intro keeps)
  moreover have "keeps_main (soft_fault_with_page w i p)" for p
    unfolding soft_fault_with_page_def count_soft_def by (intro keeps leave)
  ultimately show ?thesis unfolding resolve_soft_fault_def by (intro keeps)
qed

lemma keeps_obtain_page [keeps]: "keeps_main (obtain_free_page n t)"
proof -
  have acquire: "keeps_main (acquire_free_page t)" unfolding acquire_free_page_def by (intro keeps)
  have owners: "keeps_main (take_from_owners n t i p)" for n i p
    by (induction n arbitrary: i p) (auto intro!: keeps)
  have move: "keeps_main (move_batch_from_standby_to_cache t)"
    unfolding move_batch_from_standby_to_cache_def Let_def by (intro keeps owners) simp
  show ?thesis by (induction n) (auto intro!: keeps acquire move simp del: block_Cons)
qed

lemma keeps_wait [keeps]: "keeps_events E (others w) \<Longrightarrow> keeps_events E (WaitForSingleObject w e)"
  unfolding WaitForSingleObject_def by (intro keeps)

lemma keeps_hard_fault [keeps]:
  assumes others: "keeps_main (others w)"
  shows "keeps_main (resolve_hard_fault w i t)"
proof -
  have wait: "keeps_main (wait_for_pages w)" unfolding wait_for_pages_def by (intro keeps others) simp_all
  have unmap: "keeps_main (unmap_and_reset_all_kernal_va_for_this_thread w t)"
    unfolding unmap_and_reset_all_kernal_va_for_this_thread_def Let_def by (intro keeps) simp_all
  have give: "keeps_main (give_page_back t p)" for p
    unfolding give_page_back_def increment_available_count_def by (intro keeps)
  have map: "keeps_main (map_for_hard_fault w t i va f)" for va f
    unfolding map_for_hard_fault_def map_both_va_to_same_page_def by (intro keeps) simp_all
  have fill: "keeps_main (fill_page i va)" for va
    unfolding fill_page_def Let_def write_page_def by (intro keeps) simp_all
  have finish: "keeps_main (finish_hard_fault w t i p f)" for p f
    unfolding finish_hard_fault_def count_hard_def by (intro keeps unmap)
  have "keeps_main (hard_fault_with_page w i t p)" for p
    unfolding hard_fault_with_page_def Let_def by (intro keeps give map fill finish)
  then show ?thesis unfolding resolve_hard_fault_def by (intro keeps wait)
qed

lemma keeps_page_fault_handler [keeps]:
  assumes "keeps_main (others w)"
  shows "keeps_main (page_fault_handler n w va t)"
proof -
  have "keeps_main (fault_rounds n w i t)" for i
    by (induction n) (auto intro!: keeps assms)
  then show ?thesis unfolding page_fault_handler_def by (intro keeps)
qed

lemma keeps_user_thread:
  assumes "keeps_main (others w)"
  shows "keeps_main (run_user_app_simulation fuel w a b t)"
proof -
  have store: "keeps_main (store_word va x)" for va x unfolding store_word_def by (intro keeps) simp_all
  have access: "keeps_main (access_va n w a b va t)" for n va
    by (induction n) (auto intro!: keeps store assms)
  have "keeps_main (user_accesses n fuel w a b va t)" for n va
    by (induction n arbitrary: va) (auto intro!: keeps access)
  then show ?thesis unfolding run_user_app_simulation_def by (intro keeps assms)
qed

lemma keeps_worker_loop:
  assumes "keeps_main (others w)" and "keeps_main work" and "active \<notin> main_events"
  shows "keeps_main (worker_loop n w active work)"
proof -
  have poll: "keeps_main (poll [active, system_exit_event])"
    using assms(3) by (auto simp: poll_def keeps_events_def consume_def prog_simps run_if_def split: if_splits)
  have "keeps_main (worker_turn w active work)"
    unfolding worker_turn_def WaitForMultipleObjects_def by (intro keeps poll assms)
  then show ?thesis by (induction n) (auto intro!: keeps)
qed

end
