(* ===== verification/Paging_Spec.thy ===== *)
theory Paging_Spec
  imports Disk
begin

text \<open>
  What the memory manager promises: paging is invisible.  Each virtual page is in one of six states,
  and the steps of the manager move pages between them.  The content of a page is determined by its
  state, the frames and the page file; only a store of the owner changes it.

  The components refine this specification: each of their operations is a sequence of steps on the
  states that theory Ownership reads off the page table and the descriptors.
\<close>

section \<open>States and content\<close>

datatype page_state =
    Untouched
  | Resident u64
  | Modified u64
  | Writing u64
  | Standby u64 u64
  | OnDisk u64

primrec frame_of :: "page_state \<Rightarrow> u64 option" where
  "frame_of Untouched = None"
| "frame_of (Resident f) = Some f"
| "frame_of (Modified f) = Some f"
| "frame_of (Writing f) = Some f"
| "frame_of (Standby f d) = Some f"
| "frame_of (OnDisk d) = None"

primrec slot_held :: "page_state \<Rightarrow> u64 option" where
  "slot_held Untouched = None"
| "slot_held (Resident f) = None"
| "slot_held (Modified f) = None"
| "slot_held (Writing f) = None"
| "slot_held (Standby f d) = Some d"
| "slot_held (OnDisk d) = Some d"

record paging =
  state :: "nat \<Rightarrow> page_state"
  memory :: "u64 \<Rightarrow> page"
  disk :: "nat \<Rightarrow> page"

primrec content_of :: "(u64 \<Rightarrow> page) \<Rightarrow> (nat \<Rightarrow> page) \<Rightarrow> page_state \<Rightarrow> page" where
  "content_of mem dsk Untouched = zero_page"
| "content_of mem dsk (Resident f) = mem f"
| "content_of mem dsk (Modified f) = mem f"
| "content_of mem dsk (Writing f) = mem f"
| "content_of mem dsk (Standby f d) = mem f"
| "content_of mem dsk (OnDisk d) = dsk (unat d)"

definition content :: "paging \<Rightarrow> nat \<Rightarrow> page" where
  "content P i = content_of (memory P) (disk P) (state P i)"

text \<open>
  No two pages share a frame or a slot, and a standby page has the same content in its frame and in
  its slot.
\<close>

definition unshared :: "(nat \<Rightarrow> 'a option) \<Rightarrow> bool" where
  "unshared g \<longleftrightarrow> (\<forall>i j x. g i = Some x \<longrightarrow> g j = Some x \<longrightarrow> i = j)"

definition paging_inv :: "paging \<Rightarrow> bool" where
  "paging_inv P \<longleftrightarrow> unshared (\<lambda>i. frame_of (state P i)) \<and> unshared (\<lambda>i. slot_held (state P i)) \<and>
     (\<forall>i f d. state P i = Standby f d \<longrightarrow> disk P (unat d) = memory P f)"

definition frame_unused :: "paging \<Rightarrow> u64 \<Rightarrow> bool" where
  "frame_unused P f \<longleftrightarrow> (\<forall>i. frame_of (state P i) \<noteq> Some f)"

definition slot_unused :: "paging \<Rightarrow> u64 \<Rightarrow> bool" where
  "slot_unused P d \<longleftrightarrow> (\<forall>i. slot_held (state P i) \<noteq> Some d)"


section \<open>Steps\<close>

inductive manager_step :: "paging \<Rightarrow> paging \<Rightarrow> bool" where
  soft_fault: "state P i \<in> {Modified f, Writing f, Standby f d} \<Longrightarrow>
     manager_step P (P\<lparr>state := (state P)(i := Resident f)\<rparr>)"
| take_standby: "state P i = Standby f d \<Longrightarrow>
     manager_step P (P\<lparr>state := (state P)(i := OnDisk d)\<rparr>)"
| first_touch: "state P i = Untouched \<Longrightarrow> frame_unused P f \<Longrightarrow>
     manager_step P (P\<lparr>state := (state P)(i := Resident f), memory := (memory P)(f := zero_page)\<rparr>)"
| read_back: "state P i = OnDisk d \<Longrightarrow> frame_unused P f \<Longrightarrow>
     manager_step P (P\<lparr>state := (state P)(i := Resident f), memory := (memory P)(f := disk P (unat d))\<rparr>)"
| trim: "state P i = Resident f \<Longrightarrow>
     manager_step P (P\<lparr>state := (state P)(i := Modified f)\<rparr>)"
| start_write: "state P i = Modified f \<Longrightarrow>
     manager_step P (P\<lparr>state := (state P)(i := Writing f)\<rparr>)"
| copy_out: "slot_unused P d \<Longrightarrow>
     manager_step P (P\<lparr>disk := (disk P)(unat d := c)\<rparr>)"
| finish_write: "state P i = Writing f \<Longrightarrow> slot_unused P d \<Longrightarrow> disk P (unat d) = memory P f \<Longrightarrow>
     manager_step P (P\<lparr>state := (state P)(i := Standby f d)\<rparr>)"

text \<open>A store of the owner, possible on a resident page only.\<close>

inductive user_store :: "nat \<Rightarrow> nat \<Rightarrow> u64 \<Rightarrow> paging \<Rightarrow> paging \<Rightarrow> bool" for i k v where
  "state P i = Resident f \<Longrightarrow>
   user_store i k v P (P\<lparr>memory := (memory P)(f := (memory P f)(k := v))\<rparr>)"

inductive_cases user_storeE: "user_store i k v P Q"

lemma unshared_upd:
  "unshared g \<Longrightarrow> (\<And>x j. y = Some x \<Longrightarrow> g j = Some x \<Longrightarrow> j = i) \<Longrightarrow> unshared (g(i := y))"
  by (auto simp: unshared_def)

lemma unshared_state:
  "unshared (\<lambda>j. h (if j = i then st else g j)) = unshared ((\<lambda>j. h (g j))(i := h st))"
  by (rule arg_cong [of _ _ unshared]) auto

lemma paging_frames: "paging_inv P \<Longrightarrow> unshared (\<lambda>i. frame_of (state P i))"
  and paging_slots: "paging_inv P \<Longrightarrow> unshared (\<lambda>i. slot_held (state P i))"
  and paging_clean: "paging_inv P \<Longrightarrow> state P i = Standby f d \<Longrightarrow> disk P (unat d) = memory P f"
  by (simp_all add: paging_inv_def)

lemma same_frame: "paging_inv P \<Longrightarrow> frame_of (state P i) = Some f \<Longrightarrow> frame_of (state P j) = Some f \<Longrightarrow> i = j"
  using paging_frames [of P] unfolding unshared_def by blast

lemma same_slot: "paging_inv P \<Longrightarrow> slot_held (state P i) = Some d \<Longrightarrow> slot_held (state P j) = Some d \<Longrightarrow> i = j"
  using paging_slots [of P] unfolding unshared_def by blast

text \<open>A change of state that keeps the frame, or drops it, and keeps or drops the slot.\<close>

lemma paging_inv_move:
  assumes inv: "paging_inv P" and "frame_of st \<in> {None, frame_of (state P i)}"
    and "slot_held st \<in> {None, slot_held (state P i)}"
    and "\<And>f d. st = Standby f d \<Longrightarrow> state P i = Standby f d"
  shows "paging_inv (P\<lparr>state := (state P)(i := st)\<rparr>)"
proof -
  have "unshared ((\<lambda>j. frame_of (state P j))(i := frame_of st))"
    using assms(2) same_frame [OF inv] by (intro unshared_upd paging_frames inv) (metis insertE singletonD option.distinct(1))
  moreover have "unshared ((\<lambda>j. slot_held (state P j))(i := slot_held st))"
    using assms(3) same_slot [OF inv] by (intro unshared_upd paging_slots inv) (metis insertE singletonD option.distinct(1))
  ultimately show ?thesis
    using assms(4) paging_clean [OF inv] by (simp add: paging_inv_def unshared_state) blast
qed

text \<open>A page comes in: the frame was unused.\<close>

lemma paging_inv_load:
  assumes inv: "paging_inv P" and "frame_unused P f"
  shows "paging_inv (P\<lparr>state := (state P)(i := Resident f), memory := (memory P)(f := c)\<rparr>)"
proof -
  have "unshared ((\<lambda>j. frame_of (state P j))(i := Some f))"
    using assms(2) by (intro unshared_upd paging_frames inv) (auto simp: frame_unused_def)
  moreover have "unshared ((\<lambda>j. slot_held (state P j))(i := None))"
    by (intro unshared_upd paging_slots inv) auto
  moreover have "disk P (unat d) = ((memory P)(f := c)) g"
    if "((state P)(i := Resident f)) j = Standby g d" for j g d
  proof -
    have "state P j = Standby g d" using that by (auto split: if_splits)
    moreover from this have "g \<noteq> f" using assms(2) by (auto simp: frame_unused_def dest: spec [of _ j])
    ultimately show ?thesis using paging_clean [OF inv] by simp
  qed
  ultimately show ?thesis by (simp add: paging_inv_def unshared_state)
qed

lemma frame_unused_content:
  "frame_unused P f \<Longrightarrow> content (P\<lparr>memory := (memory P)(f := c)\<rparr>) j = content P j"
proof -
  assume "frame_unused P f"
  then have "frame_of (state P j) \<noteq> Some f" by (simp add: frame_unused_def)
  then show ?thesis by (cases "state P j") (auto simp: content_def)
qed

lemma manager_step_inv: "manager_step P Q \<Longrightarrow> paging_inv P \<Longrightarrow> paging_inv Q"
proof (induction rule: manager_step.induct)
  case (copy_out P d c)
  have "disk P (unat e) = ((disk P)(unat d := c)) (unat e)" if "state P i = Standby f e" for i f e
  proof -
    have "slot_held (state P i) = Some e" using that by simp
    then have "e \<noteq> d" using copy_out by (auto simp: slot_unused_def)
    then show ?thesis by (simp add: word_unat_eq_iff)
  qed
  then show ?case using copy_out by (simp add: paging_inv_def)
next
  case (finish_write P i f d)
  note inv = finish_write.prems
  have "unshared ((\<lambda>j. frame_of (state P j))(i := Some f))"
    using finish_write.hyps(1) same_frame [OF inv, of _ f i] by (intro unshared_upd paging_frames inv) auto
  moreover have "unshared ((\<lambda>j. slot_held (state P j))(i := Some d))"
    using finish_write.hyps(2) by (intro unshared_upd paging_slots inv) (auto simp: slot_unused_def)
  ultimately show ?case
    using finish_write.hyps(3) paging_clean [OF inv] by (simp add: paging_inv_def unshared_state)
qed (auto intro!: paging_inv_move paging_inv_load)

lemma manager_step_content: "manager_step P Q \<Longrightarrow> paging_inv P \<Longrightarrow> content Q j = content P j"
proof (induction rule: manager_step.induct)
  case (copy_out P d c)
  have "unat e = unat d \<Longrightarrow> state P j = OnDisk e \<Longrightarrow> False" for e
    using copy_out by (auto simp: slot_unused_def word_unat_eq_iff dest: spec [of _ j])
  then show ?case by (cases "state P j") (auto simp: content_def)
next
  case (first_touch P i f)
  show ?case
  proof (cases "j = i")
    case False
    then have "content (P\<lparr>state := (state P)(i := Resident f), memory := (memory P)(f := zero_page)\<rparr>) j =
        content (P\<lparr>memory := (memory P)(f := zero_page)\<rparr>) j"
      by (cases "state P j") (simp_all add: content_def)
    then show ?thesis using frame_unused_content [OF first_touch.hyps(2)] by simp
  qed (use first_touch in \<open>simp add: content_def\<close>)
next
  case (read_back P i d f)
  show ?case
  proof (cases "j = i")
    case False
    then have "content (P\<lparr>state := (state P)(i := Resident f), memory := (memory P)(f := disk P (unat d))\<rparr>) j =
        content (P\<lparr>memory := (memory P)(f := disk P (unat d))\<rparr>) j"
      by (cases "state P j") (simp_all add: content_def)
    then show ?thesis using frame_unused_content [OF read_back.hyps(2)] by simp
  qed (use read_back in \<open>simp add: content_def\<close>)
qed (auto simp: content_def paging_clean)

lemma manager_steps:
  "manager_step\<^sup>*\<^sup>* P Q \<Longrightarrow> paging_inv P \<Longrightarrow> paging_inv Q \<and> (\<forall>j. content Q j = content P j)"
  by (induction rule: rtranclp_induct) (auto simp: manager_step_inv manager_step_content)

lemma user_store_inv: "user_store i k v P Q \<Longrightarrow> paging_inv P \<Longrightarrow> paging_inv Q"
proof (erule user_store.cases)
  fix R f
  assume "P = R" "Q = R\<lparr>memory := (memory R)(f := (memory R f)(k := v))\<rparr>" "state R i = Resident f"
    "paging_inv P"
  moreover have "g \<noteq> f" if "state R j = Standby g d" for j g d
    using that same_frame [of R i f j] calculation by auto
  ultimately show "paging_inv Q" by (auto simp: paging_inv_def)
qed

lemma user_store_content:
  assumes "user_store i k v P Q" and "paging_inv P"
  shows "content Q j = (if j = i then (content P i)(k := v) else content P j)"
proof -
  from assms(1) obtain f where Q: "Q = P\<lparr>memory := (memory P)(f := (memory P f)(k := v))\<rparr>"
    and f: "state P i = Resident f" by (auto elim: user_storeE)
  have "frame_of (state P j) \<noteq> Some f" if "j \<noteq> i"
    using same_frame [OF assms(2), of i f j] f that by auto
  then show ?thesis using Q f by (cases "state P j") (auto simp: content_def)
qed


section \<open>A run\<close>

inductive paging_run :: "paging \<Rightarrow> (nat \<times> nat \<times> u64) list \<Rightarrow> paging \<Rightarrow> bool" where
  start: "paging_run P [] P"
| manage: "paging_run P stores Q \<Longrightarrow> manager_step Q R \<Longrightarrow> paging_run P stores R"
| store: "paging_run P stores Q \<Longrightarrow> user_store i k v Q R \<Longrightarrow> paging_run P (stores @ [(i, k, v)]) R"

text \<open>The memory a program without paging would see after the stores.\<close>

definition flat_store :: "nat \<times> nat \<times> u64 \<Rightarrow> (nat \<Rightarrow> page) \<Rightarrow> nat \<Rightarrow> page" where
  "flat_store st m = (case st of (i, k, v) \<Rightarrow> m(i := (m i)(k := v)))"

lemma paging_is_invisible:
  "paging_run P stores Q \<Longrightarrow> paging_inv P \<Longrightarrow>
   paging_inv Q \<and> content Q = fold flat_store stores (content P)"
proof (induction rule: paging_run.induct)
  case (manage P stores Q R)
  then show ?case using manager_step_inv manager_step_content by (auto simp: fun_eq_iff)
next
  case (store P stores Q i k v R)
  then show ?case using user_store_inv user_store_content [OF store.hyps(2)]
    by (auto simp: flat_store_def fun_eq_iff)
qed simp

end
