(* ===== verification/Ownership.thy ===== *)
theory Ownership
  imports Paging_Spec
begin

text \<open>
  How the page table and the descriptors encode the state of every page.  A \<open>book\<close> holds what matters
  of them: the views of the entries and, for every frame, status, owner and disk slot.  The lemmas
  give the effect of each state change of pte.c and pfn.c on the book: it stays consistent, and
  exactly one page changes its state.

  \<open>K\<close> is the set of frames a thread has in hand (locked): only those may be mid-trim, with the entry
  in transition and the descriptor still active.
\<close>

text \<open>An entry that is valid with the status bit set would have no descriptor.\<close>

definition sane_view :: "u64 \<Rightarrow> pte_view" where
  "sane_view w = (if IS_PTE_VALID w \<and> get_status w \<noteq> 0 then LimboView else pte_view w)"

lemma sane_viewD:
  "sane_view w = ValidView f \<Longrightarrow> pte_view w = ValidView f \<and> get_status w = 0"
  "sane_view w = TransitionView f \<Longrightarrow> pte_view w = TransitionView f"
  "sane_view w = DiskView d \<Longrightarrow> pte_view w = DiskView d"
  "sane_view w = ZeroedView \<Longrightarrow> pte_view w = ZeroedView"
  by (auto simp: sane_view_def pte_view_valid_iff split: if_splits)

lemma sane_view_zero [simp]: "sane_view 0 = ZeroedView"
  by (simp add: sane_view_def)

lemma fits40: "unat (f :: u64) < 2 ^ 40 \<Longrightarrow> take_bit 40 f = f"
  by (simp only: take_bit_less_iff)

lemma sane_set_valid: "unat f < 2 ^ 40 \<Longrightarrow> sane_view (set_PTE_to_valid f w) = ValidView f"
  by (simp add: sane_view_def view_set_PTE_to_valid fits40)
    (simp add: set_PTE_to_valid_def pte_fields)

lemma sane_map_to_disk: "unat d < 2 ^ 40 \<Longrightarrow> sane_view (map_pte_to_disk d w) = DiskView d"
  using view_map_pte_to_disk [of d w] by (auto simp: sane_view_def fits40 pte_view_valid_iff)

lemma sane_set_transition:
  "sane_view w = ValidView f \<Longrightarrow> f \<noteq> 0 \<Longrightarrow> sane_view (set_PTE_to_transition w) = TransitionView f"
proof -
  assume "sane_view w = ValidView f" "f \<noteq> 0"
  then have "get_frame_number w = f" using sane_viewD(1) pte_view_ValidD by blast
  then have "pte_view (set_PTE_to_transition w) = TransitionView f"
    using view_set_PTE_to_transition [of w] \<open>f \<noteq> 0\<close> by simp
  then show ?thesis by (auto simp: sane_view_def pte_view_valid_iff)
qed


section \<open>Books\<close>

record book =
  view :: "nat \<Rightarrow> pte_view"
  fstatus :: "u64 \<Rightarrow> u64"
  fowner :: "u64 \<Rightarrow> nat option"
  fslot :: "u64 \<Rightarrow> u64"

definition entry_state :: "nat \<Rightarrow> book \<Rightarrow> nat \<Rightarrow> page_state" where
  "entry_state n B i = (if n \<le> i then Untouched else case view B i of
       ZeroedView \<Rightarrow> Untouched
     | LimboView \<Rightarrow> Untouched
     | ValidView f \<Rightarrow> Resident f
     | DiskView d \<Rightarrow> OnDisk d
     | TransitionView f \<Rightarrow>
         if fstatus B f = PFN_STANDBY then Standby f (fslot B f)
         else if fstatus B f = PFN_MID_WRITE then Writing f
         else Modified f)"

primrec frame_at :: "pte_view \<Rightarrow> u64 option" where
  "frame_at ZeroedView = None"
| "frame_at LimboView = None"
| "frame_at (DiskView d) = None"
| "frame_at (ValidView f) = Some f"
| "frame_at (TransitionView f) = Some f"

definition entry_ok :: "u64 set \<Rightarrow> u64 set \<Rightarrow> book \<Rightarrow> nat \<Rightarrow> bool" where
  "entry_ok com K B i \<longleftrightarrow> (case view B i of
       ZeroedView \<Rightarrow> True
     | LimboView \<Rightarrow> False
     | DiskView d \<Rightarrow> True
     | ValidView f \<Rightarrow> f \<in> com \<and> fowner B f = Some i \<and> fstatus B f = PFN_ACTIVE
     | TransitionView f \<Rightarrow> f \<in> com \<and> fowner B f = Some i \<and>
         (fstatus B f \<in> {PFN_MODIFIED, PFN_MID_WRITE, PFN_STANDBY} \<or>
          fstatus B f = PFN_ACTIVE \<and> f \<in> K))"

definition book_ok :: "nat \<Rightarrow> u64 set \<Rightarrow> u64 set \<Rightarrow> book \<Rightarrow> bool" where
  "book_ok n com K B \<longleftrightarrow> (\<forall>i < n. entry_ok com K B i) \<and>
     (\<forall>f \<in> com. fstatus B f \<noteq> PFN_FREE \<longrightarrow> (\<exists>i < n. frame_at (view B i) = Some f))"

lemma frame_of_entry_state: "i < n \<Longrightarrow> frame_of (entry_state n B i) = frame_at (view B i)"
  by (simp add: entry_state_def split: pte_view.split)

lemma entry_ok_owner:
  "entry_ok com K B i \<Longrightarrow> frame_at (view B i) = Some f \<Longrightarrow>
   f \<in> com \<and> fowner B f = Some i \<and> fstatus B f \<noteq> PFN_FREE"
  by (auto simp: entry_ok_def split: pte_view.splits)

lemma book_ok_owner:
  "book_ok n com K B \<Longrightarrow> i < n \<Longrightarrow> frame_at (view B i) = Some f \<Longrightarrow>
   f \<in> com \<and> fowner B f = Some i \<and> fstatus B f \<noteq> PFN_FREE"
  using entry_ok_owner [of com K B i f] by (simp add: book_ok_def)

text \<open>A frame that is not free belongs to the entry its descriptor names.\<close>

lemma book_ok_frame:
  assumes "book_ok n com K B" and "f \<in> com" and "fstatus B f \<noteq> PFN_FREE"
  obtains i where "i < n" and "fowner B f = Some i" and "frame_at (view B i) = Some f"
  using assms book_ok_owner unfolding book_ok_def by blast

lemma book_unshared: "book_ok n com K B \<Longrightarrow> unshared (\<lambda>i. frame_of (entry_state n B i))"
proof -
  assume ok: "book_ok n com K B"
  have "i < n \<and> fowner B f = Some i" if "frame_of (entry_state n B i) = Some f" for i f
  proof -
    have "i < n" using that by (simp add: entry_state_def split: if_splits)
    then show ?thesis using that book_ok_owner [OF ok] by (simp add: frame_of_entry_state)
  qed
  then show ?thesis unfolding unshared_def by (metis option.inject)
qed


section \<open>Changes\<close>

text \<open>
  The general change: entry \<open>i\<close> and frame \<open>f\<close>, which no other entry refers to.
\<close>

definition change :: "nat \<Rightarrow> u64 \<Rightarrow> pte_view \<Rightarrow> u64 \<Rightarrow> nat option \<Rightarrow> u64 \<Rightarrow> book \<Rightarrow> book" where
  "change i f v st ow sl B = B\<lparr>view := (view B)(i := v), fstatus := (fstatus B)(f := st),
     fowner := (fowner B)(f := ow), fslot := (fslot B)(f := sl)\<rparr>"

lemma change_other:
  assumes "j \<noteq> i" and "frame_at (view B j) \<noteq> Some f"
  shows "entry_state n (change i f v st ow sl B) j = entry_state n B j"
    and "entry_ok com K (change i f v st ow sl B) j = entry_ok com K B j"
  using assms by (auto simp: change_def entry_state_def entry_ok_def split: pte_view.split)

lemma book_change:
  assumes ok: "book_ok n com K B" and i: "i < n"
    and mine: "frame_at (view B i) = Some f \<or> frame_at (view B i) = None \<and> fstatus B f = PFN_FREE"
    and new: "entry_ok com K' (change i f v st ow sl B) i"
    and keep: "f \<in> com \<longrightarrow> st \<noteq> PFN_FREE \<longrightarrow> frame_at v = Some f"
    and K: "K - {f} \<subseteq> K'"
  shows "book_ok n com K' (change i f v st ow sl B)"
    and "entry_state n (change i f v st ow sl B) =
         (entry_state n B)(i := entry_state n (change i f v st ow sl B) i)"
proof -
  let ?B = "change i f v st ow sl B"
  have other: "frame_at (view B j) \<noteq> Some f" if "j < n" "j \<noteq> i" for j
    using mine that book_ok_owner [OF ok] i by (metis option.inject)
  have same: "entry_state n ?B j = entry_state n B j" if "j \<noteq> i" for j
  proof (cases "j < n")
    case True
    then show ?thesis using change_other(1) other that by blast
  qed (simp add: entry_state_def)
  have "entry_ok com K' ?B j" if "j < n" for j
  proof (cases "j = i")
    case False
    have *: "frame_at (view B j) \<noteq> Some f" using other that False by blast
    have "entry_ok com K B j" using ok that by (simp add: book_ok_def)
    then have "entry_ok com K' B j"
      using K * by (auto simp: entry_ok_def split: pte_view.splits)
    then show ?thesis using change_other(2) [OF False *] by simp
  qed (use new in simp)
  moreover have "\<exists>j < n. frame_at (view ?B j) = Some g" if g: "g \<in> com" "fstatus ?B g \<noteq> PFN_FREE" for g
  proof (cases "g = f")
    case True
    then have "st \<noteq> PFN_FREE" using g(2) by (simp add: change_def)
    then have "frame_at (view ?B i) = Some g" using keep True g(1) by (simp add: change_def)
    then show ?thesis using i by blast
  next
    case False
    then have "fstatus B g \<noteq> PFN_FREE" using g(2) by (simp add: change_def)
    then obtain j where j: "j < n" "frame_at (view B j) = Some g"
      using ok g(1) unfolding book_ok_def by blast
    then have "j \<noteq> i" using mine False by auto
    then have "frame_at (view ?B j) = Some g" using j(2) by (simp add: change_def)
    then show ?thesis using j(1) by blast
  qed
  ultimately show "book_ok n com K' ?B" by (simp add: book_ok_def)
  show "entry_state n ?B = (entry_state n B)(i := entry_state n ?B i)"
    using same by (auto simp: fun_eq_iff)
qed

text \<open>\<open>set_PTE_to_valid\<close> and \<open>set_PFN_active\<close>: the page is resident.\<close>

definition book_activate :: "nat \<Rightarrow> u64 \<Rightarrow> book \<Rightarrow> book" where
  "book_activate i f = change i f (ValidView f) PFN_ACTIVE (Some i) 0"

lemma book_activate:
  assumes "book_ok n com K B" and "i < n" and "f \<in> com"
    and "frame_at (view B i) = Some f \<or> frame_at (view B i) = None \<and> fstatus B f = PFN_FREE"
    and "K - {f} \<subseteq> K'"
  shows "book_ok n com K' (book_activate i f B)"
    and "entry_state n (book_activate i f B) = (entry_state n B)(i := Resident f)"
  using book_change [OF assms(1,2,4) _ _ assms(5), of "ValidView f" PFN_ACTIVE "Some i" 0] assms(2,3)
  by (simp_all add: book_activate_def entry_ok_def entry_state_def change_def)

text \<open>\<open>map_pte_to_disk\<close> and \<open>set_PFN_free\<close>: the page is on disk, its frame free.\<close>

definition book_disown :: "nat \<Rightarrow> u64 \<Rightarrow> book \<Rightarrow> book" where
  "book_disown i f B = change i f (DiskView (fslot B f)) PFN_FREE None 0 B"

lemma book_disown:
  assumes "book_ok n com K B" and "i < n" and "frame_at (view B i) = Some f" and "K - {f} \<subseteq> K'"
  shows "book_ok n com K' (book_disown i f B)"
    and "entry_state n (book_disown i f B) = (entry_state n B)(i := OnDisk (fslot B f))"
  using book_change [OF assms(1,2) disjI1 [OF assms(3)] _ _ assms(4), of "DiskView (fslot B f)" PFN_FREE None 0]
    assms(2)
  by (simp_all add: book_disown_def entry_ok_def entry_state_def change_def)

text \<open>\<open>set_PTE_to_transition\<close>: the page is on its way to the modified list.\<close>

definition book_trim :: "nat \<Rightarrow> u64 \<Rightarrow> book \<Rightarrow> book" where
  "book_trim i f B = change i f (TransitionView f) (fstatus B f) (fowner B f) (fslot B f) B"

lemma book_trim:
  assumes "book_ok n com K B" and "i < n" and "view B i = ValidView f" and "insert f K \<subseteq> K'"
  shows "book_ok n com K' (book_trim i f B)"
    and "entry_state n (book_trim i f B) = (entry_state n B)(i := Modified f)"
proof -
  have f: "frame_at (view B i) = Some f" using assms(3) by simp
  have "entry_ok com K B i" using assms(1,2) by (simp add: book_ok_def)
  then have *: "f \<in> com" "fowner B f = Some i" "fstatus B f = PFN_ACTIVE"
    using assms(3) by (simp_all add: entry_ok_def)
  have K: "K - {f} \<subseteq> K'" "f \<in> K'" using assms(4) by auto
  show "book_ok n com K' (book_trim i f B)"
    and "entry_state n (book_trim i f B) = (entry_state n B)(i := Modified f)"
    using book_change [OF assms(1,2) disjI1 [OF f] _ _ K(1), of "TransitionView f" "fstatus B f" "fowner B f"
        "fslot B f"] assms(2) * K(2)
    by (simp_all add: book_trim_def entry_ok_def entry_state_def change_def)
qed

text \<open>
  The descriptor alone changes its status, the entry being in transition: modified, mid-write or
  standby.
\<close>

definition book_status :: "u64 \<Rightarrow> u64 \<Rightarrow> u64 \<Rightarrow> book \<Rightarrow> book" where
  "book_status f st sl B = B\<lparr>fstatus := (fstatus B)(f := st), fslot := (fslot B)(f := sl)\<rparr>"

lemma book_status:
  assumes "book_ok n com K B" and "i < n" and "view B i = TransitionView f"
    and "st \<in> {PFN_MODIFIED, PFN_MID_WRITE, PFN_STANDBY}" and "K - {f} \<subseteq> K'"
  shows "book_ok n com K' (book_status f st sl B)"
    and "entry_state n (book_status f st sl B) = (entry_state n B)(i :=
           if st = PFN_STANDBY then Standby f sl else if st = PFN_MID_WRITE then Writing f else Modified f)"
proof -
  have f: "frame_at (view B i) = Some f" using assms(3) by simp
  have "entry_ok com K B i" using assms(1,2) by (simp add: book_ok_def)
  then have *: "f \<in> com" "fowner B f = Some i" using assms(3) by (simp_all add: entry_ok_def)
  have same: "book_status f st sl B = change i f (TransitionView f) st (Some i) sl B"
    using * assms(3) by (simp add: book_status_def change_def fun_upd_idem)
  show "book_ok n com K' (book_status f st sl B)"
    and "entry_state n (book_status f st sl B) = (entry_state n B)(i :=
           if st = PFN_STANDBY then Standby f sl else if st = PFN_MID_WRITE then Writing f else Modified f)"
    using book_change [OF assms(1,2) disjI1 [OF f] _ _ assms(5), of "TransitionView f" st "Some i" sl]
      assms(2,4) * unfolding same
    by (auto simp: entry_ok_def entry_state_def change_def)
qed

text \<open>More frames in hand do no harm; fewer are fine when none of the others is mid-trim.\<close>

lemma book_hand:
  assumes "book_ok n com K B" and "\<And>f. f \<in> K - K' \<Longrightarrow> fstatus B f = PFN_ACTIVE \<Longrightarrow>
    \<exists>i. fowner B f = Some i \<and> view B i = ValidView f"
  shows "book_ok n com K' B"
proof -
  have "entry_ok com K' B i" if "i < n" for i
  proof -
    have *: "entry_ok com K B i" using assms(1) that by (simp add: book_ok_def)
    show ?thesis
    proof (cases "view B i")
      case (TransitionView f)
      have "f \<notin> K - K' \<or> fstatus B f \<noteq> PFN_ACTIVE"
        using assms(2) [of f] * TransitionView by (auto simp: entry_ok_def)
      then show ?thesis using * TransitionView by (auto simp: entry_ok_def)
    qed (use * in \<open>simp_all add: entry_ok_def\<close>)
  qed
  then show ?thesis using assms(1) by (simp add: book_ok_def)
qed

end
