(* ===== verification/System_Inv.thy ===== *)
theory System_Inv
  imports Ownership Writer
begin

text \<open>
  The invariant of the whole system between the steps of a thread.  \<open>C\<close> gives the pages of every list;
  \<open>K\<close> is the set of frames the running thread has locked and taken off every list.
\<close>

section \<open>Reading the machine\<close>

definition entries :: "machine \<Rightarrow> nat" where
  "entries s = unat (num_ptes (vm s))"

definition frames :: "machine \<Rightarrow> u64 set" where
  "frames s = {f. committed s f}"

definition book_of :: "machine \<Rightarrow> book" where
  "book_of s = \<lparr>view = (\<lambda>i. sane_view (entire_pte (ptes s i))),
     fstatus = (\<lambda>f. status_of (pfns s (FramePfn f))), fowner = (\<lambda>f. PTE (pfns s (FramePfn f))),
     fslot = (\<lambda>f. slot_of (pfns s (FramePfn f)))\<rparr>"

definition page_states :: "machine \<Rightarrow> nat \<Rightarrow> page_state" where
  "page_states s = entry_state (entries s) (book_of s)"

definition paging_of :: "machine \<Rightarrow> paging" where
  "paging_of s = \<lparr>state = page_states s, memory = ram s, disk = page_file (pf s)\<rparr>"

text \<open>What virtual page \<open>i\<close> holds.\<close>

definition virtual_page :: "machine \<Rightarrow> nat \<Rightarrow> page" where
  "virtual_page s i = content (paging_of s) i"

definition va_of :: "vm_state \<Rightarrow> nat \<Rightarrow> u64" where
  "va_of v i = application_va_base v + of_nat i * PAGE_SIZE"

definition cache :: "machine \<Rightarrow> nat \<Rightarrow> pfn_ptr list" where
  "cache s t = map (free_page_cache (users s t)) [0..<unat (free_page_count (users s t))]"

definition core_lists :: "machine \<Rightarrow> list_id set" where
  "core_lists s = {modified_list, standby_list} \<union> free_list ` {..<unat (number_of_lists (free_lists s))}"

definition user_count :: "machine \<Rightarrow> nat" where
  "user_count s = unat (num_user_threads (vm s))"

text \<open>The free frames: on the free lists and in the caches.\<close>

definition listed :: "machine \<Rightarrow> (list_id \<Rightarrow> pfn_ptr list) \<Rightarrow> pfn_ptr set" where
  "listed s C = (\<Union>i < unat (number_of_lists (free_lists s)). set (C (free_list i)))"

definition cached_by :: "machine \<Rightarrow> nat \<Rightarrow> pfn_ptr set" where
  "cached_by s t = set (cache s t)"

definition caches_ok :: "machine \<Rightarrow> (list_id \<Rightarrow> pfn_ptr list) \<Rightarrow> bool" where
  "caches_ok s C \<longleftrightarrow> (\<forall>t < user_count s. distinct (cache s t) \<and> cached_by s t \<inter> listed s C = {} \<and>
     (\<forall>t' < user_count s. t \<noteq> t' \<longrightarrow> cached_by s t \<inter> cached_by s t' = {}))"

definition pool :: "machine \<Rightarrow> (list_id \<Rightarrow> pfn_ptr list) \<Rightarrow> pfn_ptr set" where
  "pool s C = listed s C \<union> (\<Union>t < user_count s. cached_by s t)"


section \<open>The parts of the invariant\<close>

definition frames_ok :: "machine \<Rightarrow> bool" where
  "frames_ok s \<longleftrightarrow> va_region_ok (vm s) \<and>
     (\<forall>f \<in> frames s. f \<noteq> 0 \<and> unat f < 2 ^ 40 \<and> min_frame_number (vm s) \<le> f \<and> f \<le> max_frame_number (vm s))"

definition slots_ok :: "machine \<Rightarrow> bool" where
  "slots_ok s \<longleftrightarrow> pf_inv (vm s) (pf s) \<and>
     (\<forall>i d. slot_held (page_states s i) = Some d \<longrightarrow>
        unat d \<in> slots_used (pf s) - {0} - set (stash (pf s)))"

definition lists_ok :: "machine \<Rightarrow> (list_id \<Rightarrow> pfn_ptr list) \<Rightarrow> bool" where
  "lists_ok s C \<longleftrightarrow>
     (\<forall>l \<in> core_lists s. wf_list s l (C l) \<and> list_free s l \<and> (\<forall>p \<in> set (C l). frame_page p) \<and>
        (\<exists>k < heads s. head (lists s l) = HeadPfn k)) \<and>
     inj_on (\<lambda>l. head (lists s l)) (core_lists s) \<and>
     (\<forall>l \<in> core_lists s. \<forall>k \<in> core_lists s. l \<noteq> k \<longrightarrow> set (C l) \<inter> set (C k) = {}) \<and>
     list_size (lists s modified_list) = of_nat (length (C modified_list)) \<and>
     list_size (lists s standby_list) = of_nat (length (C standby_list)) \<and>
     0 < number_of_lists (free_lists s) \<and> unat (number_of_lists (free_lists s)) \<le> 64 \<and>
     (\<forall>i < unat (number_of_lists (free_lists s)). \<not> bit (free_list_locks (free_lists s)) i)"

definition members_ok :: "machine \<Rightarrow> (list_id \<Rightarrow> pfn_ptr list) \<Rightarrow> u64 set \<Rightarrow> bool" where
  "members_ok s C K \<longleftrightarrow>
     set (C modified_list) = FramePfn ` {f \<in> frames s - K. fstatus (book_of s) f = PFN_MODIFIED} \<and>
     set (C standby_list) = FramePfn ` {f \<in> frames s - K. fstatus (book_of s) f = PFN_STANDBY} \<and>
     pool s C = FramePfn ` {f \<in> frames s - K. fstatus (book_of s) f = PFN_FREE} \<and>
     caches_ok s C"

definition locks_ok :: "machine \<Rightarrow> u64 set \<Rightarrow> bool" where
  "locks_ok s K \<longleftrightarrow> K \<subseteq> frames s \<and>
     (\<forall>p. pfn_ok s p \<longrightarrow> (if p \<in> FramePfn ` K then pfn_held s p else pfn_free s p)) \<and>
     (\<forall>i < entries s. pte_free s i)"

text \<open>The address space agrees with the page table; pages in hand may still be mapped.\<close>

definition maps_ok :: "machine \<Rightarrow> u64 set \<Rightarrow> bool" where
  "maps_ok s K \<longleftrightarrow> (\<forall>i < entries s. frame_of (page_states s i) \<notin> Some ` K \<longrightarrow>
     va_map s (va_of (vm s) i) = (case page_states s i of Resident f \<Rightarrow> Some f | _ \<Rightarrow> None))"

text \<open>The kernel's addresses: aligned, and apart from the pages of the application.\<close>

definition kernel_va :: "machine \<Rightarrow> u64 \<Rightarrow> bool" where
  "kernel_va s va \<longleftrightarrow> page_base va = va \<and> va \<notin> va_of (vm s) ` {..<entries s}"

definition users_ok :: "machine \<Rightarrow> bool" where
  "users_ok s \<longleftrightarrow> (\<forall>t < user_count s. kernel_va_index (users s t) < NUM_KERNEL_READ_ADDRESSES \<and>
       unat (free_page_count (users s t)) \<le> 64 \<and>
       (\<forall>k < 16. kernel_va s (kernel_va_space (users s t) + of_nat k * PAGE_SIZE))) \<and>
     (\<forall>k < 4096. kernel_va s (kernel_write_va (vm s) + of_nat k * PAGE_SIZE)) \<and>
     inj_on (\<lambda>k. kernel_write_va (vm s) + of_nat k * PAGE_SIZE) {..<4096}"

definition sys_inv :: "machine \<Rightarrow> (list_id \<Rightarrow> pfn_ptr list) \<Rightarrow> u64 set \<Rightarrow> bool" where
  "sys_inv s C K \<longleftrightarrow> frames_ok s \<and> book_ok (entries s) (frames s) K (book_of s) \<and>
     paging_inv (paging_of s) \<and> slots_ok s \<and> lists_ok s C \<and> members_ok s C K \<and> locks_ok s K \<and>
     maps_ok s K \<and> users_ok s"

lemma sys_invD:
  assumes "sys_inv s C K"
  shows "frames_ok s" "book_ok (entries s) (frames s) K (book_of s)" "paging_inv (paging_of s)"
    "slots_ok s" "lists_ok s C" "members_ok s C K" "locks_ok s K" "maps_ok s K" "users_ok s"
  using assms by (simp_all add: sys_inv_def)

lemmas sys_defs = frames_ok_def slots_ok_def lists_ok_def members_ok_def locks_ok_def maps_ok_def
  users_ok_def


section \<open>Parts that a change leaves alone\<close>

lemma read_updates [simp]:
  "entries (s\<lparr>pfns := a\<rparr>) = entries s" "entries (s\<lparr>ptes := b\<rparr>) = entries s"
  "entries (s\<lparr>lists := c\<rparr>) = entries s" "entries (s\<lparr>spin := d\<rparr>) = entries s"
  "entries (s\<lparr>stats := e\<rparr>) = entries s" "entries (s\<lparr>events := f\<rparr>) = entries s"
  "entries (s\<lparr>pf := g\<rparr>) = entries s" "entries (s\<lparr>va_map := h\<rparr>) = entries s"
  "entries (s\<lparr>ram := i\<rparr>) = entries s" "entries (s\<lparr>users := j\<rparr>) = entries s"
  "entries (s\<lparr>free_lists := k\<rparr>) = entries s" "entries (s\<lparr>ticks := l\<rparr>) = entries s"
  "entries (s\<lparr>pte_to_trim := m\<rparr>) = entries s" "entries (s\<lparr>heads := n\<rparr>) = entries s"
  "user_count (s\<lparr>pfns := a\<rparr>) = user_count s" "user_count (s\<lparr>ptes := b\<rparr>) = user_count s"
  "user_count (s\<lparr>lists := c\<rparr>) = user_count s" "user_count (s\<lparr>spin := d\<rparr>) = user_count s"
  "user_count (s\<lparr>stats := e\<rparr>) = user_count s" "user_count (s\<lparr>events := f\<rparr>) = user_count s"
  "user_count (s\<lparr>pf := g\<rparr>) = user_count s" "user_count (s\<lparr>va_map := h\<rparr>) = user_count s"
  "user_count (s\<lparr>ram := i\<rparr>) = user_count s" "user_count (s\<lparr>users := j\<rparr>) = user_count s"
  "user_count (s\<lparr>free_lists := k\<rparr>) = user_count s" "user_count (s\<lparr>ticks := l\<rparr>) = user_count s"
  "user_count (s\<lparr>pte_to_trim := m\<rparr>) = user_count s" "user_count (s\<lparr>heads := n\<rparr>) = user_count s"
  by (simp_all add: entries_def user_count_def)

lemma frames_updates [simp]:
  "frames (s\<lparr>pfns := a\<rparr>) = frames s" "frames (s\<lparr>ptes := b\<rparr>) = frames s"
  "frames (s\<lparr>lists := c\<rparr>) = frames s" "frames (s\<lparr>spin := d\<rparr>) = frames s"
  "frames (s\<lparr>stats := e\<rparr>) = frames s" "frames (s\<lparr>events := f\<rparr>) = frames s"
  "frames (s\<lparr>pf := g\<rparr>) = frames s" "frames (s\<lparr>va_map := h\<rparr>) = frames s"
  "frames (s\<lparr>ram := i\<rparr>) = frames s" "frames (s\<lparr>users := j\<rparr>) = frames s"
  "frames (s\<lparr>free_lists := k\<rparr>) = frames s" "frames (s\<lparr>ticks := l\<rparr>) = frames s"
  "frames (s\<lparr>pte_to_trim := m\<rparr>) = frames s" "frames (s\<lparr>heads := n\<rparr>) = frames s"
  by (simp_all add: frames_def)

lemma book_of_updates [simp]:
  "book_of (s\<lparr>lists := c\<rparr>) = book_of s" "book_of (s\<lparr>spin := d\<rparr>) = book_of s"
  "book_of (s\<lparr>stats := e\<rparr>) = book_of s" "book_of (s\<lparr>events := f\<rparr>) = book_of s"
  "book_of (s\<lparr>pf := g\<rparr>) = book_of s" "book_of (s\<lparr>va_map := h\<rparr>) = book_of s"
  "book_of (s\<lparr>ram := i\<rparr>) = book_of s" "book_of (s\<lparr>users := j\<rparr>) = book_of s"
  "book_of (s\<lparr>free_lists := k\<rparr>) = book_of s" "book_of (s\<lparr>ticks := l\<rparr>) = book_of s"
  "book_of (s\<lparr>pte_to_trim := m\<rparr>) = book_of s" "book_of (s\<lparr>heads := n\<rparr>) = book_of s"
  by (simp_all add: book_of_def)


section \<open>Runs of the manager\<close>

text \<open>
  \<open>managed s u\<close>: the machine went from \<open>s\<close> to \<open>u\<close> by steps that no program can observe.  The trimmer's
  position stays inside the page table.
\<close>

definition managed :: "machine \<Rightarrow> machine \<Rightarrow> bool" where
  "managed s u \<longleftrightarrow> vm u = vm s \<and> committed u = committed s \<and>
     (pte_to_trim s < entries s \<longrightarrow> pte_to_trim u < entries s) \<and>
     manager_step\<^sup>*\<^sup>* (paging_of s) (paging_of u)"

lemma managed_refl [intro]: "managed s s"
  by (simp add: managed_def)

lemma managed_trans: "managed s t \<Longrightarrow> managed t u \<Longrightarrow> managed s u"
  by (auto simp: managed_def entries_def)

lemma managed_step:
  "vm u = vm s \<Longrightarrow> committed u = committed s \<Longrightarrow> pte_to_trim u = pte_to_trim s \<Longrightarrow>
   manager_step (paging_of s) (paging_of u) \<Longrightarrow> managed s u"
  by (auto simp: managed_def)

lemma managed_same:
  "vm u = vm s \<Longrightarrow> committed u = committed s \<Longrightarrow> pte_to_trim u = pte_to_trim s \<Longrightarrow>
   paging_of u = paging_of s \<Longrightarrow> managed s u"
  by (simp add: managed_def)

lemma managedD:
  assumes "managed s u"
  shows "vm u = vm s" "entries u = entries s" "frames u = frames s" "user_count u = user_count s"
  using assms by (simp_all add: managed_def entries_def frames_def user_count_def)

lemma managed_trimmer: "managed s u \<Longrightarrow> pte_to_trim s < entries s \<Longrightarrow> pte_to_trim u < entries u"
  by (simp add: managed_def entries_def)

lemma managed_content: "managed s u \<Longrightarrow> paging_inv (paging_of s) \<Longrightarrow> virtual_page u = virtual_page s"
  using manager_steps by (auto simp: managed_def virtual_page_def fun_eq_iff)

end
