(* ===== verification/Soft_Fault.thy ===== *)
theory Soft_Fault
  imports System_Inv
begin

text \<open>
  The soft fault of threads/page_fault_handler.c on the whole system: \<open>resolve_soft_fault_run\<close>.  The
  theory also holds what the other components need of the parts of the invariant: state changes under
  a lock, mapping one page, and the change of one list among others (\<open>lists_ok_rewrite\<close>).
\<close>

section \<open>Locks and state changes\<close>

lemma put_lock_fresh: "put_lock v (fresh_pfn_data l st sl) = fresh_pfn_data (take_bit 16 v) st sl"
  unfolding fresh_pfn_data_def
  by (rule bit_word_eqI) (auto simp: pfn_field_defs bit_put_bits bit_take_bit_iff)

lemma fresh_lock_fits: "fresh_pfn_data (take_bit 16 l) st sl = fresh_pfn_data l st sl"
  unfolding fresh_pfn_data_def
  by (rule bit_word_eqI) (auto simp: pfn_field_defs bit_put_bits bit_take_bit_iff)

lemma take_bit_ucast16: "take_bit 16 (ucast (v :: u16) :: u64) = ucast v"
  by (rule bit_word_eqI) (auto simp: bit_take_bit_iff bit_ucast_iff dest: bit_imp_le_length)

lemma semaphore_changes:
  "set_semaphore v (set_PFN_active i q) = set_PFN_active i (set_semaphore v q)"
  "set_semaphore v (set_PFN_free q) = set_PFN_free (set_semaphore v q)"
  "set_semaphore v (set_pfn_standby d q) = set_pfn_standby d (set_semaphore v q)"
  "set_semaphore v (set_pfn_mid_write q) = set_pfn_mid_write (set_semaphore v q)"
proof -
  have *: "lock_of (set_semaphore v q) = ucast v" "slot_of (set_semaphore v q) = slot_of q" by simp_all
  show "set_semaphore v (set_PFN_active i q) = set_PFN_active i (set_semaphore v q)"
    "set_semaphore v (set_PFN_free q) = set_PFN_free (set_semaphore v q)"
    "set_semaphore v (set_pfn_standby d q) = set_pfn_standby d (set_semaphore v q)"
    "set_semaphore v (set_pfn_mid_write q) = set_pfn_mid_write (set_semaphore v q)"
    unfolding set_PFN_active_def set_PFN_free_def set_pfn_standby_def set_pfn_mid_write_def *
    by (simp_all add: set_semaphore_def put_lock_fresh take_bit_ucast16)
qed

lemma semaphore_status: "set_semaphore v (SET_PFN_STATUS st q) = SET_PFN_STATUS st (set_semaphore v q)"
proof -
  have "put_lock (ucast v) (put_pfn_status st r) = put_pfn_status st (put_lock (ucast v) r)" for r
    by (rule bit_word_eqI) (auto simp: pfn_field_defs bit_put_bits)
  then show ?thesis by (simp add: SET_PFN_STATUS_def set_semaphore_def)
qed

lemma on_cell_same: "on_cell p f (on_cell p g m) = on_cell p (\<lambda>q. f (g q)) m"
  by (auto simp: on_cells_def fun_eq_iff)

lemma on_cell_cong: "f (m p) = g (m p) \<Longrightarrow> on_cell p f m = on_cell p g m"
  by (auto simp: on_cells_def fun_eq_iff)

text \<open>Locked, changed and unlocked again.\<close>

lemma change_under_lock:
  assumes "\<And>v q. set_semaphore v (g q) = g (set_semaphore v q)" and "lock_of (m p) = 0"
  shows "on_cell p unlocked_pfn (on_cell p g (on_cell p locked_pfn m)) = on_cell p g m"
  using assms by (simp add: on_cell_same on_cells_def fun_eq_iff unlocked_self)


section \<open>Leaving a list\<close>

lemma signal_run:
  "\<exists>ev. signal_event_if_list_is_about_to_run_low l e k th s = Inr ((), s\<lparr>events := ev\<rparr>)"
proof -
  obtain low where "check_if_list_is_about_to_run_low l k th s = Inr (low, s)"
    by (simp add: check_if_list_is_about_to_run_low_def prog_simps)
  then have "signal_event_if_list_is_about_to_run_low l e k th s =
      Inr ((), s\<lparr>events := if low then (events s)(e := True) else events s\<rparr>)"
    by (simp add: signal_event_if_list_is_about_to_run_low_def prog_simps run_if_def)
  then show ?thesis by blast
qed

lemma leave_list_none:
  "pfn_ok s p \<Longrightarrow> status_of (pfns s p) = PFN_MID_WRITE \<Longrightarrow> leave_list p s = Inr ((), s)"
  by (simp add: leave_list_def prog_simps IS_PFN_MID_WRITE_def)

lemma leave_list_modified:
  assumes wf: "wf_list s modified_list (as @ p # bs)" and free: "list_free s modified_list"
    and locks: "unlocked_pfns s (set (head (lists s modified_list) # as @ bs))"
    and st: "status_of (pfns s p) = PFN_MODIFIED"
  shows "\<exists>ev m. leave_list p s = Inr ((), s\<lparr>pfns := unlink p (pfns s),
     lists := resize modified_list (- 1) (lists s), events := ev, spin := m\<rparr>)"
proof -
  have ok: "pfn_ok s p" using wf_list_at [OF wf] by simp
  obtain ev where ev: "signal_event_if_list_is_about_to_run_low modified_list initiate_trimming_event
      TRIMMING_THREAD_ID LOW_PAGE_THRESHOLD s = Inr ((), s\<lparr>events := ev\<rparr>)"
    using signal_run by blast
  let ?u = "s\<lparr>events := ev\<rparr>"
  obtain m where m: "remove_page_on_soft_fault modified_list p ?u =
      Inr ((), (soft_removed modified_list p (as @ bs) ?u)\<lparr>spin := m\<rparr>)"
    using remove_page_on_soft_fault_run [of ?u modified_list as p bs] wf free locks
    by (auto simp: wf_list_def list_free_def unlocked_pfns_def pfn_free_def)
  have "leave_list p s = Inr ((), (soft_removed modified_list p (as @ bs) ?u)\<lparr>spin := m\<rparr>)"
    using ok st ev m
    by (simp add: leave_list_def prog_simps IS_PFN_MID_WRITE_def IS_PFN_MID_TRIM_def IS_PFN_MODIFIED_def)
  then show ?thesis
    by (intro exI [of _ ev] exI [of _ m]) (simp add: soft_removed_def note_removal_def)
qed

lemma leave_list_standby:
  assumes wf: "wf_list s standby_list (as @ p # bs)" and free: "list_free s standby_list"
    and locks: "unlocked_pfns s (set (head (lists s standby_list) # as @ bs))"
    and st: "status_of (pfns s p) = PFN_STANDBY"
    and slot: "pf_shape v (pf s)" "unat (slot_of (pfns s p)) \<in> slots_used (pf s)"
  shows "\<exists>ev st m. leave_list p s = Inr ((), s\<lparr>pfns := unlink p (pfns s),
     lists := resize standby_list (- 1) (lists s), pf := free_slot (unat (slot_of (pfns s p))) (pf s),
     stats := st, events := ev, spin := m\<rparr>)"
proof -
  have ok: "pfn_ok s p" using wf_list_at [OF wf] by simp
  let ?s = "s\<lparr>pf := free_slot (unat (slot_of (pfns s p))) (pf s)\<rparr>"
  have clr: "on_disk (clear_disk_slot (slot_of (pfns s p))) s = Inr ((), ?s)"
    by (rule on_disk_run) (rule clear_disk_slot_run [OF slot])
  obtain ev where ev: "signal_event_if_list_is_about_to_run_low standby_list initiate_writing_event
      WRITING_THREAD_ID LOW_PAGE_THRESHOLD ?s = Inr ((), ?s\<lparr>events := ev\<rparr>)"
    using signal_run by blast
  let ?u = "?s\<lparr>events := ev\<rparr>"
  obtain m where m: "remove_page_on_soft_fault standby_list p ?u =
      Inr ((), (soft_removed standby_list p (as @ bs) ?u)\<lparr>spin := m\<rparr>)"
    using remove_page_on_soft_fault_run [of ?u standby_list as p bs] wf free locks
    by (auto simp: wf_list_def list_free_def unlocked_pfns_def pfn_free_def)
  have "leave_list p s = Inr ((), (soft_removed standby_list p (as @ bs) ?u)\<lparr>spin := m\<rparr>)"
    using ok st clr ev m
    by (simp add: leave_list_def prog_simps IS_PFN_MID_WRITE_def IS_PFN_MID_TRIM_def IS_PFN_MODIFIED_def
        IS_PFN_STANDBY_def)
  then show ?thesis
    by (intro exI [of _ "events ((soft_removed standby_list p (as @ bs) ?u))"]
        exI [of _ "stats ((soft_removed standby_list p (as @ bs) ?u))"] exI [of _ m])
      (simp add: soft_removed_def note_removal_def)
qed


section \<open>Mapping\<close>

lemma pages_from_one: "pages_from va (Suc 0) = [va]"
  by (simp add: pages_from_def)

lemma map_one_run:
  "awe_spec w \<Longrightarrow> map_pages w (Suc 0) va [f] s = Inr ((), s\<lparr>va_map := (va_map s)(va := Some f)\<rparr>)"
  by (simp add: map_pages_def prog_simps awe_spec_def map_list_def pages_from_one)

lemma map_single_run:
  assumes "awe_spec w" and "pte_ok s i"
  shows "map_single_page_from_pte w i s =
    Inr ((), s\<lparr>va_map := (va_map s)(va_of (vm s) i := Some (get_frame_number (entire_pte (ptes s i))))\<rparr>)"
  using assms
  by (simp add: map_single_page_from_pte_def prog_simps get_VA_from_PTE_def pte_ok_def va_of_def map_one_run)


section \<open>The soft fault\<close>

definition entry_valid :: "nat \<Rightarrow> u64 \<Rightarrow> (nat \<Rightarrow> pte) \<Rightarrow> nat \<Rightarrow> pte" where
  "entry_valid i f m = m(i := (m i)\<lparr>entire_pte := set_PTE_to_valid f (entire_pte (m i))\<rparr>)"

lemma soft_fault_concrete:
  assumes w: "awe_spec w" and pte: "pte_ok s i" "pte_free s i"
    and view: "sane_view (entire_pte (ptes s i)) = TransitionView f"
    and f: "min_frame_number (vm s) \<le> f" "f \<le> max_frame_number (vm s)"
    and pfn: "pfn_ok s (FramePfn f)" "pfn_free s (FramePfn f)"
    and st: "status_of (pfns s (FramePfn f)) \<noteq> PFN_ACTIVE" "status_of (pfns s (FramePfn f)) \<noteq> PFN_FREE"
    and leave: "leave_list (FramePfn f) (s\<lparr>ptes := on_pte i (set_pte_lock 1) (ptes s),
        pfns := on_cell (FramePfn f) locked_pfn (pfns s)\<rparr>) =
      Inr ((), s\<lparr>ptes := on_pte i (set_pte_lock 1) (ptes s), pfns := on_cell (FramePfn f) locked_pfn m,
        lists := L, pf := d, stats := st', events := ev, spin := sp\<rparr>)"
    and m: "lock_of (m (FramePfn f)) = 0"
  shows "resolve_soft_fault w i s = Inr (True, s\<lparr>pfns := on_cell (FramePfn f) (set_PFN_active i) m,
      ptes := entry_valid i f (ptes s), va_map := (va_map s)(va_of (vm s) i := Some f),
      lists := L, pf := d, stats := st'\<lparr>n_soft := n_soft st' + 1\<rparr>, events := ev, spin := sp\<rparr>)"
proof -
  let ?p = "FramePfn f" and ?e = "entire_pte (ptes s i)"
  have v: "pte_view ?e = TransitionView f" using sane_viewD(2) [OF view] .
  then have tr: "IS_PTE_TRANSITION ?e" "get_frame_number ?e = f" and nd: "\<not> IS_PTE_ON_DISK ?e"
    using pte_view_TransitionD by (auto simp: pte_view_disk_iff)
  have pfn_of: "get_PFN_from_PTE (vm s) ?e = Inr ?p"
    using tr nd f get_status_cases [of ?e]
    by (auto simp: get_PFN_from_PTE_def get_PFN_from_frame_def pte_tests)
  let ?s1 = "s\<lparr>ptes := on_pte i (set_pte_lock 1) (ptes s)\<rparr>"
  have word: "entire_pte (on_pte i (set_pte_lock 1) (ptes s) i) = ?e"
    "pte_lock (on_pte i (set_pte_lock 1) (ptes s) i) = 1"
    by (simp_all add: on_pte_def set_pte_lock_def)
  have find: "soft_fault_find_page i s = Inr (Some ?p, ?s1)"
    using pte tr pfn_of by (simp add: soft_fault_find_page_def prog_simps lock_pte_run word)
  have act: "on_cell ?p unlocked_pfn (on_cell ?p (set_PFN_active i) (on_cell ?p locked_pfn m)) =
      on_cell ?p (set_PFN_active i) m"
    by (rule change_under_lock) (simp_all add: semaphore_changes m)
  have unl: "on_pte i (set_pte_lock 0) ((on_pte i (set_pte_lock 1) (ptes s))(i :=
        (on_pte i (set_pte_lock 1) (ptes s) i)\<lparr>entire_pte := set_PTE_to_valid f ?e\<rparr>)) = entry_valid i f (ptes s)"
    using pte(2) by (auto simp: on_pte_def set_pte_lock_def entry_valid_def pte_free_def fun_eq_iff)
  let ?P = "on_cell ?p locked_pfn (pfns s)"
  have q: "\<not> IS_PFN_ACTIVE (?P ?p)" "\<not> IS_PFN_FREE (?P ?p)"
    using st by (simp_all add: IS_PFN_ACTIVE_def IS_PFN_FREE_def)
  have held: "lock_of (on_cell ?p (set_PFN_active i) (on_cell ?p locked_pfn m) ?p) = 1"
    by (simp add: on_cells_def)
  show ?thesis
    using pte pfn tr nd q leave w find held
    by (simp add: resolve_soft_fault_def soft_fault_with_page_def prog_simps lock_pfn_run word
        map_single_run unlock_pfn_run unlock_pte_run pfn_free_def pfn_held_def pte_held_def act unl
        count_soft_def)
qed


section \<open>One list changes\<close>

lemma core_wf: "lists_ok s C \<Longrightarrow> l \<in> core_lists s \<Longrightarrow> wf_list s l (C l)"
  and core_free: "lists_ok s C \<Longrightarrow> l \<in> core_lists s \<Longrightarrow> list_free s l"
  and core_frame: "lists_ok s C \<Longrightarrow> l \<in> core_lists s \<Longrightarrow> p \<in> set (C l) \<Longrightarrow> frame_page p"
  and core_apart: "lists_ok s C \<Longrightarrow> l \<in> core_lists s \<Longrightarrow> k \<in> core_lists s \<Longrightarrow> l \<noteq> k \<Longrightarrow>
      set (C l) \<inter> set (C k) = {}"
  by (simp_all add: lists_ok_def)

lemma core_head: "lists_ok s C \<Longrightarrow> l \<in> core_lists s \<Longrightarrow> \<exists>k < heads s. head (lists s l) = HeadPfn k"
  by (simp add: lists_ok_def)

lemma core_heads_differ:
  "lists_ok s C \<Longrightarrow> l \<in> core_lists s \<Longrightarrow> k \<in> core_lists s \<Longrightarrow> l \<noteq> k \<Longrightarrow>
   head (lists s l) \<noteq> head (lists s k)"
  by (auto simp: lists_ok_def inj_on_def)

lemma frame_page_no_head: "frame_page p \<Longrightarrow> p \<noteq> HeadPfn k"
  by (auto simp: frame_page_def)

lemma core_lists_known [simp]: "modified_list \<in> core_lists s" "standby_list \<in> core_lists s"
  by (simp_all add: core_lists_def)

definition same_lists :: "machine \<Rightarrow> machine \<Rightarrow> bool" where
  "same_lists s t \<longleftrightarrow> heads s \<le> heads t \<and>
     number_of_lists (free_lists t) = number_of_lists (free_lists s) \<and>
     free_list_locks (free_lists t) = free_list_locks (free_lists s) \<and>
     (\<forall>l \<in> core_lists s. head (lists t l) = head (lists s l) \<and> list_free t l) \<and>
     (\<forall>p. pfn_ok s p \<longrightarrow> pfn_ok t p)"

lemma core_lists_same: "number_of_lists (free_lists t) = number_of_lists (free_lists s) \<Longrightarrow> core_lists t = core_lists s"
  by (simp add: core_lists_def)

lemma lists_ok_rewrite:
  assumes ok: "lists_ok s C" and l: "l \<in> core_lists s" and same: "same_lists s t"
    and new: "wf_list t l xs"
    and links: "\<And>p. p \<notin> set (head (lists s l) # C l) \<union> X \<Longrightarrow> pfn_ok s p \<Longrightarrow>
        flink (pfns t p) = flink (pfns s p) \<and> blink (pfns t p) = blink (pfns s p)"
    and X: "\<And>p k. p \<in> X \<Longrightarrow> frame_page p \<and> (k \<in> core_lists s \<longrightarrow> k \<noteq> l \<longrightarrow> p \<notin> set (C k))"
    and sub: "set xs \<subseteq> set (C l) \<union> X"
    and size: "list_size (lists t modified_list) = of_nat (length ((C(l := xs)) modified_list))"
      "list_size (lists t standby_list) = of_nat (length ((C(l := xs)) standby_list))"
  shows "lists_ok t (C(l := xs))"
proof -
  have core: "core_lists t = core_lists s" using same by (simp add: same_lists_def core_lists_def)
  have heads: "head (lists t k) = head (lists s k)" "list_free t k" if "k \<in> core_lists s" for k
    using same that by (simp_all add: same_lists_def)
  have other: "wf_list t k (C k)" if k: "k \<in> core_lists s" "k \<noteq> l" for k
  proof -
    have wf: "wf_list s k (C k)" using ok k(1) by (rule core_wf)
    obtain j where j: "head (lists s k) = HeadPfn j" using core_head [OF ok k(1)] by blast
    have "flink (pfns t p) = flink (pfns s p) \<and> blink (pfns t p) = blink (pfns s p)"
      if p: "p \<in> set (head (lists s k) # C k)" for p
    proof (rule links)
      show "pfn_ok s p" using wf p by (auto simp: wf_list_def)
      have "head (lists s k) \<noteq> head (lists s l)" using core_heads_differ [OF ok k(1) l] k(2) by simp
      moreover have "head (lists s k) \<notin> set (C l)" "head (lists s k) \<notin> X"
        using core_frame [OF ok l] X j frame_page_no_head by metis+
      moreover have "head (lists s l) \<notin> set (C k)"
        using core_head [OF ok l] core_frame [OF ok k(1)] frame_page_no_head by metis
      moreover have "set (C k) \<inter> set (C l) = {}" using core_apart [OF ok k(1) l k(2)] .
      moreover have "set (C k) \<inter> X = {}" using X k by blast
      ultimately show "p \<notin> set (head (lists s l) # C l) \<union> X" using p by auto
    qed
    then have "dll (pfns t) (head (lists s k)) (C k) = dll (pfns s) (head (lists s k)) (C k)"
      by (rule dll_cong)
    then show ?thesis using wf heads(1) [OF k(1)] same by (auto simp: wf_list_def same_lists_def)
  qed
  have "wf_list t k ((C(l := xs)) k)" if "k \<in> core_lists s" for k
    using other new that by simp
  moreover have "\<forall>p \<in> set ((C(l := xs)) k). frame_page p" if "k \<in> core_lists s" for k
    using sub X core_frame [OF ok] that l by auto
  moreover have "\<exists>j < heads t. head (lists t k) = HeadPfn j" if "k \<in> core_lists s" for k
    using core_head [OF ok that] heads(1) [OF that] same by (auto simp: same_lists_def)
  moreover have "inj_on (\<lambda>l. head (lists t l)) (core_lists s)"
    using ok heads(1) by (auto simp: lists_ok_def inj_on_def)
  moreover have "set ((C(l := xs)) k) \<inter> set ((C(l := xs)) j) = {}"
    if "k \<in> core_lists s" "j \<in> core_lists s" "k \<noteq> j" for k j
  proof -
    have *: "set xs \<inter> set (C k') = {}" if "k' \<in> core_lists s" "k' \<noteq> l" for k'
      using sub X that core_apart [OF ok l that(1)] by auto
    show ?thesis using * [of k] * [of j] core_apart [OF ok that] that by auto
  qed
  moreover have "0 < number_of_lists (free_lists t) \<and> unat (number_of_lists (free_lists t)) \<le> 64 \<and>
     (\<forall>i < unat (number_of_lists (free_lists t)). \<not> bit (free_list_locks (free_lists t)) i)"
    using ok same by (simp add: lists_ok_def same_lists_def)
  ultimately show ?thesis using size heads(2) unfolding lists_ok_def core by auto
qed


lemma lists_ok_cong:
  assumes "lists t = lists s" and "heads t = heads s"
    and "number_of_lists (free_lists t) = number_of_lists (free_lists s)"
    and "free_list_locks (free_lists t) = free_list_locks (free_lists s)"
    and "\<And>p. flink (pfns t p) = flink (pfns s p) \<and> blink (pfns t p) = blink (pfns s p)"
    and "\<And>p. pfn_ok t p = pfn_ok s p"
  shows "lists_ok t C = lists_ok s C"
proof -
  have "dll (pfns t) h xs = dll (pfns s) h xs" for h xs by (rule dll_cong) (rule assms(5))
  then have "wf_list t l xs = wf_list s l xs" for l xs using assms by (simp add: wf_list_def)
  then show ?thesis using assms by (simp add: lists_ok_def list_free_def core_lists_def)
qed

lemma page_states_state: "state (paging_of s) = page_states s"
  by (simp add: paging_of_def)

lemma entry_state_view:
  "i < entries s \<Longrightarrow> page_states s i = (case sane_view (entire_pte (ptes s i)) of
       ZeroedView \<Rightarrow> Untouched
     | LimboView \<Rightarrow> Untouched
     | ValidView f \<Rightarrow> Resident f
     | DiskView d \<Rightarrow> OnDisk d
     | TransitionView f \<Rightarrow>
         if status_of (pfns s (FramePfn f)) = PFN_STANDBY then Standby f (slot_of (pfns s (FramePfn f)))
         else if status_of (pfns s (FramePfn f)) = PFN_MID_WRITE then Writing f
         else Modified f)"
  by (simp add: page_states_def entry_state_def book_of_def split: pte_view.split)

lemma image_frame_iff: "FramePfn f \<in> FramePfn ` A \<longleftrightarrow> f \<in> A"
  by auto

lemma fresh_lock: "lock_of (set_PFN_active i q) = lock_of q" by simp

lemma soft_fault_sys:
  assumes inv: "sys_inv s C {}" and i: "i < entries s" and view: "view (book_of s) i = TransitionView f"
    and m: "same_data (pfns s) m" and lists: "lists_ok (s\<lparr>pfns := m, lists := L\<rparr>) C'"
    and mem: "set (C' modified_list) = set (C modified_list) - {FramePfn f}"
      "set (C' standby_list) = set (C standby_list) - {FramePfn f}"
      "\<And>j. C' (free_list j) = C (free_list j)"
    and d: "pf_inv (vm s) d" "page_file d = page_file (pf s)"
      "\<And>j e. j \<noteq> i \<Longrightarrow> slot_held (page_states s j) = Some e \<Longrightarrow>
         unat e \<in> slots_used d - {0} - set (stash d)"
    and t: "t = s\<lparr>pfns := on_cell (FramePfn f) (set_PFN_active i) m, ptes := entry_valid i f (ptes s),
      va_map := (va_map s)(va_of (vm s) i := Some f), lists := L, pf := d, stats := st, events := ev, spin := sp\<rparr>"
  shows "sys_inv t C' {}" and "page_states t = (page_states s)(i := Resident f)"
    and "manager_step (paging_of s) (paging_of t)"
proof -
  note inv' = sys_invD [OF inv]
  have n: "entries t = entries s" "frames t = frames s" "vm t = vm s" by (simp_all add: t)
  have fa: "frame_at (view (book_of s) i) = Some f" using view by simp
  have own: "f \<in> frames s" "fowner (book_of s) f = Some i" "fstatus (book_of s) f \<noteq> PFN_FREE"
    using book_ok_owner [OF inv'(2) i fa] by simp_all
  have fits: "unat f < 2 ^ 40" using inv'(1) own(1) by (simp add: frames_ok_def)
  have book: "book_of t = book_activate i f (book_of s)"
    using fits same_dataD [OF m]
    by (auto simp: book_of_def book_activate_def change_def t entry_valid_def sane_set_valid on_cells_def fun_eq_iff)
  have fa': "frame_at (view (book_of s) i) = Some f \<or>
      frame_at (view (book_of s) i) = None \<and> fstatus (book_of s) f = PFN_FREE" using fa by simp
  note act = book_activate [OF inv'(2) i own(1) fa' subset_refl [THEN subset_trans, OF Diff_subset]]
  have book_t: "book_ok (entries t) (frames t) {} (book_of t)" using act(1) by (simp add: n book)
  show states: "page_states t = (page_states s)(i := Resident f)"
    using act(2) by (simp add: page_states_def n book)
  have old: "page_states s i \<in> {Modified f, Writing f, Standby f (fslot (book_of s) f)}"
    using view i by (simp add: page_states_def entry_state_def)
  have paging: "paging_of t = (paging_of s)\<lparr>state := (state (paging_of s))(i := Resident f)\<rparr>"
    using states d(2) by (simp add: paging_of_def t)
  show step: "manager_step (paging_of s) (paging_of t)"
    unfolding paging using old by (intro soft_fault) (simp add: paging_of_def)
  have "slots_ok t"
    using d states by (auto simp: slots_ok_def t n split: if_splits)
  moreover have "lists_ok t C'"
    using lists by (subst lists_ok_cong [of _ "s\<lparr>pfns := m, lists := L\<rparr>"]) (simp_all add: t on_cells_def)
  moreover have "members_ok t C' {}"
  proof -
    have "cache t = cache s" by (simp add: cache_def t fun_eq_iff)
    moreover have "listed t C' = listed s C" using mem(3) by (simp add: listed_def) (simp add: t)
    moreover have "user_count t = user_count s" by (simp add: t)
    ultimately have p: "pool t C' = pool s C" "caches_ok t C' = caches_ok s C"
      by (simp_all add: pool_def caches_ok_def cached_by_def)
    have st: "fstatus (book_of t) g = (if g = f then PFN_ACTIVE else fstatus (book_of s) g)" for g
      by (simp add: book book_activate_def change_def)
    have not_free: "{g \<in> frames s. g = f \<longrightarrow> False} \<inter> {g. fstatus (book_of s) g = PFN_FREE} =
        {g \<in> frames s. fstatus (book_of s) g = PFN_FREE}" using own(3) by auto
    show ?thesis
      using inv'(6) own(3) unfolding members_ok_def p mem(1,2) n st by auto
  qed
  moreover have "locks_ok t {}"
    using inv'(7) same_dataD [OF m]
    by (auto simp: locks_ok_def t pfn_free_def pte_free_def on_cells_def entry_valid_def)
  moreover have "maps_ok t {}"
  proof -
    have "va_of (vm s) j \<noteq> va_of (vm s) i" if "j < entries s" "j \<noteq> i" for j
      using entry_va_in_region(2) [of "vm s" j] entry_va_in_region(2) [of "vm s" i] that i inv'(1)
      by (metis entries_def frames_ok_def va_of_def)
    then show ?thesis
      using inv'(8) states by (auto simp: maps_ok_def t n)
  qed
  moreover have "users_ok t" using inv'(9) by (simp add: users_ok_def t kernel_va_def)
  moreover have "frames_ok t" using inv'(1) by (simp add: frames_ok_def t)
  moreover have "paging_inv (paging_of t)" using manager_step_inv [OF step inv'(3)] .
  ultimately show "sys_inv t C' {}" using book_t by (simp add: sys_inv_def)
qed


lemma frame_facts:
  assumes inv: "sys_inv s C K" and f: "f \<in> frames s" "f \<notin> K"
  shows "pfn_ok s (FramePfn f)" "pfn_free s (FramePfn f)" "unat f < 2 ^ 40" "f \<noteq> 0"
    "min_frame_number (vm s) \<le> f" "f \<le> max_frame_number (vm s)"
proof -
  show ok: "pfn_ok s (FramePfn f)" using f by (simp add: pfn_ok_def frames_def)
  then show "pfn_free s (FramePfn f)"
    using sys_invD(7) [OF inv] f(2) unfolding locks_ok_def by (metis image_frame_iff)
  show "unat f < 2 ^ 40" "f \<noteq> 0" "min_frame_number (vm s) \<le> f" "f \<le> max_frame_number (vm s)"
    using sys_invD(1) [OF inv] f by (simp_all add: frames_ok_def)
qed

lemma locks_apart:
  assumes inv: "sys_inv s C {}" and l: "l \<in> core_lists s"
  shows "unlocked_pfns s (set (head (lists s l) # C l))"
  using core_wf [OF sys_invD(5) [OF inv] l] sys_invD(7) [OF inv]
  by (auto simp: unlocked_pfns_def wf_list_def locks_ok_def)

lemma entry_facts:
  assumes "sys_inv s C K" and "i < entries s"
  shows "pte_ok s i" "pte_free s i"
  using assms sys_invD(7) [OF assms(1)] by (simp_all add: pte_ok_def entries_def locks_ok_def)

text \<open>Unlinking a page from its list, the page locked.\<close>

lemma lists_ok_unlink:
  assumes ok: "lists_ok s C" and l: "l \<in> {modified_list, standby_list}" and C: "C l = as @ p # bs"
  shows "lists_ok (s\<lparr>pfns := unlink p (pfns s), lists := resize l (- 1) (lists s)\<rparr>) (C(l := as @ bs))"
proof -
  have core: "l \<in> core_lists s" using l by auto
  let ?t = "s\<lparr>pfns := unlink p (pfns s), lists := resize l (- 1) (lists s)\<rparr>"
  have wf: "wf_list s l (as @ p # bs)" using core_wf [OF ok core] C by simp
  show ?thesis
  proof (rule lists_ok_rewrite [OF ok core, where X = "{}"])
    show "same_lists s ?t" using core_free [OF ok] by (simp add: same_lists_def list_free_def)
    show "wf_list ?t l (as @ bs)" using wf_list_unlink [OF wf] by (simp add: wf_list_def)
    show "flink (pfns ?t q) = flink (pfns s q) \<and> blink (pfns ?t q) = blink (pfns s q)"
      if "q \<notin> set (head (lists s l) # C l) \<union> {}" for q
      using unlink_other [OF wf_list_dll [OF wf], of q] that C by simp
    show "list_size (lists ?t modified_list) = of_nat (length ((C(l := as @ bs)) modified_list))"
      "list_size (lists ?t standby_list) = of_nat (length ((C(l := as @ bs)) standby_list))"
      using ok l C by (auto simp: lists_ok_def)
  qed (use C in auto)
qed

lemma soft_fault_case:
  assumes inv: "sys_inv s C {}" and i: "i < entries s" and view: "view (book_of s) i = TransitionView f"
    and w: "awe_spec w"
    and leave: "leave_list (FramePfn f) (s\<lparr>ptes := on_pte i (set_pte_lock 1) (ptes s),
        pfns := on_cell (FramePfn f) locked_pfn (pfns s)\<rparr>) =
      Inr ((), s\<lparr>ptes := on_pte i (set_pte_lock 1) (ptes s), pfns := on_cell (FramePfn f) locked_pfn m,
        lists := L, pf := d, stats := st', events := ev, spin := sp\<rparr>)"
    and m: "same_data (pfns s) m" and lists: "lists_ok (s\<lparr>pfns := m, lists := L\<rparr>) C'"
    and mem: "set (C' modified_list) = set (C modified_list) - {FramePfn f}"
      "set (C' standby_list) = set (C standby_list) - {FramePfn f}"
      "\<And>j. C' (free_list j) = C (free_list j)"
    and d: "pf_inv (vm s) d" "page_file d = page_file (pf s)"
      "\<And>j e. j \<noteq> i \<Longrightarrow> slot_held (page_states s j) = Some e \<Longrightarrow>
         unat e \<in> slots_used d - {0} - set (stash d)"
  shows "\<exists>t C'. resolve_soft_fault w i s = Inr (True, t) \<and> sys_inv t C' {} \<and>
     page_states t = (page_states s)(i := Resident f) \<and> manager_step (paging_of s) (paging_of t) \<and>
     vm t = vm s \<and> ram t = ram s \<and> committed t = committed s \<and> pte_to_trim t = pte_to_trim s"
proof -
  note inv' = sys_invD [OF inv]
  have v: "sane_view (entire_pte (ptes s i)) = TransitionView f" using view by (simp add: book_of_def)
  have "entry_ok (frames s) {} (book_of s) i" using inv'(2) i by (simp add: book_ok_def)
  then have own: "f \<in> frames s"
    "status_of (pfns s (FramePfn f)) \<noteq> PFN_ACTIVE" "status_of (pfns s (FramePfn f)) \<noteq> PFN_FREE"
    using view by (auto simp: entry_ok_def book_of_def)
  note ff = frame_facts [OF inv own(1), simplified] and pte = entry_facts [OF inv i]
  have lock: "lock_of (m (FramePfn f)) = 0" using ff(2) same_dataD(3) [OF m] by (simp add: pfn_free_def)
  note run = soft_fault_concrete [OF w pte v ff(5,6,1,2) own(2,3) leave lock]
  note sys = soft_fault_sys [OF inv i view m lists mem d refl]
  show ?thesis using run sys by (intro exI conjI) (assumption | simp)+
qed

text \<open>
  A soft fault succeeds on every page in transition, whatever the contentions on the way.  The page
  becomes resident in the frame it had, and no page changes its content.
\<close>

lemma resolve_soft_fault_run:
  assumes inv: "sys_inv s C {}" and i: "i < entries s" and view: "view (book_of s) i = TransitionView f"
    and w: "awe_spec w"
  shows "\<exists>t C'. resolve_soft_fault w i s = Inr (True, t) \<and> sys_inv t C' {} \<and>
     page_states t = (page_states s)(i := Resident f) \<and> manager_step (paging_of s) (paging_of t) \<and>
     vm t = vm s \<and> ram t = ram s \<and> committed t = committed s \<and> pte_to_trim t = pte_to_trim s"
proof -
  let ?p = "FramePfn f" and ?m = "pfns s"
  note inv' = sys_invD [OF inv]
  have v: "sane_view (entire_pte (ptes s i)) = TransitionView f" using view by (simp add: book_of_def)
  have "entry_ok (frames s) {} (book_of s) i" using inv'(2) i by (simp add: book_ok_def)
  then have own: "f \<in> frames s"
    "status_of (?m ?p) \<in> {PFN_MODIFIED, PFN_MID_WRITE, PFN_STANDBY}"
    using view by (auto simp: entry_ok_def book_of_def)
  note ff = frame_facts [OF inv own(1), simplified] and pte = entry_facts [OF inv i]
  have st: "status_of (?m ?p) \<noteq> PFN_ACTIVE" "status_of (?m ?p) \<noteq> PFN_FREE" using own(2) by auto
  let ?s1 = "s\<lparr>ptes := on_pte i (set_pte_lock 1) (ptes s), pfns := on_cell ?p locked_pfn ?m\<rparr>"
  have lock: "lock_of (?m ?p) = 0" using ff(2) by (simp add: pfn_free_def)
  have slots: "unat e \<in> slots_used (pf s) - {0} - set (stash (pf s))"
    if "slot_held (page_states s j) = Some e" for j e
    using inv'(4) that by (auto simp: slots_ok_def)
  have unl: "unlocked_pfns ?s1 (set (head (lists s l) # as @ bs))"
    if "C l = as @ ?p # bs" "l \<in> {modified_list, standby_list}" for l as bs
  proof -
    have core: "l \<in> core_lists s" using that(2) by auto
    have "distinct (head (lists s l) # as @ ?p # bs)"
      using core_wf [OF inv'(5) core] that(1) by (simp add: wf_list_def dll_def)
    then show ?thesis using locks_apart [OF inv core] that(1)
      by (auto simp: unlocked_pfns_def pfn_free_def on_cells_def)
  qed
  have wf1: "wf_list ?s1 l xs = wf_list s l xs" "list_free ?s1 l = list_free s l" for l xs
    by (simp_all add: wf_list_def list_free_def)
  have mem: "?p \<in> set (C modified_list) \<longleftrightarrow> status_of (?m ?p) = PFN_MODIFIED"
    "?p \<in> set (C standby_list) \<longleftrightarrow> status_of (?m ?p) = PFN_STANDBY"
    using inv'(6) own(1) by (auto simp: members_ok_def book_of_def)
  have other: "?p \<notin> set as \<union> set bs" if "C l = as @ ?p # bs" "l \<in> {modified_list, standby_list}" for l as bs
    using core_wf [OF inv'(5), of l] that by (auto simp: wf_list_def dll_def)
  consider (mid) "status_of (?m ?p) = PFN_MID_WRITE" | (mod) "status_of (?m ?p) = PFN_MODIFIED"
    | (stb) "status_of (?m ?p) = PFN_STANDBY" using own(2) by auto
  then show ?thesis
  proof cases
    case mid
    have "leave_list ?p ?s1 = Inr ((), s\<lparr>ptes := on_pte i (set_pte_lock 1) (ptes s),
        pfns := on_cell ?p locked_pfn ?m, lists := lists s, pf := pf s, stats := stats s,
        events := events s, spin := spin s\<rparr>)"
      using leave_list_none [of ?s1 ?p] ff(1) mid by simp
    note close = soft_fault_case [OF inv i view w this, where C' = C]
    have "?p \<notin> set (C modified_list)" "?p \<notin> set (C standby_list)" using mem mid by simp_all
    then show ?thesis using slots inv'(4,5) by (intro close) (simp_all add: same_data_def slots_ok_def)
  next
    case mod
    then obtain as bs where C: "C modified_list = as @ ?p # bs" using mem split_list by metis
    obtain ev k where "leave_list ?p ?s1 = Inr ((), ?s1\<lparr>pfns := unlink ?p (pfns ?s1),
        lists := resize modified_list (- 1) (lists ?s1), events := ev, spin := k\<rparr>)"
      using leave_list_modified [of ?s1 as ?p bs] unl [OF C] core_wf [OF inv'(5), of modified_list]
        core_free [OF inv'(5), of modified_list] C mod by (auto simp: wf1)
    then have "leave_list ?p ?s1 = Inr ((), s\<lparr>ptes := on_pte i (set_pte_lock 1) (ptes s),
        pfns := on_cell ?p locked_pfn (unlink ?p ?m), lists := resize modified_list (- 1) (lists s), pf := pf s,
        stats := stats s, events := ev, spin := k\<rparr>)"
      by (simp add: rewrites_semaphore)
    note close = soft_fault_case [OF inv i view w this, where C' = "C(modified_list := as @ bs)"]
    have "?p \<notin> set (C standby_list)" using mem mod by simp
    then show ?thesis using lists_ok_unlink [OF inv'(5) _ C] slots inv'(4) other [OF C] C
      by (intro close) (auto simp: slots_ok_def)
  next
    case stb
    then obtain as bs where C: "C standby_list = as @ ?p # bs" using mem split_list by metis
    let ?d = "unat (slot_of (?m ?p))"
    have pi: "page_states s i = Standby f (slot_of (?m ?p))" using entry_state_view [OF i] v stb by simp
    then have d: "?d \<in> slots_used (pf s)" "?d \<noteq> 0" "?d \<notin> set (stash (pf s))" using slots [of i] by auto
    have pfi: "pf_inv (vm s) (pf s)" using inv'(4) by (simp add: slots_ok_def)
    obtain ev st k where "leave_list ?p ?s1 = Inr ((), ?s1\<lparr>pfns := unlink ?p (pfns ?s1),
        lists := resize standby_list (- 1) (lists ?s1), pf := free_slot ?d (pf s), stats := st,
        events := ev, spin := k\<rparr>)"
      using leave_list_standby [of ?s1 as ?p bs "vm s"] unl [OF C] core_wf [OF inv'(5), of standby_list]
        core_free [OF inv'(5), of standby_list] C stb d pf_inv_shape [OF pfi] by (auto simp: wf1)
    then have "leave_list ?p ?s1 = Inr ((), s\<lparr>ptes := on_pte i (set_pte_lock 1) (ptes s),
        pfns := on_cell ?p locked_pfn (unlink ?p ?m), lists := resize standby_list (- 1) (lists s),
        pf := free_slot ?d (pf s), stats := st, events := ev, spin := k\<rparr>)"
      by (simp add: rewrites_semaphore)
    note close = soft_fault_case [OF inv i view w this, where C' = "C(standby_list := as @ bs)"]
    have "?p \<notin> set (C modified_list)" using mem stb by simp
    moreover have "unat e \<noteq> ?d" if "j \<noteq> i" "slot_held (page_states s j) = Some e" for j e
      using same_slot [OF inv'(3), of j e i] that pi by (auto simp: paging_of_def word_unat_eq_iff)
    moreover have "stash (free_slot ?d (pf s)) = stash (pf s)" "page_file (free_slot ?d (pf s)) = page_file (pf s)"
      by simp_all
    ultimately show ?thesis
      using lists_ok_unlink [OF inv'(5) _ C] slots pf_inv_free [OF pfi d] other [OF C] C
      by (intro close) (auto simp: slots_used_free_slot)
  qed
qed

end
