(* ===== verification/Free_Page_Supply.thy ===== *)
theory Free_Page_Supply
  imports Soft_Fault
begin

text \<open>
  Where the page for a hard fault comes from: the thread's cache (\<open>hand_out\<close>), which is refilled from
  a free list (\<open>refilled_sys\<close>) or from the head of the standby list.  Each step keeps the invariant
  of the system.
\<close>

section \<open>Books and lists under locks\<close>

lemma book_of_semaphore [simp]: "book_of (s\<lparr>pfns := on_cells X (set_semaphore v) m\<rparr>) = book_of (s\<lparr>pfns := m\<rparr>)"
  by (simp add: book_of_def)

lemma book_of_self [simp]: "book_of (s\<lparr>pfns := pfns s\<rparr>) = book_of s"
  by simp

lemma book_of_same_data:
  "same_data (pfns s) m \<Longrightarrow> book_of (s\<lparr>pfns := m\<rparr>) = book_of s"
  using same_dataD [of "pfns s" m] by (simp add: book_of_def)

lemma paging_of_irrelevant [simp]:
  "paging_of (s\<lparr>lists := c\<rparr>) = paging_of s" "paging_of (s\<lparr>spin := d\<rparr>) = paging_of s"
  "paging_of (s\<lparr>stats := e\<rparr>) = paging_of s" "paging_of (s\<lparr>events := f\<rparr>) = paging_of s"
  "paging_of (s\<lparr>va_map := h\<rparr>) = paging_of s" "paging_of (s\<lparr>users := j\<rparr>) = paging_of s"
  "paging_of (s\<lparr>free_lists := k\<rparr>) = paging_of s" "paging_of (s\<lparr>ticks := l\<rparr>) = paging_of s"
  by (simp_all add: paging_of_def page_states_def)

text \<open>The invariant does not look at counters, events, time and contentions.\<close>

lemma cache_irrelevant: "users t = users s \<Longrightarrow> cache t = cache s"
  by (simp add: cache_def fun_eq_iff)

lemma members_cong:
  assumes "users t = users s" and "vm t = vm s" and "free_lists t = free_lists s"
    and "frames t = frames s" and "fstatus (book_of t) = fstatus (book_of s)"
  shows "members_ok t C K = members_ok s C K"
  using assms cache_irrelevant [OF assms(1)]
  by (simp add: members_ok_def pool_def caches_ok_def listed_def cached_by_def user_count_def)

lemma sys_inv_cong:
  assumes "vm t = vm s" "pf t = pf s" "ptes t = ptes s" "pfns t = pfns s" "committed t = committed s"
    "heads t = heads s" "lists t = lists s" "free_lists t = free_lists s" "va_map t = va_map s"
    "ram t = ram s" "users t = users s"
  shows "sys_inv t C K = sys_inv s C K" and "paging_of t = paging_of s"
proof -
  have ok: "pfn_ok t p = pfn_ok s p" for p using assms by (simp add: pfn_ok_def split: pfn_ptr.split)
  have b: "book_of t = book_of s" "entries t = entries s" "frames t = frames s" "user_count t = user_count s"
    using assms by (simp_all add: book_of_def entries_def frames_def user_count_def)
  then show p: "paging_of t = paging_of s" using assms by (simp add: paging_of_def page_states_def)
  have st: "page_states t = page_states s" using b by (simp add: page_states_def)
  have "lists_ok t C = lists_ok s C" using assms ok by (intro lists_ok_cong) simp_all
  moreover have "members_ok t C K = members_ok s C K" using assms b by (intro members_cong) simp_all
  ultimately show "sys_inv t C K = sys_inv s C K"
    using assms b p st ok
    by (simp add: sys_inv_def frames_ok_def slots_ok_def locks_ok_def maps_ok_def users_ok_def kernel_va_def
        pfn_free_def pfn_held_def pte_free_def)
qed

lemma sys_inv_irrelevant [simp]:
  "sys_inv (s\<lparr>spin := d\<rparr>) C K = sys_inv s C K" "sys_inv (s\<lparr>stats := e\<rparr>) C K = sys_inv s C K"
  "sys_inv (s\<lparr>events := f\<rparr>) C K = sys_inv s C K" "sys_inv (s\<lparr>ticks := l\<rparr>) C K = sys_inv s C K"
  "sys_inv (s\<lparr>pte_to_trim := n\<rparr>) C K = sys_inv s C K"
  by (rule sys_inv_cong; simp)+


section \<open>Taking a page from the cache\<close>

definition pop_cache :: "nat \<Rightarrow> machine \<Rightarrow> machine" where
  "pop_cache t s = s\<lparr>users := (users s)(t := (users s t)\<lparr>free_page_count := free_page_count (users s t) - 1\<rparr>)\<rparr>"

lemma pop_cache_fields [simp]:
  "entries (pop_cache t s) = entries s" "frames (pop_cache t s) = frames s" "user_count (pop_cache t s) = user_count s"
  "vm (pop_cache t s) = vm s" "pf (pop_cache t s) = pf s" "va_map (pop_cache t s) = va_map s"
  "ram (pop_cache t s) = ram s" "pfns (pop_cache t s) = pfns s" "ptes (pop_cache t s) = ptes s"
  "lists (pop_cache t s) = lists s" "heads (pop_cache t s) = heads s" "free_lists (pop_cache t s) = free_lists s"
  "book_of (pop_cache t s) = book_of s" "pfn_ok (pop_cache t s) p = pfn_ok s p"
  by (simp_all add: pop_cache_def)

lemma unat_pred16: "(n :: u16) \<noteq> 0 \<Longrightarrow> unat n = Suc (unat (n - 1))"
  by (metis Suc_pred' unat_minus_one unat_gt_0)

lemma cache_pop:
  "free_page_count (users s t) \<noteq> 0 \<Longrightarrow>
   cache s t = cache (pop_cache t s) t @ [free_page_cache (users s t) (unat (free_page_count (users s t) - 1))]"
  using unat_pred16 [of "free_page_count (users s t)"] by (simp add: cache_def pop_cache_def)

lemma cache_pop_other: "t' \<noteq> t \<Longrightarrow> cache (pop_cache t s) t' = cache s t'"
  by (simp add: cache_def pop_cache_def)

text \<open>One thread's cache changes.\<close>

lemma caches_ok_change:
  assumes ok: "caches_ok s C" and t: "t < user_count s" and n: "user_count u = user_count s"
    and other: "\<And>t'. t' \<noteq> t \<Longrightarrow> cache u t' = cache s t'" and d: "distinct (cache u t)"
    and sub: "cached_by u t \<subseteq> cached_by s t \<union> Y" "listed u C' \<subseteq> listed s C"
    and Y: "Y \<inter> listed u C' = {}" "\<And>t'. t' < user_count s \<Longrightarrow> t' \<noteq> t \<Longrightarrow> Y \<inter> cached_by s t' = {}"
  shows "caches_ok u C'"
proof -
  have same: "cached_by u t' = cached_by s t'" if "t' \<noteq> t" for t' using other that by (simp add: cached_by_def)
  have l: "cached_by s t' \<inter> listed u C' = {}" if "t' < user_count s" for t'
    using ok that sub(2) by (auto simp: caches_ok_def)
  have c: "cached_by s t' \<inter> cached_by s t'' = {}" if "t' < user_count s" "t'' < user_count s" "t' \<noteq> t''" for t' t''
    using ok that by (simp add: caches_ok_def)
  have 1: "distinct (cache u t')" "cached_by u t' \<inter> listed u C' = {}" if "t' < user_count s" for t'
    using ok that other d l [OF that] sub(1) Y(1) same by (cases "t' = t"; auto simp: caches_ok_def)+
  have 2: "cached_by u t \<inter> cached_by u t' = {}" if "t' < user_count s" "t' \<noteq> t" for t'
    using sub(1) Y(2) [OF that] c [OF t that(1)] that same [OF that(2)] by auto
  have "cached_by u t' \<inter> cached_by u t'' = {}" if "t' < user_count s" "t'' < user_count s" "t' \<noteq> t''" for t' t''
    using 2 [of t'] 2 [of t''] c [OF that] that same by (cases "t' = t"; cases "t'' = t") auto
  then show ?thesis using 1 by (simp add: caches_ok_def n)
qed

lemma hand_out:
  assumes inv: "sys_inv s C {}" and t: "t < user_count s" and ne: "free_page_count (users s t) \<noteq> 0"
  shows "\<exists>f. free_page_cache (users s t) (unat (free_page_count (users s t) - 1)) = FramePfn f \<and>
     f \<in> frames s \<and> fstatus (book_of s) f = PFN_FREE \<and>
     sys_inv ((pop_cache t s)\<lparr>pfns := on_cell (FramePfn f) locked_pfn (pfns s)\<rparr>) C {f}"
proof -
  let ?p = "free_page_cache (users s t) (unat (free_page_count (users s t) - 1))"
  let ?u = "pop_cache t s"
  note inv' = sys_invD [OF inv]
  note split = cache_pop [OF ne]
  have "?p \<in> cached_by s t" unfolding cached_by_def split by simp
  then have "?p \<in> pool s C" using t by (auto simp: pool_def)
  then obtain f where f: "?p = FramePfn f" "f \<in> frames s" "fstatus (book_of s) f = PFN_FREE"
    using inv'(6) by (auto simp: members_ok_def)
  let ?t = "?u\<lparr>pfns := on_cell (FramePfn f) locked_pfn (pfns s)\<rparr>"
  have b: "book_of ?t = book_of s" "entries ?t = entries s" "frames ?t = frames s" "user_count ?t = user_count s"
    "vm ?t = vm s" "pf ?t = pf s" "ram ?t = ram s" "va_map ?t = va_map s"
    by (simp_all add: pop_cache_def)
  have st: "page_states ?t = page_states s" unfolding page_states_def b ..
  have pg: "paging_of ?t = paging_of s" unfolding paging_of_def st b ..
  have cache: "cache ?t = cache ?u" by (simp add: cache_def fun_eq_iff)
  have d: "distinct (cache s t)" using inv'(6) t by (simp add: members_ok_def caches_ok_def)
  have cby: "cached_by ?t t' = (if t' = t then cached_by s t - {FramePfn f} else cached_by s t')" for t'
  proof (cases "t' = t")
    case True
    then show ?thesis using d split f(1) unfolding cached_by_def cache by (metis Diff_insert_absorb
        Un_insert_right append_Nil2 distinct_append disjoint_insert(1) list.simps(15) set_append)
  qed (simp add: cached_by_def cache cache_pop_other)
  have listed: "listed ?t C = listed s C" by (simp add: listed_def pop_cache_def)
  have fin: "FramePfn f \<in> cached_by s t" using split f(1) by (simp add: cached_by_def)
  have apart: "FramePfn f \<notin> listed s C" "t' < user_count s \<Longrightarrow> t' \<noteq> t \<Longrightarrow> FramePfn f \<notin> cached_by s t'" for t'
    using inv'(6) t fin unfolding members_ok_def caches_ok_def by blast+
  have caches: "caches_ok ?t C"
  proof (rule caches_ok_change [where Y = "{}", OF _ t b(4)])
    show "distinct (cache ?t t)" using d split unfolding cache by (metis distinct_append)
  qed (use inv'(6) cby listed in \<open>auto simp: members_ok_def cache cache_pop_other\<close>)
  have "pool ?t C = pool s C - {FramePfn f}"
    unfolding pool_def listed cby b using apart t by (auto split: if_splits)
  then have "members_ok ?t C {f}"
    using inv'(6) f caches unfolding members_ok_def b by auto
  moreover have "lists_ok ?t C"
    using inv'(5) by (subst lists_ok_cong [of _ s]) (simp_all add: pop_cache_def pfn_ok_def split: pfn_ptr.split)
  moreover have "locks_ok ?t {f}"
    using inv'(7) f(2) by (auto simp: locks_ok_def pop_cache_def pfn_free_def pfn_held_def pte_free_def on_cells_def
        pfn_ok_def entries_def frames_def split: pfn_ptr.splits if_splits)
  moreover have "maps_ok ?t {f}" using inv'(8) by (simp add: maps_ok_def st b)
  moreover have "users_ok ?t"
    using inv'(9) unat_pred16 [OF ne] t by (fastforce simp: users_ok_def pop_cache_def kernel_va_def user_count_def entries_def)
  moreover have "book_ok (entries ?t) (frames ?t) {f} (book_of ?t)"
    unfolding b by (rule book_hand [OF inv'(2)]) simp
  moreover have "frames_ok ?t" "slots_ok ?t" using inv'(1,4) by (simp_all add: frames_ok_def slots_ok_def st b)
  ultimately have "sys_inv ?t C {f}" using inv'(3) by (simp add: sys_inv_def pg)
  then show ?thesis using f by blast
qed


section \<open>Refilling the cache from a free list\<close>

lemma cache_from_take:
  assumes "k \<le> length xs" and "k \<le> 64"
  shows "map (cache_from 0 (take k xs) c) [0..<unat (of_nat k :: u16)] = take k xs"
proof -
  have "unat (of_nat k :: u16) = k" using assms(2) by (simp add: unat_of_nat)
  then show ?thesis using assms(1) by (intro nth_equalityI) (simp_all add: cache_from_def)
qed

lemma lists_ok_cut:
  assumes ok: "lists_ok s C" and l: "l \<in> core_lists s" and k: "k \<le> length (C l)"
    and P: "P = cut_front (head (lists s l)) (hd (drop k (C l) @ [head (lists s l)])) (pfns s)"
  shows "lists_ok (s\<lparr>pfns := P, lists := resize l (- of_nat k) (lists s)\<rparr>) (C(l := drop k (C l)))"
proof -
  let ?t = "s\<lparr>pfns := P, lists := resize l (- of_nat k) (lists s)\<rparr>" and ?h = "head (lists s l)"
  have wf: "wf_list s l (C l)" using ok l by (rule core_wf)
  have len: "(of_nat (length (C l)) :: u64) - of_nat k = of_nat (length (drop k (C l)))"
    using k by (simp add: of_nat_diff)
  show ?thesis
  proof (rule lists_ok_rewrite [OF ok l, where X = "{}"])
    show "same_lists s ?t" using core_free [OF ok] by (simp add: same_lists_def list_free_def)
    show "wf_list ?t l (drop k (C l))"
      using wf dll_cut_front [of "pfns s" ?h "take k (C l)" "drop k (C l)"]
      by (auto simp: wf_list_def P dest: in_set_dropD)
    show "flink (pfns ?t q) = flink (pfns s q) \<and> blink (pfns ?t q) = blink (pfns s q)"
      if "q \<notin> set (?h # C l) \<union> {}" for q
    proof -
      have "q \<notin> set (?h # drop k (C l))" using that by (auto dest: in_set_dropD)
      then show ?thesis by (simp add: P cut_front_other)
    qed
    show "set (drop k (C l)) \<subseteq> set (C l) \<union> {}" by (auto dest: in_set_dropD)
    show "list_size (lists ?t modified_list) = of_nat (length ((C(l := drop k (C l))) modified_list))"
      "list_size (lists ?t standby_list) = of_nat (length ((C(l := drop k (C l))) standby_list))"
      using ok len by (auto simp: lists_ok_def)
  qed simp_all
qed

lemma free_list_core: "j < unat (number_of_lists (free_lists s)) \<Longrightarrow> free_list j \<in> core_lists s"
  by (simp add: core_lists_def)

lemma listed_cut:
  assumes ok: "lists_ok s C" and j: "j < unat (number_of_lists (free_lists s))"
    and n: "number_of_lists (free_lists u) = number_of_lists (free_lists s)"
  shows "listed u (C(free_list j := drop k (C (free_list j)))) = listed s C - set (take k (C (free_list j)))"
proof -
  let ?xs = "C (free_list j)" and ?n = "unat (number_of_lists (free_lists s))"
  have "wf_list s (free_list j) ?xs" using core_wf [OF ok free_list_core [OF j]] .
  then have d: "distinct ?xs" by (simp add: wf_list_def dll_def)
  have apart: "set (C (free_list i)) \<inter> set ?xs = {}" if "i < ?n" "i \<noteq> j" for i
    using core_apart [OF ok free_list_core [OF that(1)] free_list_core [OF j]] that(2) by simp
  have split: "set (drop k ?xs) = set ?xs - set (take k ?xs)"
    using d set_take_disj_set_drop_if_distinct [of ?xs k k] append_take_drop_id [of k ?xs]
    by (metis Diff_Diff_Int Diff_Un Un_Diff Un_Diff_Int inf_commute le_refl set_append sup_bot.left_neutral Diff_cancel Diff_triv Int_commute)
  have "listed u (C(free_list j := drop k ?xs)) =
      (\<Union>i < ?n. if i = j then set ?xs - set (take k ?xs) else set (C (free_list i)))"
    unfolding listed_def n by (rule SUP_cong) (auto simp: split)
  also have "\<dots> = (\<Union>i < ?n. set (C (free_list i))) - set (take k ?xs)"
    using apart j by (auto split: if_splits dest: in_set_takeD)
  finally show ?thesis by (simp add: listed_def)
qed

lemma refilled_sys:
  assumes inv: "sys_inv s C {}" and t: "t < user_count s" and empty: "free_page_count (users s t) = 0"
    and j: "j < unat (number_of_lists (free_lists s))" and k: "k \<le> length (C (free_list j))" "k \<le> 64"
  shows "sys_inv (refilled (free_list j) t (C (free_list j)) k s) (C(free_list j := drop k (C (free_list j)))) {}"
    and "paging_of (refilled (free_list j) t (C (free_list j)) k s) = paging_of s"
proof -
  let ?l = "free_list j" let ?xs = "C ?l" let ?h = "head (lists s ?l)"
  let ?P = "cut_front ?h (hd (drop k ?xs @ [?h])) (pfns s)"
  define u where "u = refilled ?l t ?xs k s"
  let ?C = "C(?l := drop k ?xs)"
  note inv' = sys_invD [OF inv]
  have f: "pfns u = ?P" "lists u = resize ?l (- of_nat k) (lists s)" "vm u = vm s" "pf u = pf s" "ram u = ram s"
    "ptes u = ptes s" "committed u = committed s" "heads u = heads s" "va_map u = va_map s"
    "number_of_lists (free_lists u) = number_of_lists (free_lists s)"
    "free_list_locks (free_lists u) = free_list_locks (free_lists s)"
    "users u = (users s)(t := (users s t)\<lparr>
          free_page_cache := cache_from 0 (take k ?xs) (free_page_cache (users s t)), free_page_count := of_nat k\<rparr>)"
    by (simp_all add: u_def refilled_def Let_def)
  have b: "book_of u = book_of s" "entries u = entries s" "frames u = frames s" "user_count u = user_count s"
    using same_dataD [OF same_data_links(3) [where m = "pfns s"]]
    by (simp_all add: book_of_def f entries_def frames_def user_count_def)
  have st: "page_states u = page_states s" unfolding page_states_def b ..
  have pg: "paging_of u = paging_of s" unfolding paging_of_def st f ..
  have ok: "pfn_ok u p = pfn_ok s p" for p by (simp add: pfn_ok_def f split: pfn_ptr.split)
  have cut: "lists_ok (s\<lparr>pfns := ?P, lists := resize ?l (- of_nat k) (lists s)\<rparr>) ?C"
    by (rule lists_ok_cut [OF inv'(5) free_list_core [OF j] k(1) refl])
  have lists: "lists_ok u ?C"
    using cut by (subst lists_ok_cong [of _ "s\<lparr>pfns := ?P, lists := resize ?l (- of_nat k) (lists s)\<rparr>"])
      (simp_all add: f ok)
  have cache: "cache u t = take k ?xs" "cache s t = []" "cache u t' = cache s t'" if "t' \<noteq> t" for t'
    using that empty cache_from_take [OF k] by (simp_all add: cache_def f)
  have cache_t: "cache u t = take k ?xs" using cache_from_take [OF k] by (simp add: cache_def f)
  have cache_s: "cached_by s t = {}" using empty by (simp add: cached_by_def cache_def)
  have listed: "listed u ?C = listed s C - set (take k ?xs)" by (rule listed_cut [OF inv'(5) j f(10)])
  have batch: "set (take k ?xs) \<subseteq> listed s C" using j by (auto simp: listed_def dest: in_set_takeD)
  have "wf_list s ?l ?xs" using core_wf [OF inv'(5) free_list_core [OF j]] .
  then have d: "distinct (take k ?xs)" by (simp add: wf_list_def dll_def)
  have co: "caches_ok s C" using inv'(6) by (simp add: members_ok_def)
  have "caches_ok u ?C"
  proof (rule caches_ok_change [where Y = "set (take k ?xs)", OF co t b(4)])
    show "cached_by u t \<subseteq> cached_by s t \<union> set (take k ?xs)" by (simp add: cached_by_def cache_t)
    show "set (take k ?xs) \<inter> cached_by s t' = {}" if "t' < user_count s" "t' \<noteq> t" for t'
      using co that batch unfolding caches_ok_def by blast
  qed (use cache d cache_t listed in auto)
  moreover have "pool u ?C = pool s C"
  proof -
    have *: "cached_by u t' = (if t' = t then set (take k ?xs) else cached_by s t')" for t'
      using cache_t cache(3) [of t'] by (simp add: cached_by_def)
    show ?thesis unfolding pool_def listed b * using batch cache_s t by (auto split: if_splits)
  qed
  ultimately have "members_ok u ?C {}" using inv'(6) by (simp add: members_ok_def b)
  moreover have "locks_ok u {}"
    using inv'(7) by (simp add: locks_ok_def f b ok pfn_free_def pte_free_def)
  moreover have "maps_ok u {}" using inv'(8) by (simp add: maps_ok_def f b st)
  moreover have "users_ok u"
    using inv'(9) k by (auto simp: users_ok_def f b kernel_va_def unat_of_nat)
  moreover have "frames_ok u" "slots_ok u" "book_ok (entries u) (frames u) {} (book_of u)"
    using inv' by (simp_all add: frames_ok_def slots_ok_def f b st)
  ultimately show "sys_inv (refilled ?l t ?xs k s) ?C {}"
    using inv'(3) lists pg unfolding u_def [symmetric] by (simp add: sys_inv_def)
  show "paging_of (refilled ?l t ?xs k s) = paging_of s" using pg by (simp add: u_def)
qed

end
