(* ===== verification/Standby_Supply.thy ===== *)
theory Standby_Supply
  imports Free_Page_Supply
begin

text \<open>
  A batch of standby pages becomes the cache of a thread: \<open>move_batch_from_standby_to_cache\<close>.  The
  batch leaves the list locked; then each page is taken from its owner, whose entry is mapped to the
  disk.  \<open>with_count t i\<close> is the machine as it will be once the number of pages moved so far is
  written to the cache.
\<close>

section \<open>One page is taken from its owner\<close>

lemma users_ok_change:
  assumes "users_ok s" and "vm t = vm s"
    and "\<And>k. k < user_count s \<Longrightarrow> kernel_va_index (users t k) < NUM_KERNEL_READ_ADDRESSES"
    and "\<And>k. k < user_count s \<Longrightarrow> unat (free_page_count (users t k)) \<le> 64"
    and "\<And>k. k < user_count s \<Longrightarrow> kernel_va_space (users t k) = kernel_va_space (users s k)"
  shows "users_ok t"
  using assms unfolding users_ok_def by (simp add: kernel_va_def user_count_def entries_def)

lemma users_okD:
  assumes "users_ok s" and "t < user_count s"
  shows "kernel_va_index (users s t) < NUM_KERNEL_READ_ADDRESSES" and "unat (free_page_count (users s t)) \<le> 64"
  using assms by (simp_all add: users_ok_def)

definition with_count :: "nat \<Rightarrow> nat \<Rightarrow> machine \<Rightarrow> machine" where
  "with_count t i s = s\<lparr>users := (users s)(t := (users s t)\<lparr>free_page_count := of_nat i\<rparr>)\<rparr>"

lemma with_count_fields [simp]:
  "entries (with_count t i s) = entries s" "frames (with_count t i s) = frames s"
  "user_count (with_count t i s) = user_count s"
  "vm (with_count t i s) = vm s" "pf (with_count t i s) = pf s" "va_map (with_count t i s) = va_map s"
  "ram (with_count t i s) = ram s" "pfns (with_count t i s) = pfns s" "ptes (with_count t i s) = ptes s"
  "lists (with_count t i s) = lists s" "heads (with_count t i s) = heads s"
  "free_lists (with_count t i s) = free_lists s" "book_of (with_count t i s) = book_of s"
  "pfn_ok (with_count t i s) p = pfn_ok s p" "pte_ok (with_count t i s) k = pte_ok s k"
  "paging_of (with_count t i s) = paging_of s" "page_states (with_count t i s) = page_states s"
  "maps_ok (with_count t i s) K = maps_ok s K"
  by (simp_all add: with_count_def maps_ok_def page_states_def)

definition disowned :: "nat \<Rightarrow> u64 \<Rightarrow> nat \<Rightarrow> nat \<Rightarrow> machine \<Rightarrow> machine" where
  "disowned j f t i s = s\<lparr>
     ptes := (ptes s)(j := (ptes s j)\<lparr>entire_pte := map_pte_to_disk (slot_of (pfns s (FramePfn f))) (entire_pte (ptes s j))\<rparr>),
     users := (users s)(t := (users s t)\<lparr>free_page_cache := (free_page_cache (users s t))(i := FramePfn f)\<rparr>),
     pfns := on_cell (FramePfn f) (\<lambda>q. unlocked_pfn (set_PFN_free q)) (pfns s)\<rparr>"

lemma disowned_fields [simp]:
  "entries (disowned j f t i s) = entries s" "frames (disowned j f t i s) = frames s"
  "user_count (disowned j f t i s) = user_count s" "vm (disowned j f t i s) = vm s"
  "pf (disowned j f t i s) = pf s" "va_map (disowned j f t i s) = va_map s" "ram (disowned j f t i s) = ram s"
  "lists (disowned j f t i s) = lists s" "heads (disowned j f t i s) = heads s"
  "free_lists (disowned j f t i s) = free_lists s" "pfn_ok (disowned j f t i s) p = pfn_ok s p"
  "pte_ok (disowned j f t i s) k = pte_ok s k" "spin (disowned j f t i s) = spin s"
  "free_page_count (users (disowned j f t i s) t') = free_page_count (users s t')"
  by (simp_all add: disowned_def)

lemma book_of_disowned:
  assumes "fslot (book_of s) f = d"
  shows "book_of (disowned j f t i s) = book_disown j f (book_of s)"
proof -
  have "unat (slot_of q) < 2 ^ 40" for q using slot_fits [of q] by (simp only: take_bit_less_iff)
  then show ?thesis
    by (auto simp: book_of_def disowned_def book_disown_def change_def sane_map_to_disk on_cells_def fun_eq_iff)
qed

lemma cache_disowned:
  assumes "i < 64"
  shows "cache (with_count t (Suc i) (disowned j f t i s)) t = cache (with_count t i s) t @ [FramePfn f]"
    and "t' \<noteq> t \<Longrightarrow> cache (with_count t (Suc i) (disowned j f t i s)) t' = cache (with_count t i s) t'"
proof -
  have "unat (of_nat i :: u16) = i" "unat (of_nat (Suc i) :: u16) = Suc i"
    using assms by (simp_all only: unat_of_nat) simp_all
  then show "cache (with_count t (Suc i) (disowned j f t i s)) t = cache (with_count t i s) t @ [FramePfn f]"
    by (simp add: cache_def with_count_def disowned_def del: of_nat_Suc)
  show "t' \<noteq> t \<Longrightarrow> cache (with_count t (Suc i) (disowned j f t i s)) t' = cache (with_count t i s) t'"
    by (simp add: cache_def with_count_def disowned_def)
qed

lemma disowned_sys:
  assumes inv: "sys_inv (with_count t i s) C (insert f K)" and f: "f \<notin> K"
    and st: "fstatus (book_of s) f = PFN_STANDBY" and t: "t < user_count s" and i: "i < 64"
    and maps: "maps_ok s {}" and own: "fowner (book_of s) f = Some j" "j < entries s"
    "frame_at (view (book_of s) j) = Some f"
  shows "sys_inv (with_count t (Suc i) (disowned j f t i s)) C K"
    and "manager_step (paging_of s) (paging_of (disowned j f t i s))"
    and "maps_ok (disowned j f t i s) {}"
proof -
  let ?s = "with_count t i s" and ?u = "with_count t (Suc i) (disowned j f t i s)"
  let ?d = "fslot (book_of s) f"
  note inv' = sys_invD [OF inv, simplified]
  have b: "book_of (disowned j f t i s) = book_disown j f (book_of s)" by (rule book_of_disowned) (rule refl)
  have sub: "insert f K - {f} \<subseteq> K" by auto
  note dis = book_disown [OF inv'(2) own(2,3) sub]
  have states: "page_states (disowned j f t i s) = (page_states s)(j := OnDisk ?d)"
    using dis(2) by (simp add: page_states_def b)
  have "entry_ok (frames s) (insert f K) (book_of s) j" using inv'(2) own(2) by (simp add: book_ok_def)
  then have old: "page_states s j = Standby f ?d"
    using own st by (auto simp: page_states_def entry_state_def entry_ok_def split: pte_view.splits)
  have paging: "paging_of (disowned j f t i s) = (paging_of s)\<lparr>state := (state (paging_of s))(j := OnDisk ?d)\<rparr>"
    by (simp add: paging_of_def states)
  show step: "manager_step (paging_of s) (paging_of (disowned j f t i s))"
    unfolding paging using old by (intro take_standby [where f = f]) (simp add: page_states_state)
  show maps': "maps_ok (disowned j f t i s) {}"
    using maps old by (auto simp: maps_ok_def states)
  have user: "kernel_va_index (users s k) < NUM_KERNEL_READ_ADDRESSES"
    "k \<noteq> t \<Longrightarrow> unat (free_page_count (users s k)) \<le> 64" if "k < user_count s" for k
    using users_okD [OF inv'(9), of k] that by (auto simp: with_count_def split: if_splits)
  have fcom: "f \<in> frames s" using inv'(7) by (simp add: locks_ok_def)
  have stat: "fstatus (book_of ?u) g = (if g = f then PFN_FREE else fstatus (book_of s) g)" for g
    by (simp add: b book_disown_def change_def)
  have cby: "cached_by ?u t' = (if t' = t then insert (FramePfn f) (cached_by ?s t) else cached_by ?s t')" for t'
    using cache_disowned [OF i, where t = t and j = j and f = f and s = s] by (simp add: cached_by_def)
  have list: "listed ?u C = listed ?s C" by (simp add: listed_def)
  have notfree: "FramePfn f \<notin> pool ?s C" using inv'(6) st by (auto simp: members_ok_def)
  then have apart: "FramePfn f \<notin> listed s C" "t' < user_count s \<Longrightarrow> FramePfn f \<notin> cached_by ?s t'" for t'
    by (auto simp: pool_def listed_def)
  have co: "caches_ok ?s C" using inv'(6) by (simp add: members_ok_def)
  have "caches_ok ?u C"
  proof (rule caches_ok_change [where Y = "{FramePfn f}" and s = ?s and t = t and C = C])
    show "distinct (cache ?u t)"
      using co t apart(2) [OF t] cache_disowned(1) [OF i] by (auto simp: caches_ok_def cached_by_def)
  qed (use co t cby list apart cache_disowned(2) [OF i] in \<open>auto simp: listed_def\<close>)
  moreover have "pool ?u C = insert (FramePfn f) (pool ?s C)"
    unfolding pool_def cby list using t by auto
  ultimately have "members_ok ?u C K"
    using inv'(6) st f fcom unfolding members_ok_def stat by auto
  moreover have "lists_ok ?u C"
    using inv'(5) by (subst lists_ok_cong [of _ ?s]) (simp_all add: disowned_def on_cells_def)
  moreover have "locks_ok ?u K"
    using inv'(7) f fcom
    by (auto simp: locks_ok_def pfn_held_def pfn_free_def disowned_def on_cells_def pte_free_def
        split: if_splits)
  moreover have "maps_ok ?u K" using maps' by (simp add: maps_ok_def)
  moreover have "users_ok ?u"
    using i user by (intro users_ok_change [OF inv'(9)])
      (simp_all add: with_count_def disowned_def unat_of_nat split: if_splits del: of_nat_Suc)
  moreover have "slots_ok ?u"
  proof -
    have "slot_held (page_states ?u k) = slot_held (page_states s k)" for k
      using old by (simp add: states)
    then show ?thesis using inv'(4) by (simp add: slots_ok_def)
  qed
  moreover have "paging_inv (paging_of ?u)" using manager_step_inv [OF step] inv'(3) by simp
  ultimately show "sys_inv ?u C K"
    using inv'(1) dis(1) by (simp add: sys_inv_def frames_ok_def b)
qed


text \<open>The loop.\<close>

lemma take_from_owners_run:
  assumes "sys_inv (with_count t i s) C (set fs)" and "maps_ok s {}" and "distinct fs"
    and "\<forall>f \<in> set fs. fstatus (book_of s) f = PFN_STANDBY" and "linked (pfns s) (map FramePfn fs)"
    and "t < user_count s" and "i + length fs \<le> 64" and "fs \<noteq> [] \<Longrightarrow> p = FramePfn (hd fs)"
  shows "\<exists>u. take_from_owners (length fs) t i p s = Inr ((), u) \<and>
     sys_inv (with_count t (i + length fs) u) C {} \<and> managed s u \<and> spin u = spin s \<and>
     free_page_count (users u t) = free_page_count (users s t)"
  using assms
proof (induction fs arbitrary: i s p)
  case Nil
  then show ?case by (auto simp: prog_simps)
next
  case (Cons f fs)
  let ?s = "with_count t i s" and ?p = "FramePfn f"
  have p: "p = ?p" and t: "t < user_count s" and i: "i < 64" using Cons.prems by simp_all
  note inv' = sys_invD [OF Cons.prems(1), simplified]
  have st: "fstatus (book_of s) f = PFN_STANDBY" using Cons.prems(4) by simp
  have fcom: "f \<in> frames s" using inv'(7) by (simp add: locks_ok_def)
  obtain j where j: "j < entries s" "fowner (book_of s) f = Some j" "frame_at (view (book_of s) j) = Some f"
    using book_ok_frame [OF inv'(2) fcom] st by auto
  let ?u = "disowned j f t i s"
  have "sys_inv ?s C (insert f (set fs))" using Cons.prems(1) by simp
  note dis = disowned_sys [OF this _ st t i Cons.prems(2) j(2,1,3)]
  have ok: "pfn_ok s ?p" using fcom by (simp add: pfn_ok_def frames_def)
  have held: "pfn_held s ?p" using inv'(7) ok by (auto simp: locks_ok_def pfn_held_def)
  have own: "PTE (pfns s ?p) = Some j" "pte_ok s j"
    using j by (simp_all add: book_of_def pte_ok_def entries_def)
  let ?v = "s\<lparr>ptes := (ptes s)(j := (ptes s j)\<lparr>entire_pte := map_pte_to_disk (slot_of (pfns s ?p)) (entire_pte (ptes s j))\<rparr>)\<rparr>"
  have loop: "take_from_owners (length (f # fs)) t i p s = take_from_owners (length fs) t (i + 1) (flink (pfns s ?p)) ?u"
    using ok own held i p
    by (simp add: prog_simps write_cache_run unlock_pfn_run pfn_held_def on_cells_def)
      (simp add: set_cache_def disowned_def on_cell_same on_cells_def fun_upd_def cong: if_cong)
  have links: "linked (pfns ?u) (map FramePfn fs)"
  proof -
    have "linked (pfns ?u) (map FramePfn fs) = linked (pfns s) (map FramePfn fs)"
      by (rule linked_cong) (simp add: disowned_def on_cells_def)
    then show ?thesis using Cons.prems(5) by (cases fs) simp_all
  qed
  have "\<forall>g \<in> set fs. fstatus (book_of ?u) g = PFN_STANDBY"
    using Cons.prems(3,4) by (auto simp: book_of_disowned [OF refl] book_disown_def change_def)
  then have "\<exists>v. take_from_owners (length fs) t (Suc i) (flink (pfns s ?p)) ?u = Inr ((), v) \<and>
     sys_inv (with_count t (Suc i + length fs) v) C {} \<and> managed ?u v \<and> spin v = spin ?u \<and>
     free_page_count (users v t) = free_page_count (users ?u t)"
    using dis Cons.prems(3,5,7) links t by (intro Cons.IH) (auto simp: neq_Nil_conv)
  moreover have "managed s ?u" using dis Cons.prems(3) by (intro managed_step) (simp_all add: disowned_def)
  ultimately show ?case unfolding loop by (auto intro: managed_trans)
qed


section \<open>The batch\<close>

lemma frame_list: "\<forall>p \<in> set xs. frame_page p \<Longrightarrow> \<exists>fs. xs = map FramePfn fs"
proof (induction xs)
  case (Cons p xs)
  then obtain fs where "xs = map FramePfn fs" by auto
  moreover obtain f where "p = FramePfn f" using Cons.prems by (cases p) (simp_all add: frame_page_def)
  ultimately have "p # xs = map FramePfn (f # fs)" by simp
  then show ?case by (rule exI)
qed simp

lemma core_short:
  assumes "lists_ok s C" and "l \<in> core_lists s"
  shows "length (C l) < 2 ^ 64"
proof -
  have "length (C l) \<le> 2 ^ 40"
    using core_wf [OF assms] core_frame [OF assms] by (intro frames_bounded) (auto simp: wf_list_def dll_def)
  then show ?thesis by simp
qed

lemma drop_set: "distinct xs \<Longrightarrow> set (drop k xs) = set xs - set (take k xs)"
  using set_take_disj_set_drop_if_distinct [of xs k k] append_take_drop_id [of k xs]
  by (metis Diff_Diff_Int Diff_Un Un_Diff Un_Diff_Int inf_commute le_refl set_append sup_bot.left_neutral
      Diff_cancel Diff_triv Int_commute)

lemma batch_removed_sys:
  assumes inv: "sys_inv s C {}" and l: "l \<in> {modified_list, standby_list}" and k: "k \<le> length (C l)"
    and fs: "take k (C l) = map FramePfn fs"
  shows "sys_inv (batch_removed l (C l) k s)
           (C(l := drop k (C l))) (set fs)"
    and "paging_of (batch_removed l (C l) k s) = paging_of s"
    and "maps_ok (batch_removed l (C l) k s) {}"
    and "\<forall>f \<in> set fs. fstatus (book_of (batch_removed l (C l) k s)) f = (if l = modified_list then PFN_MODIFIED else PFN_STANDBY)"
    and "linked (pfns (batch_removed l (C l) k s)) (map FramePfn fs)"
    and "distinct fs"
proof -
  let ?xs = "C l" let ?h = "head (lists s l)"
  let ?P = "cut_front ?h (hd (drop k ?xs @ [?h])) (pfns s)" and ?C = "C(l := drop k ?xs)"
  define u where "u = batch_removed l ?xs k s"
  note inv' = sys_invD [OF inv]
  have core: "l \<in> core_lists s" using l by auto
  have sfs: "set (take k ?xs) = FramePfn ` set fs" using fs by simp
  have f: "pfns u = on_cells (FramePfn ` set fs) locked_pfn ?P" "lists u = resize l (- of_nat k) (lists s)"
    "vm u = vm s" "pf u = pf s" "ram u = ram s" "ptes u = ptes s" "committed u = committed s" "heads u = heads s"
    "va_map u = va_map s" "free_lists u = free_lists s" "users u = users s"
    by (simp_all add: u_def batch_removed_def Let_def sfs)
  have b: "book_of u = book_of s" "entries u = entries s" "frames u = frames s" "user_count u = user_count s"
    using same_dataD [OF same_data_links(3) [where m = "pfns s"]]
    by (simp_all add: book_of_def f entries_def frames_def user_count_def on_cells_def if_distrib cong: if_cong)
  have st: "page_states u = page_states s" unfolding page_states_def b ..
  have pg: "paging_of u = paging_of s" unfolding paging_of_def st f ..
  then show "paging_of (batch_removed l ?xs k s) = paging_of s" by (simp add: u_def)
  have ok: "pfn_ok u p = pfn_ok s p" for p by (simp add: pfn_ok_def f split: pfn_ptr.split)
  have wf: "wf_list s l ?xs" using core_wf [OF inv'(5) core] .
  then have d: "distinct ?xs" by (simp add: wf_list_def dll_def)
  then show dfs: "distinct fs" using fs by (metis distinct_map distinct_take)
  have mem: "FramePfn f \<in> set ?xs" if "f \<in> set fs" for f
    using that sfs by (metis image_eqI in_set_takeD)
  have stat: "fstatus (book_of s) f = (if l = modified_list then PFN_MODIFIED else PFN_STANDBY)" "f \<in> frames s" if "f \<in> set fs" for f
    using inv'(6) mem [OF that] l by (auto simp: members_ok_def)
  then show "\<forall>f \<in> set fs. fstatus (book_of (batch_removed l ?xs k s)) f = (if l = modified_list then PFN_MODIFIED else PFN_STANDBY)"
    using b by (simp add: u_def)
  have "linked (pfns u) (map FramePfn fs) = linked ?P (map FramePfn fs)"
    by (rule linked_cong) (auto simp: f on_cells_def)
  then show "linked (pfns (batch_removed l ?xs k s)) (map FramePfn fs)"
    using batch_linked [of "pfns s" ?h ?xs k] wf fs by (simp add: u_def wf_list_def)
  show maps: "maps_ok (batch_removed l ?xs k s) {}"
    using inv'(8) unfolding u_def [symmetric] by (simp add: maps_ok_def f b st)
  have cut: "lists_ok (s\<lparr>pfns := ?P, lists := resize l (- of_nat k) (lists s)\<rparr>) ?C"
    by (rule lists_ok_cut [OF inv'(5) core k refl])
  have "lists_ok u ?C"
    using cut by (subst lists_ok_cong [of _ "s\<lparr>pfns := ?P, lists := resize l (- of_nat k) (lists s)\<rparr>"])
      (simp_all add: f ok on_cells_def)
  moreover have "members_ok u ?C (set fs)"
  proof -
    have c: "cache u = cache s" by (simp add: cache_def f fun_eq_iff)
    moreover have "listed u ?C = listed s C" using l by (auto simp: listed_def f)
    ultimately have "pool u ?C = pool s C" "caches_ok u ?C = caches_ok s C"
      by (simp_all add: pool_def caches_ok_def cached_by_def b)
    moreover have "set (drop k ?xs) = set ?xs - FramePfn ` set fs" using drop_set [OF d] sfs by simp
    ultimately show ?thesis using inv'(6) stat l unfolding members_ok_def b by (auto simp: image_frame_iff split: if_splits intro!: imageI)
  qed
  moreover have "locks_ok u (set fs)"
    using inv'(7) stat(2) same_dataD(3) [OF same_data_links(3) [where m = "pfns s"]]
    by (auto simp: locks_ok_def f b ok pfn_free_def pfn_held_def pte_free_def on_cells_def)
  moreover have "maps_ok u (set fs)" using maps unfolding u_def [symmetric] by (simp add: maps_ok_def)
  moreover have "users_ok u" using inv'(9) users_okD by (intro users_ok_change [OF inv'(9)]) (simp_all add: f)
  moreover have "frames_ok u" "slots_ok u" using inv' by (simp_all add: frames_ok_def slots_ok_def f b st)
  moreover have "book_ok (entries u) (frames u) (set fs) (book_of u)"
    unfolding b by (rule book_hand [OF inv'(2)]) simp
  ultimately show "sys_inv (batch_removed l ?xs k s) ?C (set fs)"
    using inv'(3) pg unfolding u_def [symmetric] by (simp add: sys_inv_def)
qed


text \<open>
  Fails on an empty standby list only, and then changes nothing; otherwise up to a quarter of the cache
  is filled and no page changes its content.
\<close>

lemma move_batch_run:
  assumes inv: "sys_inv s C {}" and t: "t < user_count s" and empty: "free_page_count (users s t) = 0"
  shows "\<exists>u C'. (move_batch_from_standby_to_cache t s = Inr (False, u) \<and> C standby_list = [] \<and>
        (\<exists>ev sp. u = s\<lparr>spin := sp, events := ev\<rparr>)) \<or>
     (move_batch_from_standby_to_cache t s = Inr (True, u) \<and> sys_inv u C' {} \<and> managed s u \<and>
        free_page_count (users u t) \<noteq> 0)"
proof -
  let ?l = standby_list let ?xs = "C ?l" let ?cap = "ucast (FREE_PAGE_CACHE_SIZE div 4) :: u64"
  note inv' = sys_invD [OF inv]
  have core: "?l \<in> core_lists s" by simp
  have cap: "unat ?cap = 16" by (simp add: FREE_PAGE_CACHE_SIZE_def)
  from remove_batch_from_list_head_run [OF core_wf [OF inv'(5) core] core_free [OF inv'(5) core]
      locks_apart [OF inv core] _ core_short [OF inv'(5) core], of ?cap]
  obtain m where m: "(?xs = [] \<and> remove_batch_from_list_head ?l ?cap s = Inr ((0, NullPfn), s\<lparr>spin := m\<rparr>)) \<or>
     (\<exists>k. ?xs \<noteq> [] \<and> 0 < k \<and> k \<le> length ?xs \<and> k \<le> 16 \<and> remove_batch_from_list_head ?l ?cap s =
          Inr ((of_nat k, hd ?xs), (batch_removed ?l ?xs k s)\<lparr>spin := m\<rparr>))"
    unfolding cap by auto
  show ?thesis
  proof (cases "?xs = []")
    case True
    then have run: "remove_batch_from_list_head ?l ?cap s = Inr ((0, NullPfn), s\<lparr>spin := m\<rparr>)" using m by simp
    obtain ev where "signal_event_if_list_is_about_to_run_low ?l initiate_writing_event WRITING_THREAD_ID
        LOW_PAGE_THRESHOLD (s\<lparr>spin := m\<rparr>) = Inr ((), s\<lparr>spin := m, events := ev\<rparr>)" using signal_run by blast
    then have "move_batch_from_standby_to_cache t s = Inr (False, s\<lparr>spin := m, events := ev\<rparr>)"
      using run by (simp add: move_batch_from_standby_to_cache_def prog_simps)
    then show ?thesis using True by blast
  next
    case False
    then obtain k where k: "0 < k" "k \<le> length ?xs" "k \<le> 16"
      and run: "remove_batch_from_list_head ?l ?cap s = Inr ((of_nat k, hd ?xs), (batch_removed ?l ?xs k s)\<lparr>spin := m\<rparr>)"
      using m by auto
    let ?b = "batch_removed ?l ?xs k s" let ?C = "C(?l := drop k ?xs)"
    have "\<forall>p \<in> set (take k ?xs). frame_page p" using core_frame [OF inv'(5) core] by (auto dest: in_set_takeD)
    then obtain fs where fs: "take k ?xs = map FramePfn fs" using frame_list by blast
    have len: "length fs = k" using fs k by (metis length_map length_take min_absorb2)
    have first: "hd ?xs = FramePfn (hd fs)" using fs k(1) len by (metis hd_map hd_take length_greater_0_conv)
    note removed = batch_removed_sys [OF inv _ k(2) fs, simplified]
    obtain ev where ev: "signal_event_if_list_is_about_to_run_low ?l initiate_writing_event WRITING_THREAD_ID
        LOW_PAGE_THRESHOLD (?b\<lparr>spin := m\<rparr>) = Inr ((), ?b\<lparr>spin := m, events := ev\<rparr>)" using signal_run by blast
    let ?v = "?b\<lparr>spin := m, events := ev\<rparr>"
    have zero: "with_count t 0 ?v = ?v" using empty
      by (auto simp: with_count_def batch_removed_def Let_def fun_eq_iff intro!: machine.equality)
    have "\<exists>u. take_from_owners (length fs) t 0 (hd ?xs) ?v = Inr ((), u) \<and>
        sys_inv (with_count t (0 + length fs) u) ?C {} \<and> managed ?v u \<and> spin u = spin ?v \<and>
        free_page_count (users u t) = free_page_count (users ?v t)"
    proof (rule take_from_owners_run)
      show "sys_inv (with_count t 0 ?v) ?C (set fs)" using removed(1) unfolding zero by simp
      show "maps_ok ?v {}" using removed(3) by (simp add: maps_ok_def page_states_def)
      show "t < user_count ?v" using t by (simp add: batch_removed_def Let_def)
    qed (use removed first len k in simp_all)
    then obtain u where u: "take_from_owners k t 0 (hd ?xs) ?v = Inr ((), u)"
      "sys_inv (with_count t k u) ?C {}" "managed ?v u" "free_page_count (users u t) = 0"
      using len empty by (auto simp: batch_removed_def Let_def)
    have k64: "k \<le> 64" using k by simp
    note w = batch_count_words [OF k(1) k64]
    have "move_batch_from_standby_to_cache t s = Inr (True, with_count t k u)"
      using run ev u w by (simp add: move_batch_from_standby_to_cache_def prog_simps Let_def with_count_def)
    moreover have "managed s (with_count t k u)"
    proof (rule managed_trans)
      show "managed s ?v" using removed(2) by (intro managed_same) (simp_all add: batch_removed_def Let_def)
      show "managed ?v (with_count t k u)" using u(3) by (simp add: managed_def with_count_def)
    qed
    moreover have "free_page_count (users (with_count t k u) t) \<noteq> 0" using w(5) by (simp add: with_count_def)
    ultimately show ?thesis using u(2) by blast
  qed
qed



section \<open>A page in hand\<close>

text \<open>\<open>in_hand s u C f\<close>: frame \<open>f\<close> is free, locked and on no list in \<open>u\<close>, which the manager reached from \<open>s\<close>.\<close>

definition in_hand :: "nat \<Rightarrow> machine \<Rightarrow> machine \<Rightarrow> (list_id \<Rightarrow> pfn_ptr list) \<Rightarrow> u64 \<Rightarrow> bool" where
  "in_hand t s u C f \<longleftrightarrow> sys_inv u C {f} \<and> f \<in> frames u \<and> fstatus (book_of u) f = PFN_FREE \<and> managed s u \<and>
     unat (free_page_count (users u t)) < 64"

lemma in_hand_trans: "managed s s' \<Longrightarrow> in_hand t s' u C f \<Longrightarrow> in_hand t s u C f"
  by (auto simp: in_hand_def intro: managed_trans)

lemma acquire_from_cache:
  assumes inv: "sys_inv s C {}" and t: "t < user_count s" and ne: "free_page_count (users s t) \<noteq> 0"
  shows "\<exists>f u. acquire_free_page t s = Inr (Some (FramePfn f), u) \<and> in_hand t s u C f \<and> spin u = spin s \<and>
     paging_of u = paging_of s"
proof -
  let ?n = "free_page_count (users s t)"
  from hand_out [OF inv t ne] obtain f where f: "free_page_cache (users s t) (unat (?n - 1)) = FramePfn f"
    "f \<in> frames s" "fstatus (book_of s) f = PFN_FREE"
    "sys_inv ((pop_cache t s)\<lparr>pfns := on_cell (FramePfn f) locked_pfn (pfns s)\<rparr>) C {f}" by blast
  let ?u = "(pop_cache t s)\<lparr>pfns := on_cell (FramePfn f) locked_pfn (pfns s)\<rparr>"
  have n: "unat ?n \<le> 64" using users_okD(2) [OF sys_invD(9) [OF inv] t] .
  then have less: "unat (?n - 1) < 64" using unat_pred16 [OF ne] by simp
  have "pfn_ok s (FramePfn f)" "pfn_free s (FramePfn f)"
    using frame_facts [OF inv f(2)] by simp_all
  then have lock: "lock_pfn (FramePfn f) (pop_cache t s) = Inr ((), ?u)"
    using lock_pfn_run [of "pop_cache t s" "FramePfn f"] by (simp add: pfn_free_def)
  have dec: "on_user t (free_page_count_update (\<lambda>_. ?n - 1)) s = Inr ((), pop_cache t s)"
    by (simp add: prog_simps pop_cache_def)
  have "acquire_free_page t s = Inr (Some (FramePfn f), ?u)"
    using ne less f(1) lock dec
    by (simp add: acquire_free_page_def prog_simps FREE_PAGE_CACHE_SIZE_def del: on_parts_run)
  moreover have "paging_of ?u = paging_of s" by (simp add: pop_cache_def paging_of_def page_states_def book_of_def)
  moreover from this have "managed s ?u" by (intro managed_same) (simp_all add: pop_cache_def)
  moreover have "book_of ?u = book_of s" "frames ?u = frames s" "spin ?u = spin s"
    "unat (free_page_count (users ?u t)) < 64" using less by (simp_all add: pop_cache_def)
  ultimately show ?thesis using f by (intro exI [of _ f] exI [of _ ?u]) (simp add: in_hand_def)
qed

lemma sys_free_lists: "sys_inv s C {} \<Longrightarrow> wf_free_lists s (\<lambda>i. C (free_list i))"
proof -
  assume inv: "sys_inv s C {}"
  note ok = sys_invD(5) [OF inv]
  have "wf_list s (free_list i) (C (free_list i))" "unlocked_pfns s (set (C (free_list i)))"
    "length (C (free_list i)) < 2 ^ 64" if "i < unat (number_of_lists (free_lists s))" for i
    using core_wf [OF ok free_list_core [OF that]] locks_apart [OF inv free_list_core [OF that]]
      core_short [OF ok free_list_core [OF that]] by (simp_all add: unlocked_pfns_def)
  then show ?thesis using ok by (auto simp: wf_free_lists_def lists_ok_def word_gt_0 unat_gt_0)
qed

lemma acquire_after_refill:
  "free_page_count (users s t) = 0 \<Longrightarrow> try_get_free_pages t s = Inr (True, u) \<Longrightarrow>
   free_page_count (users u t) \<noteq> 0 \<Longrightarrow> acquire_free_page t s = acquire_free_page t u"
  by (simp add: acquire_free_page_def bind_def gets_def return_def)

lemma acquire_free_page_run:
  assumes inv: "sys_inv s C {}" and t: "t < user_count s"
  shows "(\<exists>sp. acquire_free_page t s = Inr (None, s\<lparr>spin := sp\<rparr>) \<and> free_page_count (users s t) = 0) \<or>
     (\<exists>f u C'. acquire_free_page t s = Inr (Some (FramePfn f), u) \<and> in_hand t s u C' f)"
proof (cases "free_page_count (users s t) = 0")
  case False
  then show ?thesis using acquire_from_cache [OF inv t] by blast
next
  case True
  from try_get_free_pages_run [OF sys_free_lists [OF inv], of t]
  obtain m where m: "try_get_free_pages t s = Inr (False, s\<lparr>spin := m\<rparr>) \<or>
     (\<exists>i < unat (number_of_lists (free_lists s)). C (free_list i) \<noteq> [] \<and> try_get_free_pages t s =
        Inr (True, (refilled (free_list i) t (C (free_list i)) (min (length (C (free_list i))) 64) s)\<lparr>spin := m\<rparr>))"
    by blast
  show ?thesis
  proof (cases "try_get_free_pages t s = Inr (False, s\<lparr>spin := m\<rparr>)")
    case stuck: True
    have "acquire_free_page t s = Inr (None, s\<lparr>spin := m\<rparr>)"
      using True stuck by (simp add: acquire_free_page_def prog_simps)
    then show ?thesis using True by blast
  next
    case False
    then obtain i where i: "i < unat (number_of_lists (free_lists s))" "C (free_list i) \<noteq> []"
      and get: "try_get_free_pages t s =
        Inr (True, (refilled (free_list i) t (C (free_list i)) (min (length (C (free_list i))) 64) s)\<lparr>spin := m\<rparr>)"
      using m by blast
    let ?k = "min (length (C (free_list i))) 64"
    let ?r = "refilled (free_list i) t (C (free_list i)) ?k s"
    have k: "?k \<le> length (C (free_list i))" "?k \<le> 64" "0 < ?k" using i(2) by simp_all
    note r = refilled_sys [OF inv t True i(1) k(1,2)]
    have inv': "sys_inv (?r\<lparr>spin := m\<rparr>) (C(free_list i := drop ?k (C (free_list i)))) {}" using r(1) by simp
    have t': "t < user_count (?r\<lparr>spin := m\<rparr>)" using t by (simp add: refilled_def Let_def)
    have cnt: "free_page_count (users (?r\<lparr>spin := m\<rparr>) t) = of_nat ?k" by (simp add: refilled_def Let_def)
    have ne: "free_page_count (users (?r\<lparr>spin := m\<rparr>) t) \<noteq> 0"
      unfolding cnt using batch_count_words(5) [OF k(3,2)] .
    obtain f u where f: "acquire_free_page t (?r\<lparr>spin := m\<rparr>) = Inr (Some (FramePfn f), u)"
      "in_hand t (?r\<lparr>spin := m\<rparr>) u (C(free_list i := drop ?k (C (free_list i)))) f"
      using acquire_from_cache [OF inv' t' ne] by blast
    have "acquire_free_page t s = acquire_free_page t (?r\<lparr>spin := m\<rparr>)"
      using True get ne by (rule acquire_after_refill)
    moreover have "managed s (?r\<lparr>spin := m\<rparr>)"
      using r(2) by (intro managed_same) (simp_all add: refilled_def Let_def)
    ultimately show ?thesis using f in_hand_trans by metis
  qed
qed

lemma obtain_free_page_run:
  assumes inv: "sys_inv s C {}" and t: "t < user_count s"
  shows "(\<exists>u C'. obtain_free_page 2 t s = Inr (None, u) \<and> sys_inv u C' {} \<and> managed s u \<and>
        free_page_count (users s t) = 0 \<and> C standby_list = []) \<or>
     (\<exists>f u C'. obtain_free_page 2 t s = Inr (Some (FramePfn f), u) \<and> in_hand t s u C' f)"
proof -
  consider (some) f u C' where "acquire_free_page t s = Inr (Some (FramePfn f), u)" "in_hand t s u C' f"
    | (none) sp where "acquire_free_page t s = Inr (None, s\<lparr>spin := sp\<rparr>)" "free_page_count (users s t) = 0"
    using acquire_free_page_run [OF inv t] by blast
  then show ?thesis
  proof cases
    case some
    then show ?thesis by (auto simp: numeral_2_eq_2 prog_simps)
  next
    case none
    let ?s = "s\<lparr>spin := sp\<rparr>"
    have s': "sys_inv ?s C {}" "t < user_count ?s" "free_page_count (users ?s t) = 0" using inv t none by simp_all
    have same: "managed s ?s" by (intro managed_same) simp_all
    consider (moved) u C' where "move_batch_from_standby_to_cache t ?s = Inr (True, u)" "sys_inv u C' {}"
        "managed ?s u" "free_page_count (users u t) \<noteq> 0"
      | (dry) ev sq where "move_batch_from_standby_to_cache t ?s = Inr (False, ?s\<lparr>spin := sq, events := ev\<rparr>)"
        "C standby_list = []"
      using move_batch_run [OF s'] by blast
    then show ?thesis
    proof cases
      case moved
      have tu: "t < user_count u" using managedD(4) [OF moved(3)] t by simp
      obtain f v where "acquire_free_page t u = Inr (Some (FramePfn f), v)" "in_hand t u v C' f"
        using acquire_from_cache [OF moved(2) tu moved(4)] by blast
      moreover from this have "in_hand t s v C' f" using in_hand_trans managed_trans [OF same moved(3)] by blast
      ultimately show ?thesis using none moved(1) by (auto simp: numeral_2_eq_2 prog_simps)
    next
      case dry
      have "obtain_free_page 2 t s = Inr (None, ?s\<lparr>spin := sq, events := ev(standby_pages_ready_event := False)\<rparr>)"
        using none dry by (simp add: numeral_2_eq_2 prog_simps)
      moreover have "managed s (?s\<lparr>spin := sq, events := ev(standby_pages_ready_event := False)\<rparr>)"
        by (intro managed_same) simp_all
      moreover have "sys_inv (?s\<lparr>spin := sq, events := ev(standby_pages_ready_event := False)\<rparr>) C {}"
        using inv by simp
      ultimately show ?thesis using none dry by blast
    qed
  qed
qed

end
