(* ===== verification/Batch.thy ===== *)
theory Batch
  imports Standby_Supply Writer
begin

text \<open>
  What the trimmer and the writer share: a temporary list of locked pages that no other list holds, and
  its publication, which appends it to the modified or the standby list and unlocks the pages.
\<close>

section \<open>Locks\<close>

lemma locks_okD:
  assumes "locks_ok s K"
  shows "f \<in> K \<Longrightarrow> pfn_ok s (FramePfn f)" "f \<in> K \<Longrightarrow> lock_of (pfns s (FramePfn f)) = 1"
    "pfn_ok s p \<Longrightarrow> p \<notin> FramePfn ` K \<Longrightarrow> lock_of (pfns s p) = 0"
    "i < entries s \<Longrightarrow> pte_lock (ptes s i) = 0" "K \<subseteq> frames s"
proof -
  show sub: "K \<subseteq> frames s" using assms by (simp add: locks_ok_def)
  then show ok: "f \<in> K \<Longrightarrow> pfn_ok s (FramePfn f)" by (auto simp: pfn_ok_def frames_def)
  show "f \<in> K \<Longrightarrow> lock_of (pfns s (FramePfn f)) = 1"
    using assms ok by (auto simp: locks_ok_def pfn_held_def)
  show "pfn_ok s p \<Longrightarrow> p \<notin> FramePfn ` K \<Longrightarrow> lock_of (pfns s p) = 0" "i < entries s \<Longrightarrow> pte_lock (ptes s i) = 0"
    using assms by (auto simp: locks_ok_def pfn_free_def pte_free_def)
qed

lemma locks_okI:
  assumes "K \<subseteq> frames s" and "\<And>f. f \<in> K \<Longrightarrow> lock_of (pfns s (FramePfn f)) = 1"
    and "\<And>p. pfn_ok s p \<Longrightarrow> p \<notin> FramePfn ` K \<Longrightarrow> lock_of (pfns s p) = 0"
    and "\<And>i. i < entries s \<Longrightarrow> pte_lock (ptes s i) = 0"
  shows "locks_ok s K"
  using assms by (auto simp: locks_ok_def pfn_held_def pfn_free_def pte_free_def)


section \<open>Changes of links\<close>

lemma lists_ok_untouched:
  assumes ok: "lists_ok s C" and same: "same_lists s t"
    and links: "\<And>l p. l \<in> core_lists s \<Longrightarrow> p \<in> set (head (lists s l) # C l) \<Longrightarrow>
        flink (pfns t p) = flink (pfns s p) \<and> blink (pfns t p) = blink (pfns s p)"
    and size: "list_size (lists t modified_list) = list_size (lists s modified_list)"
      "list_size (lists t standby_list) = list_size (lists s standby_list)"
  shows "lists_ok t C"
proof -
  have "wf_list t modified_list (C modified_list)"
  proof -
    have wf: "wf_list s modified_list (C modified_list)" using core_wf [OF ok] by simp
    have "dll (pfns t) (head (lists s modified_list)) (C modified_list) =
        dll (pfns s) (head (lists s modified_list)) (C modified_list)"
      by (rule dll_cong) (rule links, simp_all)
    then show ?thesis using wf same by (auto simp: wf_list_def same_lists_def)
  qed
  moreover have "flink (pfns t p) = flink (pfns s p) \<and> blink (pfns t p) = blink (pfns s p)"
    if "p \<in> set (head (lists s l) # C l)" "l \<in> core_lists s" for l p
    using links that by blast
  moreover have "C(modified_list := C modified_list) = C" by simp
  moreover have "wf_list t l (C l) \<and> list_free t l \<and> (\<forall>p \<in> set (C l). frame_page p) \<and>
      (\<exists>k < heads t. head (lists t l) = HeadPfn k)" if l: "l \<in> core_lists s" for l
  proof -
    have wf: "wf_list s l (C l)" using core_wf [OF ok l] .
    have "dll (pfns t) (head (lists s l)) (C l) = dll (pfns s) (head (lists s l)) (C l)"
      by (rule dll_cong) (rule links [OF l])
    then show ?thesis
      using wf same l core_frame [OF ok l] core_head [OF ok l] by (auto simp: wf_list_def same_lists_def)
  qed
  moreover have "inj_on (\<lambda>l. head (lists t l)) (core_lists s)"
    using ok same by (auto simp: lists_ok_def inj_on_def same_lists_def)
  moreover have "core_lists t = core_lists s" using same by (simp add: same_lists_def core_lists_def)
  ultimately show ?thesis
    using ok same size by (simp add: lists_ok_def same_lists_def)
qed

text \<open>Only links change: everything but the lists is as before.\<close>

lemma links_only_sys:
  assumes inv: "sys_inv s C K" and m: "same_data (pfns s) m" and lists: "lists_ok (s\<lparr>pfns := m\<rparr>) C"
  shows "sys_inv (s\<lparr>pfns := m\<rparr>) C K" and "book_of (s\<lparr>pfns := m\<rparr>) = book_of s"
    and "paging_of (s\<lparr>pfns := m\<rparr>) = paging_of s"
proof -
  let ?t = "s\<lparr>pfns := m\<rparr>"
  note inv' = sys_invD [OF inv]
  show b: "book_of ?t = book_of s" by (rule book_of_same_data [OF m])
  have st: "page_states ?t = page_states s" unfolding page_states_def b by simp
  show pg: "paging_of ?t = paging_of s" unfolding paging_of_def st by simp
  have "members_ok ?t C K = members_ok s C K" by (intro members_cong) (simp_all add: b)
  moreover have "pfn_free ?t p = pfn_free s p" "pfn_held ?t p = pfn_held s p" for p
    using same_dataD(3) [OF m] by (simp_all add: pfn_free_def pfn_held_def)
  then have "locks_ok ?t K" using inv'(7) by (simp add: locks_ok_def pte_free_def)
  ultimately show "sys_inv ?t C K" using inv' lists
    by (simp add: sys_inv_def b st pg frames_ok_def slots_ok_def maps_ok_def users_ok_def kernel_va_def)
qed


section \<open>Temporary lists\<close>

definition temp_ok :: "machine \<Rightarrow> list_id \<Rightarrow> u64 list \<Rightarrow> bool" where
  "temp_ok s l fs \<longleftrightarrow> wf_list s l (map FramePfn fs) \<and> l \<notin> core_lists s \<and>
     (\<exists>k < heads s. head (lists s l) = HeadPfn k) \<and> head (lists s l) \<notin> (\<lambda>c. head (lists s c)) ` core_lists s"

lemma held_unlisted:
  assumes "sys_inv s C K" and "f \<in> K" and "l \<in> core_lists s"
  shows "FramePfn f \<notin> set (C l)"
proof -
  have "FramePfn f \<notin> pool s C" "FramePfn f \<notin> set (C modified_list)" "FramePfn f \<notin> set (C standby_list)"
    using sys_invD(6) [OF assms(1)] assms(2) by (auto simp: members_ok_def)
  then show ?thesis using assms(3) by (auto simp: core_lists_def pool_def listed_def)
qed

text \<open>Locked pages and the heads of temporary lists are apart from every other list.\<close>

lemma temp_apart:
  assumes inv: "sys_inv s C K" and temp: "temp_ok s l fs" and l: "c \<in> core_lists s"
    and p: "p \<in> set (head (lists s c) # C c)" and f: "f \<in> K"
  shows "p \<noteq> head (lists s l)" and "p \<noteq> FramePfn f"
proof -
  note ok = sys_invD(5) [OF inv]
  obtain k where k: "head (lists s l) = HeadPfn k" using temp by (auto simp: temp_ok_def)
  obtain j where j: "head (lists s c) = HeadPfn j" using core_head [OF ok l] by blast
  show "p \<noteq> head (lists s l)"
  proof
    assume eq: "p = head (lists s l)"
    then have "p \<noteq> head (lists s c)" using temp l by (auto simp: temp_ok_def)
    then have "p \<in> set (C c)" using p by simp
    then show False using core_frame [OF ok l] eq k frame_page_no_head by metis
  qed
  show "p \<noteq> FramePfn f" using p held_unlisted [OF inv f l] j by auto
qed

lemma new_temp:
  assumes inv: "sys_inv s C K"
  shows "\<exists>t. initialize_page_list (temp_list j) s = Inr ((), t) \<and> sys_inv t C K \<and> temp_ok t (temp_list j) [] \<and>
    book_of t = book_of s \<and> paging_of t = paging_of s \<and> vm t = vm s \<and> committed t = committed s \<and>
    page_states t = page_states s \<and> pf t = pf s \<and> va_map t = va_map s \<and> ram t = ram s \<and> pte_to_trim t = pte_to_trim s"
proof -
  let ?h = "HeadPfn (heads s)"
  let ?m = "(pfns s)(?h := zero_pfn\<lparr>blink := ?h, flink := ?h\<rparr>)"
  let ?L = "(lists s)(temp_list j := \<lparr>head = ?h, list_size = 0, shared_holders = 0, held_exclusive = False\<rparr>)"
  let ?t = "s\<lparr>heads := heads s + 1, pfns := ?m, lists := ?L\<rparr>"
  note inv' = sys_invD [OF inv]
  have b: "book_of ?t = book_of s" by (simp add: book_of_def)
  have st: "page_states ?t = page_states s" unfolding page_states_def b by simp
  have pg: "paging_of ?t = paging_of s" unfolding paging_of_def st by simp
  have old: "?h \<noteq> head (lists s c)" if "c \<in> core_lists s" for c
    using core_head [OF inv'(5) that] by auto
  have core: "temp_list j \<notin> core_lists s" by (auto simp: core_lists_def)
  then have hd: "head (?L c) = head (lists s c)" "list_size (?L c) = list_size (lists s c)"
    "held_exclusive (?L c) = held_exclusive (lists s c)" "shared_holders (?L c) = shared_holders (lists s c)"
    if "c \<in> core_lists s" for c using that by auto
  have ok: "pfn_ok s p \<Longrightarrow> pfn_ok ?t p" for p by (auto simp: pfn_ok_def split: pfn_ptr.splits)
  have "lists_ok ?t C"
  proof (rule lists_ok_untouched [OF inv'(5)])
    show "same_lists s ?t"
      using hd ok core_free [OF inv'(5)] by (auto simp: same_lists_def list_free_def)
    show "flink (pfns ?t p) = flink (pfns s p) \<and> blink (pfns ?t p) = blink (pfns s p)"
      if "c \<in> core_lists s" "p \<in> set (head (lists s c) # C c)" for c p
    proof -
      have "p \<noteq> ?h" using that old [OF that(1)] core_frame [OF inv'(5) that(1), of ?h]
        by (auto simp: frame_page_def)
      then show ?thesis by simp
    qed
  qed (simp_all add: hd)
  moreover have "fstatus (book_of ?t) = fstatus (book_of s)" unfolding b ..
  then have "members_ok ?t C K = members_ok s C K" by (intro members_cong) simp_all
  moreover have "locks_ok ?t K"
  proof -
    have "pfn_ok ?t p \<Longrightarrow> p \<noteq> ?h \<Longrightarrow> pfn_ok s p" for p
      by (auto simp: pfn_ok_def less_Suc_eq split: pfn_ptr.splits)
    moreover have "lock_of (zero_pfn\<lparr>blink := ?h, flink := ?h\<rparr>) = 0"
      by (simp add: lock_of_def zero_pfn_def get_lock_def get_bits_zero)
    ultimately show ?thesis using locks_okD [OF inv'(7)]
      by (intro locks_okI) (auto split: if_splits)
  qed
  moreover have "book_ok (entries ?t) (frames ?t) K (book_of ?t)" unfolding b using inv'(2) by simp
  moreover have "paging_inv (paging_of ?t)" unfolding pg by (rule inv'(3))
  moreover have "frames_ok ?t" "users_ok ?t" using inv'(1,9) by (simp_all add: frames_ok_def users_ok_def kernel_va_def)
  moreover have "slots_ok ?t" "maps_ok ?t K" using inv'(4,8) unfolding slots_ok_def maps_ok_def st by simp_all
  ultimately have "sys_inv ?t C K" using inv'(6) unfolding sys_inv_def by blast
  moreover have "temp_ok ?t (temp_list j) []"
    using old core hd by (auto simp: temp_ok_def wf_list_def dll_Nil pfn_ok_def core_lists_def)
  ultimately show ?thesis using b pg st by (intro exI [of _ ?t]) (simp add: initialize_page_list_run)
qed

lemma temp_insert:
  assumes inv: "sys_inv s C K" and temp: "temp_ok s l fs" and fs: "set fs \<subseteq> K" and f: "f \<in> K" "f \<notin> set fs"
  defines "t \<equiv> s\<lparr>pfns := append_page (head (lists s l)) (FramePfn f) (pfns s)\<rparr>"
  shows "insert_to_list_tail l (FramePfn f) s = Inr ((), t)" and "sys_inv t C K" and "temp_ok t l (fs @ [f])"
    and "book_of t = book_of s" and "paging_of t = paging_of s"
proof -
  let ?h = "head (lists s l)" and ?p = "FramePfn f"
  note inv' = sys_invD [OF inv]
  have wf: "wf_list s l (map FramePfn fs)" using temp by (simp add: temp_ok_def)
  obtain k where k: "?h = HeadPfn k" using temp by (auto simp: temp_ok_def)
  have p: "pfn_ok s ?p" using inv'(7) f(1) by (auto simp: locks_ok_def pfn_ok_def frames_def)
  have new: "?p \<notin> set (?h # map FramePfn fs)" using f(2) k by auto
  show run: "insert_to_list_tail l ?p s = Inr ((), t)"
    using insert_to_list_tail_run [of s l ?p] wf_list_head [OF wf] wf_list_ends(2) [OF wf] p dll_ends(2) [OF wf_list_dll [OF wf]]
    by (simp add: t_def)
  have other: "append_page ?h ?p (pfns s) q = pfns s q" if "q \<notin> set (?p # ?h # map FramePfn fs)" for q
    using append_page_other [OF wf_list_dll [OF wf] that] .
  have "lists_ok t C"
  proof (rule lists_ok_untouched [OF inv'(5)])
    show "same_lists s t" using core_free [OF inv'(5)] by (auto simp: same_lists_def list_free_def t_def)
    show "flink (pfns t q) = flink (pfns s q) \<and> blink (pfns t q) = blink (pfns s q)"
      if "c \<in> core_lists s" "q \<in> set (head (lists s c) # C c)" for c q
    proof -
      note ap = temp_apart [OF inv temp that]
      have "q \<notin> set (?p # ?h # map FramePfn fs)" using ap f(1) fs by auto
      then show ?thesis by (simp add: t_def other)
    qed
  qed (simp_all add: t_def)
  then have lists: "lists_ok (s\<lparr>pfns := append_page ?h ?p (pfns s)\<rparr>) C" by (simp add: t_def)
  note only = links_only_sys [OF inv same_data_links(2) lists]
  show "sys_inv t C K" "book_of t = book_of s" "paging_of t = paging_of s" using only by (simp_all add: t_def)
  show "temp_ok t l (fs @ [f])"
    using temp dll_append [OF wf_list_dll [OF wf] new] p
    by (auto simp: temp_ok_def wf_list_def t_def core_lists_def)
qed



section \<open>Publication\<close>

lemma unlock_batch_run:
  assumes "linked (pfns s) ps" and "distinct ps" and "\<forall>p \<in> set ps. pfn_ok s p \<and> pfn_held s p"
    and "ps \<noteq> [] \<Longrightarrow> p0 = hd ps"
  shows "unlock_batch (length ps) p0 s = Inr ((), s\<lparr>pfns := on_cells (set ps) unlocked_pfn (pfns s)\<rparr>)"
  using assms
proof (induction ps arbitrary: s p0)
  case Nil
  then show ?case by (simp add: prog_simps)
next
  case (Cons p ps)
  let ?s = "s\<lparr>pfns := on_cell p unlocked_pfn (pfns s)\<rparr>"
  have p: "pfn_ok s p" "pfn_held s p" "p0 = p" using Cons.prems by simp_all
  have nx: "unlock_batch (length ps) (flink (pfns s p)) ?s =
      Inr ((), ?s\<lparr>pfns := on_cells (set ps) unlocked_pfn (pfns ?s)\<rparr>)"
  proof (rule Cons.IH)
    show "linked (pfns ?s) ps" using Cons.prems(1) by (cases ps) simp_all
    show "ps \<noteq> [] \<Longrightarrow> flink (pfns s p) = hd ps" using Cons.prems(1) by (cases ps) auto
    show "\<forall>q \<in> set ps. pfn_ok ?s q \<and> pfn_held ?s q" using Cons.prems(2,3) by (auto simp: pfn_held_def on_cells_def)
  qed (use Cons.prems in simp_all)
  have "on_cells (set ps) unlocked_pfn (on_cell p unlocked_pfn m) = on_cells (set (p # ps)) unlocked_pfn m" for m
    using Cons.prems(2) by (subst on_cells_union) simp_all
  then show ?case using p nx by (simp add: prog_simps unlock_pfn_run)
qed

definition published :: "list_id \<Rightarrow> list_id \<Rightarrow> u64 list \<Rightarrow> machine \<Rightarrow> machine" where
  "published l k fs s = s\<lparr>
     pfns := on_cells (FramePfn ` set fs) unlocked_pfn
       (append_list (head (lists s l)) (FramePfn (hd fs)) (FramePfn (last fs)) (pfns s)),
     lists := resize l (of_nat (length fs)) (lists s)\<rparr>"

text \<open>The status of the pages a list holds.\<close>

definition home_status :: "list_id \<Rightarrow> u64" where
  "home_status l = (case l of modified_list \<Rightarrow> PFN_MODIFIED | standby_list \<Rightarrow> PFN_STANDBY | _ \<Rightarrow> PFN_FREE)"

lemma home_status [simp]:
  "home_status modified_list = PFN_MODIFIED" "home_status standby_list = PFN_STANDBY" "home_status (free_list i) = PFN_FREE"
  by (simp_all add: home_status_def)

lemma core_cases:
  assumes "l \<in> core_lists s"
  obtains "l = modified_list" | "l = standby_list" | i where "l = free_list i" and "i < unat (number_of_lists (free_lists s))"
  using assms by (auto simp: core_lists_def)

lemma listed_append:
  assumes "l \<in> core_lists s"
  shows "listed s (C(l := C l @ ps)) = listed s C \<union> (if home_status l = PFN_FREE then set ps else {})"
  using assms by (cases rule: core_cases) (auto simp: listed_def split: if_splits)

lemma publish_apart:
  assumes inv: "sys_inv s C K" and sub: "set fs \<subseteq> K" and temp: "temp_ok s k fs" and ne: "fs \<noteq> []" and core: "l \<in> core_lists s"
  shows "set (head (lists s l) # C l) \<inter> set (head (lists s k) # map FramePfn fs) = {}"
    and "unlocked_pfns s (set (head (lists s l) # C l))"
proof -
  note inv' = sys_invD [OF inv]
  obtain f0 where f0: "f0 \<in> set fs" using ne by (cases fs) auto
  show "set (head (lists s l) # C l) \<inter> set (head (lists s k) # map FramePfn fs) = {}"
    using temp_apart [OF inv temp core _ subsetD [OF sub f0]] temp_apart(2) [OF inv temp core _ subsetD [OF sub]] by auto
  have "lock_of (pfns s p) = 0" if "p \<in> set (head (lists s l) # C l)" for p
    using locks_okD(3) [OF inv'(7), of p] core_wf [OF inv'(5) core] that temp_apart(2) [OF inv temp core that]
    by (auto simp: wf_list_def)
  then show "unlocked_pfns s (set (head (lists s l) # C l))" by (simp add: unlocked_pfns_def pfn_free_def)
qed

lemma publish_sys:
  assumes inv: "sys_inv s C K" and sub: "set fs \<subseteq> K" and temp: "temp_ok s k fs" and ne: "fs \<noteq> []" and dist: "distinct fs"
    and core: "l \<in> core_lists s" and st: "\<forall>f \<in> set fs. fstatus (book_of s) f = home_status l" and maps: "maps_ok s {}"
  shows "sys_inv (published l k fs s) (C(l := C l @ map FramePfn fs)) (K - set fs)"
    and "paging_of (published l k fs s) = paging_of s"
    and "\<exists>m. insert_list_to_tail_list l k s = Inr ((), s\<lparr>pfns :=
           append_list (head (lists s l)) (FramePfn (hd fs)) (FramePfn (last fs)) (pfns s), spin := m\<rparr>)"
proof -
  let ?h = "head (lists s l)" and ?g = "head (lists s k)" and ?ps = "map FramePfn fs"
  let ?P = "append_list ?h (FramePfn (hd fs)) (FramePfn (last fs)) (pfns s)"
  let ?C = "C(l := C l @ ?ps)"
  define u where "u = published l k fs s"
  note inv' = sys_invD [OF inv]
  have wf: "wf_list s l (C l)" using core_wf [OF inv'(5) core] .
  have wft: "wf_list s k ?ps" using temp by (simp add: temp_ok_def)
  have hd: "FramePfn (hd fs) = hd ?ps" "FramePfn (last fs) = last ?ps" using ne by (simp_all add: hd_map last_map)
  obtain j where j: "?h = HeadPfn j" using core_head [OF inv'(5) core] by blast
  note disj = publish_apart(1) [OF inv sub temp ne core] and free = publish_apart(2) [OF inv sub temp ne core]
  show "\<exists>m. insert_list_to_tail_list l k s = Inr ((), s\<lparr>pfns := ?P, spin := m\<rparr>)"
    using insert_list_to_tail_list_run [OF wf core_free [OF inv'(5) core] free wft _ disj] ne by (simp add: hd)
  have u: "pfns u = on_cells (set ?ps) unlocked_pfn ?P" "lists u = resize l (of_nat (length fs)) (lists s)"
    "vm u = vm s" "pf u = pf s" "ram u = ram s" "ptes u = ptes s" "committed u = committed s" "heads u = heads s"
    "va_map u = va_map s" "free_lists u = free_lists s" "users u = users s"
    by (simp_all add: u_def published_def)
  have b: "book_of u = book_of s" "entries u = entries s" "frames u = frames s" "user_count u = user_count s"
    using same_dataD [OF same_data_links(4) [where m = "pfns s"]]
    by (simp_all add: book_of_def u entries_def frames_def user_count_def on_cells_def if_distrib cong: if_cong)
  have states: "page_states u = page_states s" unfolding page_states_def b ..
  have pg: "paging_of u = paging_of s" unfolding paging_of_def states u ..
  then show "paging_of (published l k fs s) = paging_of s" by (simp add: u_def)
  have ok: "pfn_ok u p = pfn_ok s p" for p by (simp add: pfn_ok_def u split: pfn_ptr.split)
  have fr: "f \<in> frames s \<and> unat f < 2 ^ 40" if "f \<in> set fs" for f
    using locks_okD(5) [OF inv'(7)] inv'(1) sub that by (auto simp: frames_ok_def)
  have unlisted: "FramePfn f \<notin> set (C c)" if "f \<in> set fs" "c \<in> core_lists s" for f c
    using held_unlisted [OF inv _ that(2)] sub that(1) by blast
  have "lists_ok u ?C"
  proof (rule lists_ok_rewrite [OF inv'(5) core, where X = "set ?ps"])
    show "same_lists s u" using core_free [OF inv'(5)] by (auto simp: same_lists_def list_free_def u ok)
    have "dll ?P ?h (C l @ ?ps)"
      using dll_append_list [OF wf_list_dll [OF wf] wf_list_dll [OF wft] _ disj] ne by (simp add: hd)
    then have "dll (pfns u) ?h (C l @ ?ps)" by (simp add: u)
    then show "wf_list u l (C l @ ?ps)" using wf wft by (auto simp: wf_list_def u ok)
    show "flink (pfns u p) = flink (pfns s p) \<and> blink (pfns u p) = blink (pfns s p)"
      if "p \<notin> set (?h # C l) \<union> set ?ps" for p
    proof -
      have "FramePfn (hd fs) \<in> set ?ps" "FramePfn (last fs) \<in> set ?ps" using ne by auto
      then have "p \<notin> set (FramePfn (hd fs) # FramePfn (last fs) # ?h # C l)" using that by auto
      from append_list_other [OF wf_list_dll [OF wf] this] show ?thesis by (simp add: u on_cells_def)
    qed
    show "frame_page p \<and> (c \<in> core_lists s \<longrightarrow> c \<noteq> l \<longrightarrow> p \<notin> set (C c))" if "p \<in> set ?ps" for p c
      using that fr unlisted by (auto simp: frame_page_def)
    show "list_size (lists u modified_list) = of_nat (length ((C(l := C l @ ?ps)) modified_list))"
      "list_size (lists u standby_list) = of_nat (length ((C(l := C l @ ?ps)) standby_list))"
      using inv'(5) by (auto simp: lists_ok_def u)
  qed auto
  moreover have "members_ok u ?C (K - set fs)"
  proof -
    have c: "cache u = cache s" by (simp add: cache_def u fun_eq_iff)
    have "core_lists u = core_lists s" by (simp add: core_lists_def u)
    then have list: "listed u ?C = listed s C \<union> (if home_status l = PFN_FREE then set ?ps else {})"
      using listed_append [of l u C ?ps] core by (simp add: listed_def u)
    then have pool: "pool u ?C = pool s C \<union> (if home_status l = PFN_FREE then set ?ps else {})"
      by (auto simp: pool_def cached_by_def c b)
    have "FramePfn f \<notin> pool s C" if "f \<in> set fs" for f
      using inv'(6) sub that by (auto simp: members_ok_def)
    then have "set ?ps \<inter> cached_by s t = {}" if "t < user_count s" for t
      using that by (auto simp: pool_def)
    then have "caches_ok u ?C"
      using inv'(6) by (auto simp: members_ok_def caches_ok_def cached_by_def c b list split: if_splits)
    moreover define F where "F K x = FramePfn ` {f \<in> frames s - K. fstatus (book_of s) f = x}" for K x
    have "F (K - set fs) x = F K x \<union> (if x = home_status l then set ?ps else {})" for x
      using st fr by (auto simp: F_def)
    moreover have "set (C modified_list) = F K PFN_MODIFIED" "set (C standby_list) = F K PFN_STANDBY"
      "pool s C = F K PFN_FREE" using inv'(6) by (simp_all add: members_ok_def F_def)
    ultimately show ?thesis
      unfolding members_ok_def b pool F_def [symmetric] by - (rule core_cases [OF core], simp_all)
  qed
  moreover have "locks_ok u (K - set fs)"
  proof (rule locks_okI)
    note lock = same_dataD(3) [OF same_data_links(4) [where m = "pfns s"]]
    show "lock_of (pfns u p) = 0" if "pfn_ok u p" "p \<notin> FramePfn ` (K - set fs)" for p
      using that locks_okD(3) [OF inv'(7), of p] lock by (auto simp: u ok on_cells_def)
    show "lock_of (pfns u (FramePfn f)) = 1" if "f \<in> K - set fs" for f
      using that locks_okD(2) [OF inv'(7), of f] lock by (auto simp: u on_cells_def)
    show "K - set fs \<subseteq> frames u" using locks_okD(5) [OF inv'(7)] by (auto simp: b)
  qed (use locks_okD(4) [OF inv'(7)] in \<open>simp_all add: u b\<close>)
  moreover have "maps_ok u (K - set fs)" using maps by (simp add: maps_ok_def states u b)
  moreover have "users_ok u" using inv'(9) users_okD by (intro users_ok_change [OF inv'(9)]) (simp_all add: u)
  moreover have "frames_ok u" "slots_ok u" using inv' by (simp_all add: frames_ok_def slots_ok_def u b states)
  moreover have "book_ok (entries u) (frames u) (K - set fs) (book_of u)"
    unfolding b by (rule book_hand [OF inv'(2)]) (use st in \<open>auto simp: home_status_def split: list_id.splits\<close>)
  ultimately show "sys_inv (published l k fs s) ?C (K - set fs)"
    using inv'(3) pg unfolding u_def [symmetric] by (simp add: sys_inv_def)
qed

text \<open>
  The steps that publish a batch, as the trimmer and the writer run them: the temporary head still
  reaches the pages after they were appended.
\<close>

lemma publish_run:
  assumes inv: "sys_inv s C (set fs)" and temp: "temp_ok s k fs" and ne: "fs \<noteq> []" and dist: "distinct fs"
    and core: "l \<in> core_lists s" and st: "\<forall>f \<in> set fs. fstatus (book_of s) f = home_status l"
    and maps: "maps_ok s {}"
  defines "P \<equiv> append_list (head (lists s l)) (FramePfn (hd fs)) (FramePfn (last fs)) (pfns s)"
  shows "\<exists>m. insert_list_to_tail_list l k s = Inr ((), s\<lparr>pfns := P, spin := m\<rparr>) \<and>
     unlock_batch (length fs) (FramePfn (hd fs)) (s\<lparr>pfns := P, spin := m, lists := resize l (of_nat (length fs)) (lists s)\<rparr>) =
       Inr ((), (published l k fs s)\<lparr>spin := m\<rparr>)"
    and "flink (P (head (lists s k))) = FramePfn (hd fs)" and "pfn_ok s (head (lists s k))"
proof -
  let ?h = "head (lists s l)" and ?g = "head (lists s k)" and ?ps = "map FramePfn fs"
  note inv' = sys_invD [OF inv]
  have wf: "wf_list s l (C l)" using core_wf [OF inv'(5) core] .
  have wft: "wf_list s k ?ps" using temp by (simp add: temp_ok_def)
  have hd: "FramePfn (hd fs) = hd ?ps" "FramePfn (last fs) = last ?ps" using ne by (simp_all add: hd_map last_map)
  note disj = publish_apart(1) [OF inv subset_refl temp ne core]
  show "pfn_ok s ?g" using wf_list_head [OF wft] .
  obtain j where j: "?g = HeadPfn j" using temp by (auto simp: temp_ok_def)
  have "?g \<notin> set (FramePfn (hd fs) # FramePfn (last fs) # ?h # C l)" using disj j by auto
  then have "P ?g = pfns s ?g" unfolding P_def by (rule append_list_other [OF wf_list_dll [OF wf]])
  moreover have "flink (pfns s ?g) = hd ?ps"
    using wf_list_dll [OF wft] ne by (cases fs) (auto simp: dll_def)
  ultimately show "flink (P ?g) = FramePfn (hd fs)" using hd by simp
  have d: "dll P ?h (C l @ ?ps)"
    using dll_append_list [OF wf_list_dll [OF wf] wf_list_dll [OF wft] _ disj] ne by (simp add: P_def hd)
  then have "linked P ((?h # C l) @ ?ps)" using dll_split [of P ?h "C l @ ?ps" "[]"] by simp
  then have linked: "linked P ?ps" using linked_append [of "?h # C l" ?ps P] ne by simp
  obtain m where m: "insert_list_to_tail_list l k s = Inr ((), s\<lparr>pfns := P, spin := m\<rparr>)"
    using publish_sys(3) [OF inv subset_refl temp ne dist core st maps] by (auto simp: P_def)
  let ?s = "s\<lparr>pfns := P, spin := m, lists := resize l (of_nat (length fs)) (lists s)\<rparr>"
  have "unlock_batch (length ?ps) (FramePfn (hd fs)) ?s = Inr ((), ?s\<lparr>pfns := on_cells (set ?ps) unlocked_pfn (pfns ?s)\<rparr>)"
  proof (rule unlock_batch_run)
    have "lock_of (P p) = lock_of (pfns s p)" for p
      unfolding P_def by (rule same_dataD(3)) simp
    then show "\<forall>p \<in> set ?ps. pfn_ok ?s p \<and> pfn_held ?s p"
      using locks_okD(1,2) [OF inv'(7)] by (auto simp: pfn_held_def)
  qed (use linked dist hd in \<open>auto simp: distinct_map inj_on_def\<close>)
  moreover have "?s\<lparr>pfns := on_cells (set ?ps) unlocked_pfn (pfns ?s)\<rparr> = (published l k fs s)\<lparr>spin := m\<rparr>"
    by (simp add: published_def P_def)
  ultimately show "\<exists>m. insert_list_to_tail_list l k s = Inr ((), s\<lparr>pfns := P, spin := m\<rparr>) \<and>
     unlock_batch (length fs) (FramePfn (hd fs)) (s\<lparr>pfns := P, spin := m, lists := resize l (of_nat (length fs)) (lists s)\<rparr>) =
       Inr ((), (published l k fs s)\<lparr>spin := m\<rparr>)"
    using m by auto
qed


section \<open>A page of the batch changes its status\<close>

text \<open>
  The status and the slot of a page in hand are written; the entry is in transition, so the page
  changes its state at most between modified, mid-write and standby.
\<close>

lemma held_status_book:
  assumes inv: "sys_inv s C K" and f: "f \<in> K" and i: "i < entries s" and view: "view (book_of s) i = TransitionView f"
    and g: "\<And>q. PTE (g q) = PTE q" "status_of (g (pfns s (FramePfn f))) = st" "slot_of (g (pfns s (FramePfn f))) = sl"
    and st: "st \<in> {PFN_MODIFIED, PFN_MID_WRITE, PFN_STANDBY}"
  defines "u \<equiv> s\<lparr>pfns := on_cell (FramePfn f) g (pfns s)\<rparr>"
  shows "book_of u = book_status f st sl (book_of s)" and "book_ok (entries u) (frames u) K (book_of u)"
    and "page_states u = (page_states s)(i :=
       if st = PFN_STANDBY then Standby f sl else if st = PFN_MID_WRITE then Writing f else Modified f)"
proof -
  note inv' = sys_invD [OF inv]
  show b: "book_of u = book_status f st sl (book_of s)"
    using g by (auto simp: book_of_def u_def book_status_def on_cells_def fun_eq_iff)
  have fields: "entries u = entries s" "frames u = frames s" by (simp_all add: u_def)
  note bs = book_status [OF inv'(2) i view st]
  show "page_states u = (page_states s)(i :=
       if st = PFN_STANDBY then Standby f sl else if st = PFN_MID_WRITE then Writing f else Modified f)"
    using bs(2) [of K] by (simp add: page_states_def b fields)
  show "book_ok (entries u) (frames u) K (book_of u)" unfolding b fields by (rule bs(1)) auto
qed

lemma held_status_sys:
  assumes inv: "sys_inv s C K" and f: "f \<in> K" and i: "i < entries s" and view: "view (book_of s) i = TransitionView f"
    and g: "\<And>q. PTE (g q) = PTE q" "status_of (g (pfns s (FramePfn f))) = st" "slot_of (g (pfns s (FramePfn f))) = sl"
      "keeps_links g" "\<And>q. lock_of (g q) = lock_of q"
    and st: "st \<in> {PFN_MODIFIED, PFN_MID_WRITE, PFN_STANDBY}"
  defines "u \<equiv> s\<lparr>pfns := on_cell (FramePfn f) g (pfns s)\<rparr>"
  assumes new: "paging_inv (paging_of u)" "slots_ok u"
  shows "sys_inv u C K"
proof -
  note inv' = sys_invD [OF inv]
  note held = held_status_book [OF inv f i view g(1,2,3) st, folded u_def]
  have fields: "entries u = entries s" "frames u = frames s" "vm u = vm s" "va_map u = va_map s"
    "pfn_ok u p = pfn_ok s p" for p by (simp_all add: u_def)
  have mine: "frame_of (page_states s i) = Some f"
    using view i by (simp add: page_states_def frame_of_entry_state)
  have fl: "flink (g q) = flink q" "blink (g q) = blink q" for q using g(4) by (simp_all add: keeps_links_def)
  have "lists_ok u C"
    using inv'(5) by (subst lists_ok_cong [of _ s]) (auto simp: u_def on_cells_def fl)
  moreover have "members_ok u C K"
  proof -
    have c: "cache u = cache s" by (simp add: cache_def u_def fun_eq_iff)
    have p: "pool u C = pool s C" "caches_ok u C = caches_ok s C"
      by (simp_all add: pool_def caches_ok_def cached_by_def listed_def c) (simp_all add: u_def)
    have "{h \<in> frames s - K. fstatus (book_of u) h = x} = {h \<in> frames s - K. fstatus (book_of s) h = x}" for x
      using f by (auto simp: held(1) book_status_def)
    then show ?thesis using inv'(6) by (simp add: members_ok_def p fields)
  qed
  moreover have "locks_ok u K"
    using inv'(7) by (auto simp: locks_ok_def u_def pfn_held_def pfn_free_def pte_free_def on_cells_def g(5) split: if_splits)
  moreover have "maps_ok u K"
    using inv'(8) mine f by (auto simp: maps_ok_def held(3) fields split: if_splits)
  moreover have "users_ok u" "frames_ok u"
    using inv'(1,9) by (simp_all add: users_ok_def frames_ok_def kernel_va_def u_def)
  ultimately show "sys_inv u C K" using new held(2) by (simp add: sys_inv_def)
qed

end
