(* ===== verification/Hard_Fault.thy ===== *)
theory Hard_Fault
  imports Standby_Supply
begin

text \<open>
  The hard fault of threads/page_fault_handler.c on the whole system.  With a page in hand it is either
  resolved (\<open>hard_fault_sys\<close>), the page then resident with the content it had on disk or zeroed, or the
  page goes back to the cache (\<open>give_back_sys\<close>).
\<close>

section \<open>The page goes back\<close>

definition given_back :: "nat \<Rightarrow> u64 \<Rightarrow> machine \<Rightarrow> machine" where
  "given_back t f s = s\<lparr>
     users := (users s)(t := (users s t)\<lparr>
       free_page_cache := (free_page_cache (users s t))(unat (free_page_count (users s t)) := FramePfn f),
       free_page_count := free_page_count (users s t) + 1\<rparr>),
     stats := (stats s)\<lparr>n_available := n_available (stats s) + 1\<rparr>,
     pfns := on_cell (FramePfn f) (\<lambda>q. unlocked_pfn (set_PFN_free q)) (pfns s)\<rparr>"

lemma given_back_fields [simp]:
  "entries (given_back t f s) = entries s" "frames (given_back t f s) = frames s"
  "user_count (given_back t f s) = user_count s" "vm (given_back t f s) = vm s" "pf (given_back t f s) = pf s"
  "va_map (given_back t f s) = va_map s" "ram (given_back t f s) = ram s" "ptes (given_back t f s) = ptes s"
  "lists (given_back t f s) = lists s" "heads (given_back t f s) = heads s"
  "free_lists (given_back t f s) = free_lists s" "pfn_ok (given_back t f s) p = pfn_ok s p"
  "spin (given_back t f s) = spin s" "committed (given_back t f s) = committed s"
  "pte_to_trim (given_back t f s) = pte_to_trim s"
  by (simp_all add: given_back_def)

definition book_forget :: "u64 \<Rightarrow> book \<Rightarrow> book" where
  "book_forget f B = B\<lparr>fowner := (fowner B)(f := None), fslot := (fslot B)(f := 0)\<rparr>"

lemma book_forget:
  assumes "book_ok n com {f} B" and "fstatus B f = PFN_FREE"
  shows "book_ok n com {} (book_forget f B)" and "entry_state n (book_forget f B) = entry_state n B"
proof -
  have *: "frame_at (view B i) \<noteq> Some f" if "i < n" for i
    using book_ok_owner [OF assms(1) that] assms(2) by auto
  have "entry_ok com {} (book_forget f B) i" if "i < n" for i
  proof -
    have "entry_ok com {f} B i" using assms(1) that by (simp add: book_ok_def)
    then show ?thesis using * [OF that] by (auto simp: entry_ok_def book_forget_def split: pte_view.splits)
  qed
  then show "book_ok n com {} (book_forget f B)" using assms(1) by (simp add: book_ok_def book_forget_def)
  show "entry_state n (book_forget f B) = entry_state n B"
  proof (rule ext)
    fix i
    show "entry_state n (book_forget f B) i = entry_state n B i"
      using * [of i] by (cases "view B i") (auto simp: entry_state_def book_forget_def)
  qed
qed

lemma book_of_given_back:
  assumes "fstatus (book_of s) f = PFN_FREE"
  shows "book_of (given_back t f s) = book_forget f (book_of s)"
  using assms by (auto simp: book_forget_def book_of_def given_back_def on_cells_def fun_eq_iff)

lemma give_back_sys:
  assumes inv: "sys_inv s C {f}" and f: "f \<in> frames s" "fstatus (book_of s) f = PFN_FREE"
    and t: "t < user_count s" and room: "unat (free_page_count (users s t)) < 64"
  shows "sys_inv (given_back t f s) C {}" and "paging_of (given_back t f s) = paging_of s"
proof -
  let ?u = "given_back t f s" let ?n = "free_page_count (users s t)"
  note inv' = sys_invD [OF inv]
  have b: "book_of ?u = book_forget f (book_of s)"
    using f(2) by (rule book_of_given_back)
  note forget = book_forget [OF inv'(2) f(2)]
  have st: "page_states ?u = page_states s" using forget(2) by (simp add: page_states_def b)
  have pg: "paging_of ?u = paging_of s" by (simp add: paging_of_def st)
  then show "paging_of ?u = paging_of s" .
  have suc: "unat (?n + 1) = Suc (unat ?n)" using room by (simp add: unat_word_ariths)
  have cache: "cache ?u t = cache s t @ [FramePfn f]" "\<And>t'. t' \<noteq> t \<Longrightarrow> cache ?u t' = cache s t'"
    by (simp_all add: cache_def given_back_def suc)
  have cby: "cached_by ?u t' = (if t' = t then insert (FramePfn f) (cached_by s t) else cached_by s t')" for t'
    using cache by (simp add: cached_by_def)
  have list: "listed ?u C = listed s C" by (simp add: listed_def)
  have "FramePfn f \<notin> pool s C" using inv'(6) by (auto simp: members_ok_def)
  then have apart: "FramePfn f \<notin> listed s C" "t' < user_count s \<Longrightarrow> FramePfn f \<notin> cached_by s t'" for t'
    by (auto simp: pool_def)
  have co: "caches_ok s C" using inv'(6) by (simp add: members_ok_def)
  have "caches_ok ?u C"
  proof (rule caches_ok_change [where Y = "{FramePfn f}" and s = s and t = t and C = C])
    show "distinct (cache ?u t)"
      using co t apart(2) [OF t] cache(1) by (auto simp: caches_ok_def cached_by_def)
  qed (use co t cby list apart cache(2) in auto)
  moreover have "pool ?u C = insert (FramePfn f) (pool s C)"
    unfolding pool_def cby list using t by auto
  ultimately have "members_ok ?u C {}"
    using inv'(6) f unfolding members_ok_def b by (auto simp: book_forget_def)
  moreover have "lists_ok ?u C"
    using inv'(5) by (subst lists_ok_cong [of _ s]) (simp_all add: given_back_def on_cells_def)
  moreover have "locks_ok ?u {}"
    using inv'(7) by (auto simp: locks_ok_def pfn_held_def pfn_free_def given_back_def on_cells_def pte_free_def
        split: if_splits)
  moreover have "maps_ok ?u {}"
  proof -
    have "frame_of (page_states s i) \<noteq> Some f" if "i < entries s" for i
      using book_ok_owner [OF inv'(2) that, of f] f(2) that by (auto simp: page_states_def frame_of_entry_state)
    then show ?thesis using inv'(8) by (simp add: maps_ok_def st)
  qed
  moreover have "users_ok ?u"
    using room users_okD [OF inv'(9)]
    by (intro users_ok_change [OF inv'(9)]) (simp_all add: given_back_def suc)
  moreover have "frames_ok ?u" "slots_ok ?u" "book_ok (entries ?u) (frames ?u) {} (book_of ?u)"
    using inv'(1,4) forget(1) by (simp_all add: frames_ok_def slots_ok_def st b)
  ultimately show "sys_inv ?u C {}" using inv'(3) pg by (simp add: sys_inv_def)
qed

lemma give_page_back_run:
  assumes inv: "sys_inv s C {f}" and f: "f \<in> frames s" and room: "unat (free_page_count (users s t)) < 64"
  shows "give_page_back t (FramePfn f) s = Inr (False, given_back t f s)"
proof -
  have ok: "pfn_ok s (FramePfn f)" using f by (simp add: pfn_ok_def frames_def)
  moreover have "pfn_held s (FramePfn f)" using sys_invD(7) [OF inv] ok by (auto simp: locks_ok_def)
  moreover have "free_page_count (users s t) < 64" using room by (simp add: word_less_nat_alt)
  ultimately show ?thesis
    by (simp add: give_page_back_def prog_simps add_page_to_cache_run cached_def unlock_pfn_run pfn_held_def
        on_cells_def) (simp add: given_back_def on_cells_def fun_upd_def cong: if_cong)
qed



section \<open>The page becomes resident\<close>

text \<open>What the page is to hold.\<close>

definition incoming :: "machine \<Rightarrow> nat \<Rightarrow> page" where
  "incoming s i = (case page_states s i of OnDisk d \<Rightarrow> page_file (pf s) (unat d) | _ \<Rightarrow> zero_page)"

lemma va_of_inj:
  assumes "frames_ok s" and "i < entries s" and "j < entries s" and "va_of (vm s) i = va_of (vm s) j"
  shows "i = j"
  using entry_va_in_region(2) [of "vm s" i] entry_va_in_region(2) [of "vm s" j] assms
  by (metis entries_def frames_ok_def va_of_def)

lemma hard_fault_sys:
  assumes inv: "sys_inv s C {f}" and f: "f \<in> frames s" "fstatus (book_of s) f = PFN_FREE"
    and i: "i < entries s" and view: "frame_at (view (book_of s) i) = None"
    and u: "ptes u = entry_valid i f (ptes s)"
      "pfns u = on_cell (FramePfn f) (\<lambda>q. unlocked_pfn (set_PFN_active i q)) (pfns s)"
      "ram u = (ram s)(f := incoming s i)" "lists u = lists s" "heads u = heads s" "free_lists u = free_lists s"
      "vm u = vm s" "committed u = committed s" "pte_to_trim u = pte_to_trim s"
    and d: "pf_inv (vm s) (pf u)" "page_file (pf u) = page_file (pf s)"
      "\<And>j e. j \<noteq> i \<Longrightarrow> slot_held (page_states s j) = Some e \<Longrightarrow>
         unat e \<in> slots_used (pf u) - {0} - set (stash (pf u))"
    and m: "va_map u (va_of (vm s) i) = Some f"
      "\<And>j. j < entries s \<Longrightarrow> j \<noteq> i \<Longrightarrow> va_map u (va_of (vm s) j) = va_map s (va_of (vm s) j)"
    and cache: "\<And>k. free_page_cache (users u k) = free_page_cache (users s k)"
      "\<And>k. free_page_count (users u k) = free_page_count (users s k)"
    and kernel: "\<And>k. kernel_va_space (users u k) = kernel_va_space (users s k)"
      "\<And>k. k < user_count s \<Longrightarrow> kernel_va_index (users u k) < NUM_KERNEL_READ_ADDRESSES"
  shows "sys_inv u C {}" and "managed s u" and "page_states u = (page_states s)(i := Resident f)"
proof -
  note inv' = sys_invD [OF inv]
  have n: "entries u = entries s" "frames u = frames s" "user_count u = user_count s"
    by (simp_all add: u entries_def frames_def user_count_def)
  have fits: "unat f < 2 ^ 40" using inv'(1) f(1) by (simp add: frames_ok_def)
  have book: "book_of u = book_activate i f (book_of s)"
    using fits
    by (auto simp: book_of_def book_activate_def change_def u entry_valid_def sane_set_valid on_cells_def fun_eq_iff)
  have fa: "frame_at (view (book_of s) i) = Some f \<or>
      frame_at (view (book_of s) i) = None \<and> fstatus (book_of s) f = PFN_FREE" using view f(2) by simp
  have sub: "{f} - {f} \<subseteq> {}" by simp
  note act = book_activate [OF inv'(2) i f(1) fa sub]
  show states: "page_states u = (page_states s)(i := Resident f)"
    using act(2) by (simp add: page_states_def n book)
  have "frame_of (page_states s j) \<noteq> Some f" for j
  proof (cases "j < entries s")
    case True
    then show ?thesis using book_ok_owner [OF inv'(2) True, of f] f(2)
      by (auto simp: page_states_def frame_of_entry_state)
  qed (simp add: page_states_def entry_state_def)
  then have unused: "frame_unused (paging_of s) f" by (simp add: frame_unused_def page_states_state)
  have paging: "paging_of u = (paging_of s)\<lparr>state := (state (paging_of s))(i := Resident f),
      memory := (memory (paging_of s))(f := incoming s i)\<rparr>"
    using states d(2) by (simp add: paging_of_def u)
  have step: "manager_step (paging_of s) (paging_of u)"
  proof (cases "page_states s i")
    case Untouched
    then show ?thesis unfolding paging using first_touch [of "paging_of s" i f] unused
      by (simp add: page_states_state incoming_def)
  next
    case (OnDisk e)
    have "memory (paging_of s) = ram s" "Paging_Spec.disk (paging_of s) = page_file (pf s)" by (simp_all add: paging_of_def)
    then show ?thesis unfolding paging using OnDisk read_back [of "paging_of s" i e f] unused
      by (simp add: page_states_state incoming_def)
  qed (use view i in \<open>auto simp: page_states_def entry_state_def split: pte_view.splits if_splits\<close>)
  then show "managed s u" by (intro managed_step u)
  have "slots_ok u"
    using d states by (auto simp: slots_ok_def u split: if_splits)
  moreover have "lists_ok u C"
    using inv'(5) by (subst lists_ok_cong [of _ s]) (simp_all add: u on_cells_def pfn_ok_def split: pfn_ptr.split)
  moreover have "members_ok u C {}"
  proof -
    have "cache u = cache s" by (simp add: cache_def cache fun_eq_iff)
    then have p: "pool u C = pool s C" "caches_ok u C = caches_ok s C"
      by (simp_all add: pool_def caches_ok_def cached_by_def n u listed_def)
    have st: "fstatus (book_of u) g = (if g = f then PFN_ACTIVE else fstatus (book_of s) g)" for g
      by (simp add: book book_activate_def change_def)
    show ?thesis using inv'(6) unfolding members_ok_def p n st by auto
  qed
  moreover have "locks_ok u {}"
    using inv'(7)
    by (auto simp: locks_ok_def u n pfn_free_def pfn_held_def pte_free_def on_cells_def entry_valid_def pfn_ok_def
        split: if_splits pfn_ptr.splits)
  moreover have "maps_ok u {}"
  proof -
    have "va_map u (va_of (vm s) j) = (case page_states u j of Resident g \<Rightarrow> Some g | _ \<Rightarrow> None)"
      if j: "j < entries s" for j
    proof (cases "j = i")
      case False
      have "frame_of (page_states s j) \<noteq> Some f" using unused by (simp add: frame_unused_def page_states_state)
      then show ?thesis using inv'(8) m(2) [OF j False] j False by (simp add: maps_ok_def states)
    qed (simp add: m(1) states)
    then show ?thesis by (simp add: maps_ok_def n u)
  qed
  moreover have "users_ok u"
    using users_okD [OF inv'(9)] by (intro users_ok_change [OF inv'(9)]) (simp_all add: u cache kernel [simplified])
  moreover have "frames_ok u" using inv'(1) by (simp add: frames_ok_def u n)
  moreover have "paging_inv (paging_of u)" using manager_step_inv [OF step inv'(3)] .
  ultimately show "sys_inv u C {}" using act(1) by (simp add: sys_inv_def n book)
qed



section \<open>Mapping and unmapping\<close>

lemma map_all_other: "va \<notin> set (map fst xs) \<Longrightarrow> map_all xs m va = m va"
  by (induction xs m rule: map_all.induct) auto

lemma map_both_run:
  "awe_spec w \<Longrightarrow> map_both_va_to_same_page w a b f s =
     Inr ((), s\<lparr>va_map := (va_map s)(a := Some f, b := Some f)\<rparr>)"
  by (simp add: map_both_va_to_same_page_def prog_simps awe_spec_def map_list_def)

lemma unmap_run:
  assumes w: "awe_spec w" and n: "kernel_va_index (users s t) \<le> NUM_KERNEL_READ_ADDRESSES"
  shows "\<exists>m n. unmap_and_reset_all_kernal_va_for_this_thread w t s =
      Inr ((), s\<lparr>va_map := m, users := (users s)(t := (users s t)\<lparr>kernel_va_index := n\<rparr>)\<rparr>) \<and>
      n < NUM_KERNEL_READ_ADDRESSES \<and>
      (\<forall>va. va \<notin> set (pages_from (kernel_va_space (users s t)) 16) \<longrightarrow> m va = va_map s va)"
proof (cases "kernel_va_index (users s t) = NUM_KERNEL_READ_ADDRESSES")
  case True
  let ?vas = "pages_from (kernel_va_space (users s t)) 16"
  let ?m = "map_all (zip ?vas (replicate (length ?vas) None)) (va_map s)"
  have "?m va = va_map s va" if "va \<notin> set ?vas" for va
    using that by (intro map_all_other) simp
  moreover have "unmap_and_reset_all_kernal_va_for_this_thread w t s =
      Inr ((), s\<lparr>va_map := ?m, users := (users s)(t := (users s t)\<lparr>kernel_va_index := 0\<rparr>)\<rparr>)"
    using True w
    by (simp add: unmap_and_reset_all_kernal_va_for_this_thread_def prog_simps awe_spec_def map_list_def Let_def)
  ultimately show ?thesis by (intro exI [of _ ?m] exI [of _ 0]) simp
next
  case False
  then have "unmap_and_reset_all_kernal_va_for_this_thread w t s = Inr ((), s)"
    by (simp add: unmap_and_reset_all_kernal_va_for_this_thread_def prog_simps)
  then show ?thesis using False n
    by (intro exI [of _ "va_map s"] exI [of _ "kernel_va_index (users s t)"]) simp
qed

lemma fill_page_run:
  assumes pte: "pte_ok s i" and map: "va_map s va = Some f" "page_base va = va"
    and inv: "slots_ok s" "paging_inv (paging_of s)" and i: "i < entries s"
    and view: "frame_at (view (book_of s) i) = None" "view (book_of s) i \<noteq> LimboView"
  shows "\<exists>d. fill_page i va s = Inr ((), s\<lparr>ram := (ram s)(f := incoming s i), pf := d\<rparr>) \<and>
     pf_inv (vm s) d \<and> page_file d = page_file (pf s) \<and>
     (\<forall>j e. j \<noteq> i \<longrightarrow> slot_held (page_states s j) = Some e \<longrightarrow> unat e \<in> slots_used d - {0} - set (stash d))"
proof -
  let ?e = "entire_pte (ptes s i)"
  have pfi: "pf_inv (vm s) (pf s)" using inv(1) by (simp add: slots_ok_def)
  have slots: "unat e \<in> slots_used (pf s) - {0} - set (stash (pf s))"
    if "slot_held (page_states s j) = Some e" for j e
    using inv(1) that by (auto simp: slots_ok_def)
  have v: "view (book_of s) i = sane_view ?e" by (simp add: book_of_def)
  show ?thesis
  proof (cases "view (book_of s) i")
    case (DiskView e)
    then have on: "IS_PTE_ON_DISK ?e" "get_disk_index ?e = e"
      using sane_viewD(3) [of ?e e] v pte_view_DiskD by auto
    have st: "page_states s i = OnDisk e" using DiskView i by (simp add: page_states_def entry_state_def)
    then have d: "unat e \<in> slots_used (pf s)" "unat e \<noteq> 0" "unat e \<notin> set (stash (pf s))"
      using slots [of i] by auto
    have shape: "pf_shape (vm s) (pf s)" using pf_inv_shape [OF pfi] .
    have "validate_disk_slot e (pf s) = Inr ((), pf s)"
      using validate_disk_slot_ok [OF shape] slots_used_less [OF d(1)] by auto
    then have off: "on_disk (get_page_file_offset e) s = Inr (unat e, s)"
      by (subst on_disk_run [where x = "unat e" and t = "pf s"]) (simp_all add: get_page_file_offset_def prog_simps)
    let ?s = "s\<lparr>ram := (ram s)(f := page_file (pf s) (unat e))\<rparr>"
    have clr: "on_disk (clear_disk_slot e) ?s = Inr ((), ?s\<lparr>pf := free_slot (unat e) (pf s)\<rparr>)"
      by (rule on_disk_run) (use clear_disk_slot_run [OF shape d(1)] in simp)
    have "fill_page i va s = Inr ((), ?s\<lparr>pf := free_slot (unat e) (pf s)\<rparr>)"
      using pte on off clr map by (simp add: fill_page_def prog_simps write_page_def)
    moreover have "incoming s i = page_file (pf s) (unat e)" by (simp add: incoming_def st)
    moreover have "unat e' \<noteq> unat e" if "j \<noteq> i" "slot_held (page_states s j) = Some e'" for j e'
      using same_slot [OF inv(2), of j e' i] that st by (auto simp: page_states_state word_unat_eq_iff)
    ultimately show ?thesis using slots pf_inv_free [OF pfi d]
      by (intro exI [of _ "free_slot (unat e) (pf s)"]) (auto simp: slots_used_free_slot)
  next
    case ZeroedView
    then have z: "IS_PTE_ZEROED ?e" "\<not> IS_PTE_ON_DISK ?e"
      using sane_viewD(4) [of ?e] v by (simp_all add: pte_view_zeroed_iff pte_view_disk_iff)
    have st: "page_states s i = Untouched" using ZeroedView by (simp add: page_states_def entry_state_def)
    have "fill_page i va s = Inr ((), s\<lparr>ram := (ram s)(f := zero_page)\<rparr>)"
      using pte z map by (simp add: fill_page_def prog_simps write_page_def)
    then show ?thesis using slots pfi
      by (intro exI [of _ "pf s"]) (auto simp: incoming_def st)
  qed (use view in simp_all)
qed



section \<open>The whole handler of a hard fault\<close>

lemma kernel_address:
  assumes "users_ok s" and "t < user_count s" and "k < 16"
  shows "page_base (kernel_va_space (users s t) + of_nat k * PAGE_SIZE) = kernel_va_space (users s t) + of_nat k * PAGE_SIZE"
    and "j < entries s \<Longrightarrow> kernel_va_space (users s t) + of_nat k * PAGE_SIZE \<noteq> va_of (vm s) j"
  using assms by (auto simp: users_ok_def kernel_va_def)

lemma hard_fault_resolves:
  assumes inv: "sys_inv s C {f}" and f: "f \<in> frames s" "fstatus (book_of s) f = PFN_FREE"
    and i: "i < entries s" and t: "t < user_count s" and w: "awe_spec w"
    and view: "frame_at (view (book_of s) i) = None" and calm: "\<not> next_busy (spin s)"
  shows "\<exists>u. hard_fault_with_page w i t (FramePfn f) s = Inr (True, u) \<and> sys_inv u C {} \<and> managed s u \<and>
     page_states u = (page_states s)(i := Resident f)"
proof -
  let ?e = "entire_pte (ptes s i)" and ?p = "FramePfn f" and ?k = "unat (kernel_va_index (users s t))"
  note inv' = sys_invD [OF inv]
  have k: "kernel_va_index (users s t) < NUM_KERNEL_READ_ADDRESSES" "?k < 16"
    using users_okD(1) [OF inv'(9) t] by (simp_all add: word_less_nat_alt)
  let ?kva = "kernel_va_space (users s t) + of_nat ?k * PAGE_SIZE" and ?uva = "va_of (vm s) i"
  have kva: "kernel_va_space (users s t) + ucast (kernel_va_index (users s t)) * PAGE_SIZE = ?kva" by simp
  note ka = kernel_address [OF inv'(9) t]
  have "entry_ok (frames s) {f} (book_of s) i" using inv'(2) i by (simp add: book_ok_def)
  then have nolimbo: "view (book_of s) i \<noteq> LimboView" by (auto simp: entry_ok_def)
  have "view (book_of s) i = sane_view ?e" by (simp add: book_of_def)
  then have nv: "\<not> IS_PTE_VALID ?e" "\<not> IS_PTE_TRANSITION ?e"
    using view nolimbo by (auto simp: sane_view_def pte_view_valid_iff pte_view_transition_iff split: if_splits)
  have pte: "pte_ok s i" "pte_free s i" using entry_facts [OF inv i] by simp_all
  have pfn: "pfn_ok s ?p" using f(1) by (simp add: pfn_ok_def frames_def)
  then have held: "lock_of (pfns s ?p) = 1" using inv'(7) by (auto simp: locks_ok_def pfn_held_def)
  have frame: "get_frame_from_PFN (vm s) ?p = Inr f"
    using inv'(1) f(1) by (simp add: get_frame_from_PFN_def validate_pfn_def frames_ok_def)
  let ?s1 = "s\<lparr>ptes := on_pte i (set_pte_lock 1) (ptes s), spin := after_try (spin s)\<rparr>"
  have lock: "try_lock_pte i s = Inr (True, ?s1)" using try_lock_pte_run [OF pte] calm by simp
  let ?m = "(va_map s)(?kva := Some f, ?uva := Some f)"
  let ?user = "kernel_va_index_update (\<lambda>n. n + 1) (users s t)"
  let ?s2 = "?s1\<lparr>va_map := ?m, users := (users s)(t := ?user)\<rparr>"
  have map: "map_for_hard_fault w t i ?kva f ?s1 = Inr ((), ?s2)"
    using pte w by (simp add: map_for_hard_fault_def prog_simps get_VA_from_PTE_def pte_ok_def va_of_def map_both_run)
  have book: "book_of ?s2 = book_of s"
    by (auto simp: book_of_def on_pte_def set_pte_lock_def fun_eq_iff)
  have st: "page_states ?s2 = page_states s" unfolding page_states_def book by simp
  have pg: "paging_of ?s2 = paging_of s" unfolding paging_of_def st by simp
  have inc: "incoming ?s2 i = incoming s i" unfolding incoming_def st by (simp split: page_state.split)
  have "slots_ok ?s2" using inv'(4) unfolding slots_ok_def st by simp
  moreover have "?kva \<noteq> ?uva" using ka(2) [OF k(2) i] .
  ultimately obtain d where fill: "fill_page i ?kva ?s2 = Inr ((), ?s2\<lparr>ram := (ram s)(f := incoming s i), pf := d\<rparr>)"
    and d: "pf_inv (vm s) d" "page_file d = page_file (pf s)"
      "\<forall>j e. j \<noteq> i \<longrightarrow> slot_held (page_states s j) = Some e \<longrightarrow> unat e \<in> slots_used d - {0} - set (stash d)"
    using fill_page_run [of ?s2 i ?kva f] pte(1) ka(1) [OF k(2)] inv'(3) i view nolimbo
    unfolding book st pg inc by auto
  let ?s3 = "?s2\<lparr>ram := (ram s)(f := incoming s i), pf := d\<rparr>"
  let ?s4 = "?s3\<lparr>pfns := on_cell ?p (\<lambda>q. unlocked_pfn (set_PFN_active i q)) (pfns s),
    ptes := entry_valid i f (ptes s),
    stats := n_hard_update (\<lambda>n. n + 1) (stats s)\<rparr>"
  have n1: "kernel_va_index (users ?s4 t) \<le> NUM_KERNEL_READ_ADDRESSES"
    using k by (simp add: inc_le)
  obtain m n where un: "unmap_and_reset_all_kernal_va_for_this_thread w t ?s4 =
      Inr ((), ?s4\<lparr>va_map := m, users := (users ?s4)(t := (users ?s4 t)\<lparr>kernel_va_index := n\<rparr>)\<rparr>)"
    and n: "n < NUM_KERNEL_READ_ADDRESSES"
    and m: "\<forall>va. va \<notin> set (pages_from (kernel_va_space (users ?s4 t)) 16) \<longrightarrow> m va = ?m va"
    using unmap_run [OF w n1] by auto
  let ?u = "?s4\<lparr>va_map := m, users := (users ?s4)(t := (users ?s4 t)\<lparr>kernel_va_index := n\<rparr>)\<rparr>"
  have ptes4: "on_pte i (set_pte_lock 0) ((on_pte i (set_pte_lock 1) (ptes s))(i :=
      (on_pte i (set_pte_lock 1) (ptes s) i)\<lparr>entire_pte := set_PTE_to_valid f ?e\<rparr>)) = entry_valid i f (ptes s)"
    using pte(2) by (auto simp: on_pte_def set_pte_lock_def entry_valid_def pte_free_def fun_eq_iff)
  have word: "entire_pte (on_pte i (set_pte_lock 1) (ptes s) i) = ?e"
    "pte_lock (on_pte i (set_pte_lock 1) (ptes s) i) = 1" by (simp_all add: on_pte_def set_pte_lock_def)
  have act: "on_cell ?p unlocked_pfn (on_cell ?p (set_PFN_active i) M) =
      on_cell ?p (\<lambda>q. unlocked_pfn (set_PFN_active i q)) M" for M by (rule on_cell_same)
  have held4: "lock_of (on_cell ?p (set_PFN_active i) (pfns s) ?p) = 1" using held by (simp add: on_cells_def)
  have finish: "finish_hard_fault w t i ?p f ?s3 = Inr (True, ?u)"
    using pte pfn held4 un
    by (simp add: finish_hard_fault_def prog_simps word unlock_pfn_run unlock_pte_run pfn_held_def pte_held_def
        act ptes4 count_hard_def)
  have "hard_fault_with_page w i t ?p s = Inr (True, ?u)"
    using k(1) frame lock pte nv map fill finish
    by (simp add: hard_fault_with_page_def prog_simps word Let_def kva)
  moreover have "sys_inv ?u C {} \<and> managed s ?u \<and> page_states ?u = (page_states s)(i := Resident f)"
  proof -
    have apart: "va_of (vm s) j \<notin> set (pages_from (kernel_va_space (users s t)) 16)" if "j < entries s" for j
      using ka(2) that unfolding pages_from_def by (auto simp: ) metis
    have mj: "m (va_of (vm s) j) = ?m (va_of (vm s) j)" if "j < entries s" for j using m apart [OF that] by simp
    have m1: "m ?uva = Some f" using mj [OF i] by simp
    have m2: "m (va_of (vm s) j) = va_map s (va_of (vm s) j)" if j: "j < entries s" "j \<noteq> i" for j
    proof -
      have "va_of (vm s) j \<noteq> ?uva" "?kva \<noteq> va_of (vm s) j"
        using va_of_inj [OF inv'(1) j(1) i] j(2) ka(2) [OF k(2) j(1)] by auto
      then show ?thesis unfolding mj [OF j(1)] by simp
    qed
    show ?thesis
      using hard_fault_sys [OF inv f i view, of ?u] d m1 m2 n users_okD(1) [OF inv'(9)] by simp
  qed
  ultimately show ?thesis by blast
qed


lemma hard_fault_gives_back:
  assumes inv: "sys_inv s C {f}" and f: "f \<in> frames s" "fstatus (book_of s) f = PFN_FREE"
    and i: "i < entries s" and t: "t < user_count s" and room: "unat (free_page_count (users s t)) < 64"
    and no: "next_busy (spin s) \<or> frame_at (view (book_of s) i) \<noteq> None"
  shows "hard_fault_with_page w i t (FramePfn f) s = Inr (False, (given_back t f s)\<lparr>spin := after_try (spin s)\<rparr>)"
proof -
  let ?e = "entire_pte (ptes s i)" and ?p = "FramePfn f" and ?s = "s\<lparr>spin := after_try (spin s)\<rparr>"
  note inv' = sys_invD [OF inv]
  have k: "kernel_va_index (users s t) < NUM_KERNEL_READ_ADDRESSES" using users_okD(1) [OF inv'(9) t] .
  have pte: "pte_ok s i" "pte_free s i" using entry_facts [OF inv i] by simp_all
  have frame: "get_frame_from_PFN (vm s) ?p = Inr f"
    using inv'(1) f(1) by (simp add: get_frame_from_PFN_def validate_pfn_def frames_ok_def)
  have gave: "give_page_back t ?p ?s = Inr (False, (given_back t f s)\<lparr>spin := after_try (spin s)\<rparr>)"
    using give_page_back_run [of ?s C f t] inv f(1) room by (simp add: given_back_def)
  show ?thesis
  proof (cases "next_busy (spin s)")
    case True
    then have "try_lock_pte i s = Inr (False, ?s)" using try_lock_pte_run [OF pte] by simp
    then show ?thesis using k frame pte gave
      by (simp add: hard_fault_with_page_def prog_simps run_if_def Let_def)
  next
    case False
    let ?l = "s\<lparr>ptes := on_pte i (set_pte_lock 1) (ptes s), spin := after_try (spin s)\<rparr>"
    have lock: "try_lock_pte i s = Inr (True, ?l)" using False try_lock_pte_run [OF pte] by simp
    have word: "entire_pte (on_pte i (set_pte_lock 1) (ptes s) i) = ?e"
      "pte_lock (on_pte i (set_pte_lock 1) (ptes s) i) = 1" by (simp_all add: on_pte_def set_pte_lock_def)
    have "unlock_pte i ?l = Inr ((), ?s)"
      using unlock_pte_run [of ?l i] pte
      by (simp add: pte_held_def word unlock_after_lock_pte pte_free_def)
    moreover have "IS_PTE_VALID ?e \<or> IS_PTE_TRANSITION ?e"
    proof -
      have v: "view (book_of s) i = sane_view ?e" by (simp add: book_of_def)
      then consider g where "sane_view ?e = ValidView g" | g where "sane_view ?e = TransitionView g"
        using no False by (cases "sane_view ?e") auto
      then show ?thesis
        by cases (auto dest!: sane_viewD simp: pte_view_valid_iff pte_view_transition_iff)
    qed
    ultimately show ?thesis using k frame pte gave lock
      by (simp add: hard_fault_with_page_def prog_simps run_if_def Let_def word)
  qed
qed

text \<open>The page is resident with its content, or the fault is to be retried with the page back in the cache.\<close>

lemma hard_fault_with_page_run:
  assumes hand: "in_hand t s0 s C f" and i: "i < entries s" and t: "t < user_count s" and w: "awe_spec w"
  shows "\<exists>u C'. sys_inv u C' {} \<and> managed s0 u \<and>
    (hard_fault_with_page w i t (FramePfn f) s = Inr (True, u) \<and> page_states u i = Resident f \<or>
     hard_fault_with_page w i t (FramePfn f) s = Inr (False, u) \<and> free_page_count (users u t) \<noteq> 0 \<and>
       patience u = patience s - 1 \<and>
       (next_busy (spin s) \<or> frame_of (page_states s i) \<noteq> None))"
proof -
  have hd: "sys_inv s C {f}" "f \<in> frames s" "fstatus (book_of s) f = PFN_FREE" "managed s0 s"
    "unat (free_page_count (users s t)) < 64" using hand by (auto simp: in_hand_def)
  show ?thesis
  proof (cases "next_busy (spin s) \<or> frame_at (view (book_of s) i) \<noteq> None")
    case True
    let ?u = "(given_back t f s)\<lparr>spin := after_try (spin s)\<rparr>"
    note g = give_back_sys [OF hd(1,2,3) t hd(5)]
    have "managed s ?u" using g(2) by (intro managed_same) simp_all
    then have 1: "managed s0 ?u" using managed_trans hd(4) by blast
    have "unat (free_page_count (users s t) + 1) = Suc (unat (free_page_count (users s t)))"
      using hd(5) by (simp add: unat_word_ariths)
    then have 2: "free_page_count (users ?u t) \<noteq> 0" by (auto simp: given_back_def)
    have "frame_of (page_states s i) = frame_at (view (book_of s) i)"
      using i by (simp add: page_states_def frame_of_entry_state)
    then show ?thesis using hard_fault_gives_back [OF hd(1,2,3) i t hd(5) True] g(1) 1 2 True
      by (intro exI [of _ ?u] exI [of _ C]) (simp add: patience_def)
  next
    case False
    then obtain u where "hard_fault_with_page w i t (FramePfn f) s = Inr (True, u)" "sys_inv u C {}"
      "managed s u" "page_states u = (page_states s)(i := Resident f)"
      using hard_fault_resolves [OF hd(1,2,3) i t w] by blast
    then show ?thesis using managed_trans [OF hd(4)] by (intro exI [of _ u] exI [of _ C]) simp
  qed
qed


section \<open>Waiting\<close>

text \<open>
  What the thread expects of the others while it waits for standby pages: they keep the invariant and
  every page's content, and set the event.
\<close>

definition cooperative :: "os \<Rightarrow> bool" where
  "cooperative w \<longleftrightarrow> (\<forall>s C. sys_inv s C {} \<longrightarrow> (\<exists>u C'. others w s = Inr ((), u) \<and> sys_inv u C' {} \<and>
     managed s u \<and> events u standby_pages_ready_event))"

lemma wait_for_pages_run:
  assumes w: "cooperative w" and inv: "sys_inv s C {}"
  shows "\<exists>u C'. wait_for_pages w s = Inr (False, u) \<and> sys_inv u C' {} \<and> managed s u"
proof -
  let ?s = "s\<lparr>events := (events s)(initiate_trimming_event := True), ticks := ticks s + 1\<rparr>"
  have s': "sys_inv ?s C {}" "managed s ?s" using inv by (simp_all add: managed_same)
  obtain u C' where u: "WaitForSingleObject w standby_pages_ready_event ?s = Inr ((), u)" "sys_inv u C' {}" "managed ?s u"
  proof (cases "events s standby_pages_ready_event")
    case True
    then have "WaitForSingleObject w standby_pages_ready_event ?s = Inr ((), ?s)"
      by (simp add: WaitForSingleObject_def prog_simps)
    then show ?thesis using s' that by blast
  next
    case False
    obtain u C' where "others w ?s = Inr ((), u)" "sys_inv u C' {}" "managed ?s u" "events u standby_pages_ready_event"
      using w s'(1) unfolding cooperative_def by blast
    then show ?thesis using False that by (simp add: WaitForSingleObject_def prog_simps)
  qed
  obtain c m where run: "wait_for_pages w s = Inr (False, u\<lparr>ticks := c, stats := m\<rparr>)"
    using u(1) by (simp add: wait_for_pages_def prog_simps)
  have "managed u (u\<lparr>ticks := c, stats := m\<rparr>)" by (intro managed_same) simp_all
  then have "managed s (u\<lparr>ticks := c, stats := m\<rparr>)" using managed_trans s'(2) u(3) by blast
  then show ?thesis using run u(2) by (intro exI [of _ "u\<lparr>ticks := c, stats := m\<rparr>"] exI [of _ C']) simp
qed

lemma resolve_hard_fault_run:
  assumes inv: "sys_inv s C {}" and i: "i < entries s" and t: "t < user_count s" and w: "awe_spec w" "cooperative w"
  shows "\<exists>u C'. sys_inv u C' {} \<and> managed s u \<and>
    (resolve_hard_fault w i t s = Inr (True, u) \<and> (\<exists>f. page_states u i = Resident f) \<or>
     resolve_hard_fault w i t s = Inr (False, u))"
proof -
  consider (none) u C' where "obtain_free_page 2 t s = Inr (None, u)" "sys_inv u C' {}" "managed s u"
    | (some) f u C' where "obtain_free_page 2 t s = Inr (Some (FramePfn f), u)" "in_hand t s u C' f"
    using obtain_free_page_run [OF inv t] by blast
  then show ?thesis
  proof cases
    case none
    obtain v C'' where "wait_for_pages w u = Inr (False, v)" "sys_inv v C'' {}" "managed u v"
      using wait_for_pages_run [OF w(2) none(2)] by blast
    then show ?thesis using none managed_trans
      by (intro exI [of _ v] exI [of _ C'']) (auto simp: resolve_hard_fault_def prog_simps)
  next
    case some
    have u: "managed s u" using some(2) by (simp add: in_hand_def)
    have "i < entries u" "t < user_count u" using i t managedD [OF u] by simp_all
    from hard_fault_with_page_run [OF some(2) this w(1)] show ?thesis
      using some(1) by (auto simp: resolve_hard_fault_def prog_simps)
  qed
qed

end
