(* ===== verification/Small_System.thy ===== *)
theory Small_System
  imports Hard_Fault
begin

text \<open>
  A small machine that satisfies the invariant of the system, for the witnesses: five virtual pages, one
  in each state (modified, standby, resident, on disk, untouched), and five frames, of which frame 4 is in
  the cache of the one user thread and frame 5 on the one free list.
\<close>

definition small_vm :: vm_state where
  "small_vm = zero_vm\<lparr>num_user_threads := 1, pages_in_page_file := 64, va_size_in_bytes := 20480,
     va_size_in_pointers := 2560, application_va_base := 65536, kernel_write_va := 0x10000000,
     num_ptes := 5, max_frame_number := 5, min_frame_number := 1\<rparr>"

definition small_pf :: page_file_state where
  "small_pf = (use_slot 1 (use_slot 2 small_disk))\<lparr>page_file := (\<lambda>d. \<lambda>_. of_nat (d + 1))\<rparr>"

definition free_cell :: pfn where
  "free_cell = create_zeroed_pfn zero_pfn"

definition chained :: "pfn_ptr \<Rightarrow> pfn \<Rightarrow> pfn" where
  "chained h q = q\<lparr>flink := h, blink := h\<rparr>"

definition small_pfns :: "pfn_ptr \<Rightarrow> pfn" where
  "small_pfns p = (case p of
       NullPfn \<Rightarrow> free_cell
     | HeadPfn k \<Rightarrow> chained (FramePfn (if k = 0 then 1 else if k = 1 then 2 else 5)) free_cell
     | FramePfn f \<Rightarrow>
         if f = 1 then chained (HeadPfn 0) (SET_PFN_STATUS PFN_MODIFIED (set_PFN_active 0 free_cell))
         else if f = 2 then chained (HeadPfn 1) (set_pfn_standby 1 (set_PFN_active 1 free_cell))
         else if f = 3 then set_PFN_active 2 free_cell
         else if f = 5 then chained (HeadPfn 2) free_cell
         else free_cell)"

definition small_word :: "nat \<Rightarrow> u64" where
  "small_word i = (if i = 0 then set_PTE_to_transition (set_PTE_to_valid 1 0)
     else if i = 1 then set_PTE_to_transition (set_PTE_to_valid 2 0)
     else if i = 2 then set_PTE_to_valid 3 0
     else if i = 3 then map_pte_to_disk 2 0 else 0)"

definition small_list :: "list_id \<Rightarrow> page_list" where
  "small_list l = \<lparr>head = HeadPfn (if l = modified_list then 0 else if l = standby_list then 1 else 2),
     list_size = 1, shared_holders = 0, held_exclusive = False\<rparr>"

definition small_pages :: "list_id \<Rightarrow> pfn_ptr list" where
  "small_pages l = (if l = modified_list then [FramePfn 1] else if l = standby_list then [FramePfn 2]
     else [FramePfn 5])"

definition small_user :: user_thread_info where
  "small_user = \<lparr>thread_id = 0, kernel_va_index = 0, kernel_va_space = 0x20000000, random_seed = 1,
     free_page_cache = (\<lambda>_. FramePfn 4), free_page_count = 1\<rparr>"

definition small_system :: machine where
  "small_system = \<lparr>vm = small_vm, stats = zero_stats, pf = small_pf,
     ptes = (\<lambda>i. \<lparr>entire_pte = small_word i, pte_lock = 0\<rparr>), pfns = small_pfns,
     committed = (\<lambda>f. 1 \<le> f \<and> f \<le> 5), heads = 3, lists = small_list,
     free_lists = \<lparr>low_list_bitmap = 0, number_of_lists = 1, page_count = 1, free_list_locks = 0\<rparr>,
     events = (\<lambda>_. False), va_map = (\<lambda>va. if va = 73728 then Some 3 else None), ram = (\<lambda>f. \<lambda>_. f),
     users = (\<lambda>_. small_user), pte_to_trim = 0, ticks = 0, spin = \<lparr>contention = [], yields = 0\<rparr>\<rparr>"

lemma small_fields [simp]:
  "vm small_system = small_vm" "pf small_system = small_pf" "pfns small_system = small_pfns"
  "entire_pte (ptes small_system i) = small_word i" "pte_lock (ptes small_system i) = 0"
  "committed small_system f = (1 \<le> f \<and> f \<le> 5)" "heads small_system = 3" "lists small_system = small_list"
  "number_of_lists (free_lists small_system) = 1" "free_list_locks (free_lists small_system) = 0"
  "ram small_system f = (\<lambda>_. f)" "users small_system t = small_user"
  "va_map small_system va = (if va = 73728 then Some 3 else None)"
  "spin small_system = \<lparr>contention = [], yields = 0\<rparr>"
  "entries small_system = 5" "user_count small_system = 1" "frames small_system = {f. 1 \<le> f \<and> f \<le> 5}"
  by (simp_all add: small_system_def entries_def user_count_def frames_def small_vm_def)

lemma chained_fields [simp]:
  "status_of (chained h q) = status_of q" "slot_of (chained h q) = slot_of q" "lock_of (chained h q) = lock_of q"
  "PTE (chained h q) = PTE q" "flink (chained h q) = h" "blink (chained h q) = h"
  by (simp_all add: chained_def pfn_observers)

lemma free_cell_fields [simp]:
  "status_of free_cell = PFN_FREE" "slot_of free_cell = 0" "lock_of free_cell = 0" "PTE free_cell = None"
  by (simp_all add: free_cell_def)

lemma five_frames: "1 \<le> f \<Longrightarrow> f \<le> 5 \<Longrightarrow> f = 1 \<or> f = 2 \<or> f = 3 \<or> f = 4 \<or> f = (5 :: u64)"
proof -
  assume "1 \<le> f" "f \<le> 5"
  then have "1 \<le> unat f" "unat f \<le> 5" by (simp_all add: word_le_nat_alt)
  then have "unat f \<in> {1, 2, 3, 4, 5}" by auto
  then show ?thesis by (auto simp: word_unat_eq_iff)
qed

lemma small_frames: "{f. 1 \<le> f \<and> f \<le> (5 :: u64)} = {1, 2, 3, 4, 5}"
  using five_frames by auto

lemma small_book:
  "view (book_of small_system) i = (if i = 0 then TransitionView 1 else if i = 1 then TransitionView 2
     else if i = 2 then ValidView 3 else if i = 3 then DiskView 2 else ZeroedView)"
  "fstatus (book_of small_system) f = (if f = 1 then PFN_MODIFIED else if f = 2 then PFN_STANDBY
     else if f = 3 then PFN_ACTIVE else PFN_FREE)"
  "fowner (book_of small_system) f = (if f = 1 then Some 0 else if f = 2 then Some 1
     else if f = 3 then Some 2 else None)"
  "fslot (book_of small_system) f = (if f = 2 then 1 else 0)"
proof -
  have v: "sane_view (set_PTE_to_valid f 0) = ValidView f" if "f \<in> {1, 2, 3}" for f
    using that by (intro sane_set_valid) auto
  show "view (book_of small_system) i = (if i = 0 then TransitionView 1 else if i = 1 then TransitionView 2
     else if i = 2 then ValidView 3 else if i = 3 then DiskView 2 else ZeroedView)"
    using v [of 3] sane_set_transition [OF v [of 1]] sane_set_transition [OF v [of 2]] sane_map_to_disk [of 2 0]
    by (simp add: book_of_def small_word_def)
qed (simp_all add: book_of_def small_pfns_def)

lemma small_states:
  "page_states small_system i = (if i = 0 then Modified 1 else if i = 1 then Standby 2 1
     else if i = 2 then Resident 3 else if i = 3 then OnDisk 2 else Untouched)"
  by (simp add: page_states_def entry_state_def small_book)

lemma small_system_disk:
  "pf_inv small_vm small_pf" "slots_used small_pf = {0, 1, 2}" "stash small_pf = []"
  "page_file small_pf d = (\<lambda>_. of_nat (d + 1))"
proof -
  have c: "slot_count small_disk = 64" by (rule small_disk_inv(4))
  have u: "slots_used small_pf = slots_used (use_slot 1 (use_slot 2 small_disk))"
    by (simp add: small_pf_def slots_used_def slot_count_def)
  also have "\<dots> = {0, 1, 2}" using c small_disk_inv(2) by (simp add: slots_used_use_slot) auto
  finally show used: "slots_used small_pf = {0, 1, 2}" .
  show st: "stash small_pf = []" using small_disk_inv(3) by (simp add: small_pf_def stash_def)
  show "page_file small_pf d = (\<lambda>_. of_nat (d + 1))" by (simp add: small_pf_def)
  have "slot_count small_pf = 64" using c by (simp add: small_pf_def slot_count_def)
  then show "pf_inv small_vm small_pf"
    unfolding pf_inv_def pf_shape_def used st
    by (simp add: small_pf_def small_vm_def) (simp add: small_disk_def)
qed


lemma small_core: "core_lists small_system = {modified_list, standby_list, free_list 0}"
  by (auto simp: core_lists_def)

lemma small_cache: "cache small_system t = [FramePfn 4]" "listed small_system small_pages = {FramePfn 5}"
  by (simp_all add: cache_def small_user_def listed_def small_pages_def lessThan_Suc)

lemma small_lists_ok: "lists_ok small_system small_pages"
proof -
  have wf: "wf_list small_system l (small_pages l)" if "l \<in> {modified_list, standby_list, free_list 0}" for l
    using that
    by (auto simp: wf_list_def dll_def small_list_def small_pages_def pfn_ok_def small_pfns_def)
  have "list_free small_system l" for l by (simp add: list_free_def small_list_def)
  moreover have "inj_on (\<lambda>l. head (small_list l)) {modified_list, standby_list, free_list 0}"
    by (simp add: small_list_def)
  moreover have "\<exists>k < 3. head (small_list l) = HeadPfn k" for l by (simp add: small_list_def)
  ultimately show ?thesis using wf
    by (simp add: lists_ok_def small_core) (simp add: small_pages_def small_list_def frame_page_def)
qed

lemma small_va_of: "va_of small_vm i = 65536 + of_nat i * 4096"
  by (simp add: va_of_def small_vm_def)

lemma small_va_unat: "i < 5 \<Longrightarrow> unat (va_of small_vm i) = 65536 + i * 4096"
proof -
  assume i: "i < 5"
  have "va_of small_vm i = (of_nat (65536 + i * 4096) :: u64)" by (simp add: small_va_of)
  moreover have "65536 + i * 4096 < 2 ^ 64" using i by simp
  ultimately show ?thesis by (simp only: unat_of_nat mod_less len64)
qed

lemma aligned_base:
  assumes "va = of_nat (n * 4096)"
  shows "page_base va = va"
proof -
  have va: "va = push_bit 12 (of_nat n)" using assms by (simp add: push_bit_eq_mult)
  have "page_base va = va AND NOT (mask 12)" by (simp add: page_base_def mask_eq_exp_minus_1)
  also have "\<dots> = va" unfolding va by (intro bit_word_eqI) (auto simp: bit_simps)
  finally show ?thesis .
qed

lemma small_kernel:
  assumes "b = 0x20000000 \<or> b = 0x10000000" and "k < 4096"
  shows "kernel_va small_system (b + of_nat k * PAGE_SIZE)" and "unat (b + of_nat k * 4096) = unat b + k * 4096"
proof -
  let ?va = "b + of_nat k * PAGE_SIZE"
  obtain n where n: "b = of_nat (n * 4096)"
    using assms(1) that [of "0x20000"] that [of "0x10000"] by auto
  have "?va = of_nat ((n + k) * 4096)" using n(1) by (simp add: algebra_simps)
  then have base: "page_base ?va = ?va" by (rule aligned_base)
  have "?va = (of_nat (unat b + k * 4096) :: u64)" by simp
  moreover have "unat b + k * 4096 < 2 ^ 64" using assms by auto
  ultimately have u: "unat ?va = unat b + k * 4096" by (simp only: unat_of_nat mod_less len64)
  then show "unat (b + of_nat k * 4096) = unat b + k * 4096" by simp
  have "?va \<noteq> va_of small_vm i" if "i < 5" for i
    using u small_va_unat [OF that] assms that by auto
  then show "kernel_va small_system ?va" using base by (auto simp: kernel_va_def)
qed

lemma small_users_ok: "users_ok small_system"
proof -
  have b: "kernel_write_va small_vm = 0x10000000" "kernel_va_space small_user = 0x20000000"
    "kernel_va_index small_user = 0" "free_page_count small_user = 1"
    by (simp_all add: small_vm_def small_user_def)
  have "inj_on (\<lambda>k. 0x10000000 + of_nat k * PAGE_SIZE :: u64) {..<4096}"
    unfolding PAGE_SIZE_def
  proof (rule inj_onI)
    fix j k assume jk: "j \<in> {..<4096}" "k \<in> {..<4096 :: nat}"
      and eq: "(0x10000000 + of_nat j * 4096 :: u64) = 0x10000000 + of_nat k * 4096"
    have u: "unat (0x10000000 + of_nat j * 4096 :: u64) = unat (0x10000000 :: u64) + j * 4096"
      "unat (0x10000000 + of_nat k * 4096 :: u64) = unat (0x10000000 :: u64) + k * 4096"
      using jk small_kernel(2) [of "0x10000000" j] small_kernel(2) [of "0x10000000" k] by blast+
    have "unat (0x10000000 :: u64) + j * 4096 = unat (0x10000000 :: u64) + k * 4096"
      unfolding u [symmetric] eq ..
    then show "j = k" by (simp only: add_left_cancel mult_cancel2) simp
  qed
  moreover have "kernel_va small_system (0x10000000 + of_nat k * PAGE_SIZE)" if "k < 4096" for k
    using small_kernel(1) [of "0x10000000" k] that by blast
  moreover have "kernel_va small_system (0x20000000 + of_nat k * PAGE_SIZE)" if "k < 16" for k
    using small_kernel(1) [of "0x20000000" k] that by simp
  ultimately show ?thesis unfolding users_ok_def small_fields b by simp
qed

lemma restrict_insert:
  "{x \<in> insert a A. P x} = (if P a then insert a {x \<in> A. P x} else {x \<in> A. P x})"
  "{x \<in> {}. P x} = {}"
  by auto

lemma small_system_ok: "sys_inv small_system small_pages {}"
proof -
  have "frames_ok small_system"
    by (auto simp: frames_ok_def va_region_ok_def small_vm_def zero_vm_def word_le_nat_alt dest!: five_frames)
  moreover have "book_ok 5 {f. 1 \<le> f \<and> f \<le> 5} {} (book_of small_system)"
  proof -
    let ?B = "book_of small_system"
    have "frame_at (view ?B 0) = Some 1" "frame_at (view ?B 1) = Some 2" "frame_at (view ?B 2) = Some 3"
      by (simp_all add: small_book)
    moreover have "(0 :: nat) < 5" "(1 :: nat) < 5" "(2 :: nat) < 5" by simp_all
    ultimately have "\<exists>i<5. frame_at (view ?B i) = Some f" if "f \<in> {1, 2, 3}" for f using that by blast
    moreover have "entry_ok {1, 2, 3, 4, 5} {} ?B i" for i by (simp add: entry_ok_def small_book)
    ultimately show ?thesis unfolding small_frames
      by (auto simp: book_ok_def small_book(2) split: if_splits)
  qed
  moreover have "paging_inv (paging_of small_system)"
    by (auto simp: paging_inv_def unshared_def paging_of_def small_states small_system_disk split: if_splits)
  moreover have "slots_ok small_system"
    by (auto simp: slots_ok_def small_system_disk small_states split: if_splits)
  moreover have "members_ok small_system small_pages {}"
  proof -
    have "pool small_system small_pages = {FramePfn 4, FramePfn 5}"
      by (auto simp: pool_def cached_by_def small_cache)
    moreover have "caches_ok small_system small_pages"
      by (simp add: caches_ok_def cached_by_def small_cache)
    ultimately show ?thesis
      unfolding members_ok_def small_fields small_frames small_book Diff_empty restrict_insert
      by (simp add: small_pages_def)
  qed
  moreover have "locks_ok small_system {}"
    by (auto simp: locks_ok_def pfn_free_def pte_free_def small_pfns_def split: pfn_ptr.split)
  moreover have "maps_ok small_system {}"
  proof -
    have "(65536 + of_nat i * 4096 = (73728 :: u64)) = (i = 2)" if "i < 5" for i
      using small_va_unat [OF that] by (auto simp: small_va_of word_unat_eq_iff)
    then show ?thesis by (simp add: maps_ok_def small_states small_va_of)
  qed
  ultimately show ?thesis using small_lists_ok small_users_ok by (simp add: sys_inv_def)
qed

text \<open>Windows calls as documented, and other threads that only announce standby pages.\<close>

definition small_os :: os where
  "small_os = \<lparr>MapUserPhysicalPages = (\<lambda>va n frames m. Some (map_list (pages_from va n) frames m)),
     MapUserPhysicalPagesScatter = (\<lambda>vas frames m. Some (map_list vas frames m)),
     QueryPerformanceCounter = (\<lambda>n. of_nat n), others = SetEvent standby_pages_ready_event\<rparr>"

lemma small_os_ok: "awe_spec small_os" "cooperative small_os"
proof -
  show "awe_spec small_os" by (simp add: awe_spec_def small_os_def)
  have "managed s (s\<lparr>events := ev\<rparr>)" for s ev by (intro managed_same) simp_all
  then show "cooperative small_os" by (auto simp: cooperative_def small_os_def prog_simps)
qed

end
