(* ===== verification/Startup.thy ===== *)
theory Startup
  imports Initializer Batch Small_System
begin

text \<open>
  What \<open>initialize_system\<close> builds: from a process as the loader leaves it and the grants of the
  operating system to a machine in the invariant, in which every page is untouched and every frame is
  on a free list or in a cache.  One section per phase of the initialisation.
\<close>

section \<open>What is granted\<close>

text \<open>
  \<open>k\<close> pages at \<open>va\<close>, outside the \<open>n\<close> pages at \<open>b\<close>: two reservations of \<open>VirtualAlloc2\<close> are aligned and
  do not overlap.
\<close>

definition region_apart :: "nat \<Rightarrow> nat \<Rightarrow> u64 \<Rightarrow> nat \<Rightarrow> bool" where
  "region_apart b n va k \<longleftrightarrow> 4096 dvd unat va \<and> unat va + k * 4096 < 2 ^ 64 \<and>
     (unat va + k * 4096 \<le> b \<or> b + n * 4096 \<le> unat va)"

definition frames_granted :: "machine \<Rightarrow> grants \<Rightarrow> u64 list \<Rightarrow> bool" where
  "frames_granted s r fs \<longleftrightarrow> GetPrivilege r \<and> CreateSharedMemorySection r \<noteq> 0 \<and>
     AllocateUserPhysicalPages r (CreateSharedMemorySection r) (allocated_frame_count (vm s)) = Some fs \<and>
     length fs \<le> unat (allocated_frame_count (vm s)) \<and> distinct fs \<and>
     (\<forall>f \<in> set fs. f \<noteq> 0 \<and> unat f < 2 ^ 40)"

definition spaces_granted :: "machine \<Rightarrow> grants \<Rightarrow> u64 \<Rightarrow> nat \<Rightarrow> bool" where
  "spaces_granted s r base n \<longleftrightarrow> application_space r = Some base \<and> 4096 dvd unat base \<and>
     unat base + n * 4096 * 8 < 2 ^ 64 \<and>
     (\<exists>va. write_space r = Some va \<and> region_apart (unat base) n va 4096) \<and>
     (\<forall>t < user_count s. \<exists>va. read_space r t = Some va \<and> region_apart (unat base) n va 16)"

definition objects_granted :: "grants \<Rightarrow> u64 list \<Rightarrow> bool" where
  "objects_granted r fs \<longleftrightarrow> pfn_space r \<and> (\<forall>f \<in> set fs. commit_pfn r f) \<and>
     (\<forall>e. CreateEvent r e) \<and> (\<forall>t. CreateThread r t)"

text \<open>The number of virtual pages, and a process before \<open>initialize_system\<close>.\<close>

definition span :: "machine \<Rightarrow> u64 list \<Rightarrow> nat" where
  "span s fs = nat (VA_SPAN (of_nat (length fs)) (pages_in_page_file (vm s)))"

definition process_start :: "machine \<Rightarrow> bool" where
  "process_start s \<longleftrightarrow> heads s = 0 \<and> committed s = (\<lambda>_. False) \<and> va_map s = (\<lambda>_. None)"


section \<open>Frames and address spaces\<close>

lemma fold_max_ge: "f \<in> set fs \<or> f \<le> a \<Longrightarrow> f \<le> fold max fs (a :: u64)"
proof (induction fs arbitrary: a)
  case (Cons x fs)
  then have "f \<in> set fs \<or> f \<le> max x a" by (metis set_ConsD le_max_iff_disj order_refl)
  from Cons.IH [OF this] show ?case by (simp only: fold_Cons o_apply)
qed simp

lemma fold_min_le: "f \<in> set fs \<or> a \<le> f \<Longrightarrow> fold min fs (a :: u64) \<le> f"
proof (induction fs arbitrary: a)
  case (Cons x fs)
  then have "f \<in> set fs \<or> min x a \<le> f" by (metis set_ConsD min_le_iff_disj order_refl)
  from Cons.IH [OF this] show ?case by (simp only: fold_Cons o_apply)
qed simp

lemma on_vm_run [prog_simps]: "on_vm g s = Inr ((), s\<lparr>vm := g (vm s)\<rparr>)"
  by (simp add: on_vm_def prog_simps)

lemma VA_SPAN_nonneg: "0 \<le> VA_SPAN x y"
  unfolding VA_SPAN_def VA_TO_PHYSICAL_RATIO_def by (subst zero_le_floor) (intro mult_nonneg_nonneg of_nat_0_le_iff, simp)

lemma span_words:
  assumes "n = nat (VA_SPAN x y)" and "unat base + n * 4096 * 8 < 2 ^ 64"
  shows "unat (of_int (VA_SPAN x y) :: u64) = n" and "unat (of_int (VA_SPAN x y) * 4096 :: u64) = n * 4096"
proof -
  have "(of_int (VA_SPAN x y) :: u64) = of_nat n" using assms(1) VA_SPAN_nonneg [of x y] by simp
  moreover from this have "of_int (VA_SPAN x y) * 4096 = (of_nat (n * 4096) :: u64)" by simp
  moreover have "n < 2 ^ 64" "n * 4096 < 2 ^ 64" using assms(2) by simp_all
  ultimately show "unat (of_int (VA_SPAN x y) :: u64) = n" "unat (of_int (VA_SPAN x y) * 4096 :: u64) = n * 4096"
    by (simp_all only: unat_of_nat mod_less len64)
qed

definition frame_setup :: "grants \<Rightarrow> unit mm" where
  "frame_setup r = block
     [initialize_physical_pages r, set_max_frame_number, initialize_shared_page_parameter,
      initialize_user_VA_space r, initialize_kernel_VA_spaces r, make_page_table]"

lemma frame_setup_run:
  assumes fr: "frames_granted s r fs" and sp: "spaces_granted s r base n" and n: "n = span s fs"
  obtains v where "frame_setup r s = Inr ((), s\<lparr>vm := v, ptes := (\<lambda>_. zero_pte)\<rparr>)"
    and "va_region_ok v" and "unat (num_ptes v) = n" and "application_va_base v = base"
    and "write_space r = Some (kernel_write_va v)"
    and "\<forall>f \<in> set fs. min_frame_number v \<le> f \<and> f \<le> max_frame_number v"
    and "take (unat (allocated_frame_count v)) (allocated_frame_numbers v) = fs"
    and "unat (allocated_frame_count v) \<le> length (allocated_frame_numbers v)"
    and "num_user_threads v = num_user_threads (vm s)" and "pages_in_page_file v = pages_in_page_file (vm s)"
    and "iterations v = iterations (vm s)"
proof -
  let ?h = "CreateSharedMemorySection r" let ?count = "allocated_frame_count (vm s)"
  obtain wva where wva: "write_space r = Some wva" using sp by (auto simp: spaces_granted_def)
  have len: "unat (of_nat (length fs) :: u64) = length fs"
  proof -
    have "length fs < 2 ^ 64"
      using fr unsigned_less [of ?count, where ?'a = nat] unfolding frames_granted_def by simp
    then show ?thesis by (simp only: unat_of_nat mod_less len64)
  qed
  define span_bytes :: u64 where "span_bytes = of_int (VA_SPAN (of_nat (length fs)) (pages_in_page_file (vm s))) * 4096"
  define v1 where "v1 = (vm s)\<lparr>physical_page_handle := ?h,
      allocated_frame_numbers := fs @ replicate (unat ?count - length fs) 0,
      allocated_frame_count := of_nat (length fs)\<rparr>"
  have 1: "initialize_physical_pages r s = Inr ((), s\<lparr>vm := v1\<rparr>)"
    using fr by (simp add: initialize_physical_pages_def frames_granted_def prog_simps v1_def)
  have frames: "allocated_frames (s\<lparr>vm := v1\<rparr>) = Inr (fs, s\<lparr>vm := v1\<rparr>)"
    using len by (simp add: allocated_frames_def prog_simps v1_def)
  define v where "v = v1\<lparr>max_frame_number := fold max fs 0, min_frame_number := fold min fs (NOT 0),
      virtual_alloc_shared_parameter := \<lparr>parameter_type = UserPhysicalHandle, parameter_value = ?h\<rparr>,
      va_size_in_bytes := span_bytes, va_size_in_pointers := span_bytes div 8, application_va_base := base,
      kernel_write_va := wva, num_ptes := span_bytes div 4096\<rparr>"
  have run: "frame_setup r s = Inr ((), s\<lparr>vm := v, ptes := (\<lambda>_. zero_pte)\<rparr>)"
    using 1 frames sp wva
    by (simp add: frame_setup_def prog_simps set_max_frame_number_def initialize_shared_page_parameter_def
        initialize_user_VA_space_def initialize_kernel_VA_spaces_def make_page_table_def Let_def null_check_def
        spaces_granted_def initialize_page_table_def v_def v1_def span_bytes_def)
  have bytes: "unat span_bytes = n * 4096"
    using span_words(2) [of n "of_nat (length fs)" "pages_in_page_file (vm s)" base] n sp
    by (simp add: span_def spaces_granted_def span_bytes_def)
  have ptes: "unat (span_bytes div 4096) = n" using bytes by (simp add: unat_div)
  have sizes: "span_bytes = span_bytes div 4096 * 4096" "span_bytes div 8 = span_bytes div 4096 * 512"
  proof -
    have *: "n * 4096 < 2 ^ 64" "n * 512 < 2 ^ 64" using sp by (simp_all add: spaces_granted_def)
    have w: "span_bytes div 4096 = of_nat n" by (simp flip: ptes)
    have "unat (of_nat (n * 4096) :: u64) = n * 4096" "unat (of_nat (n * 512) :: u64) = n * 512"
      using * by (simp_all only: unat_of_nat mod_less len64)
    moreover have "unat (span_bytes div 8) = n * 512" using bytes by (simp add: unat_div)
    ultimately show "span_bytes = span_bytes div 4096 * 4096" "span_bytes div 8 = span_bytes div 4096 * 512"
      unfolding w using bytes by (simp_all add: word_unat_eq_iff)
  qed
  have "va_region_ok v"
    using sizes ptes sp by (simp add: va_region_ok_def v_def spaces_granted_def)
  moreover have "\<forall>f \<in> set fs. min_frame_number v \<le> f \<and> f \<le> max_frame_number v"
    using fold_max_ge fold_min_le by (auto simp: v_def)
  ultimately show thesis using len ptes wva that [OF run] by (simp add: v_def v1_def)
qed


section \<open>Lists and descriptors\<close>

text \<open>\<open>kept s u\<close>: what the phases after the first leave alone.\<close>

definition kept :: "machine \<Rightarrow> machine \<Rightarrow> bool" where
  "kept s u \<longleftrightarrow> vm u = vm s \<and> ptes u = ptes s \<and> va_map u = va_map s \<and>
     pte_to_trim u = pte_to_trim s \<and> events u = events s"

lemma kept_trans: "kept s t \<Longrightarrow> kept t u \<Longrightarrow> kept s u"
  by (simp add: kept_def)

lemma kept_refl [simp]: "kept s s"
  by (simp add: kept_def)

definition fresh_list :: "machine \<Rightarrow> list_id \<Rightarrow> nat \<Rightarrow> bool" where
  "fresh_list s l n \<longleftrightarrow> n < heads s \<and>
     lists s l = \<lparr>head = HeadPfn n, list_size = 0, shared_holders = 0, held_exclusive = False\<rparr> \<and>
     pfns s (HeadPfn n) = zero_pfn\<lparr>blink := HeadPfn n, flink := HeadPfn n\<rparr>"

definition heads_free :: "machine \<Rightarrow> bool" where
  "heads_free s \<longleftrightarrow> (\<forall>n < heads s. lock_of (pfns s (HeadPfn n)) = 0)"

lemma fresh_list_run:
  assumes "heads_free s"
  obtains u where "initialize_page_list l s = Inr ((), u)" and "fresh_list u l (heads s)"
    and "\<And>k n. k \<noteq> l \<Longrightarrow> fresh_list s k n \<Longrightarrow> fresh_list u k n" and "heads u = Suc (heads s)"
    and "heads_free u" and "kept s u" and "committed u = committed s" and "free_lists u = free_lists s"
proof
  let ?n = "heads s"
  let ?u = "s\<lparr>heads := ?n + 1,
     pfns := (pfns s)(HeadPfn ?n := zero_pfn\<lparr>blink := HeadPfn ?n, flink := HeadPfn ?n\<rparr>),
     lists := (lists s)(l := \<lparr>head = HeadPfn ?n, list_size = 0, shared_holders = 0, held_exclusive = False\<rparr>)\<rparr>"
  show "initialize_page_list l s = Inr ((), ?u)" by (rule initialize_page_list_run)
  show "heads_free ?u" using assms by (simp add: heads_free_def less_Suc_eq lock_of_def zero_pfn_def get_lock_def get_bits_def)
qed (simp_all add: fresh_list_def kept_def)

lemma fresh_free_lists_run:
  assumes "heads_free s"
  shows "\<exists>u. for_each [0..<k] (\<lambda>i. initialize_page_list (free_list i)) s = Inr ((), u) \<and>
     (\<forall>i < k. fresh_list u (free_list i) (heads s + i)) \<and>
     (\<forall>l n. fresh_list s l n \<longrightarrow> l \<notin> free_list ` {..<k} \<longrightarrow> fresh_list u l n) \<and> heads u = heads s + k \<and>
     heads_free u \<and> kept s u \<and> committed u = committed s \<and> free_lists u = free_lists s"
proof (induction k)
  case 0
  show ?case using assms by (simp add: prog_simps)
next
  case (Suc k)
  then obtain t where t: "for_each [0..<k] (\<lambda>i. initialize_page_list (free_list i)) s = Inr ((), t)"
    "\<forall>i < k. fresh_list t (free_list i) (heads s + i)"
    "\<forall>l n. fresh_list s l n \<longrightarrow> l \<notin> free_list ` {..<k} \<longrightarrow> fresh_list t l n" "heads t = heads s + k"
    "heads_free t" "kept s t" "committed t = committed s" "free_lists t = free_lists s"
    by blast
  obtain u where u: "initialize_page_list (free_list k) t = Inr ((), u)" "fresh_list u (free_list k) (heads t)"
    "\<And>j n. j \<noteq> free_list k \<Longrightarrow> fresh_list t j n \<Longrightarrow> fresh_list u j n" "heads u = Suc (heads t)"
    "heads_free u" "kept t u" "committed u = committed t" "free_lists u = free_lists t"
    using fresh_list_run [OF t(5)] by blast
  have "for_each [0..<Suc k] (\<lambda>i. initialize_page_list (free_list i)) s = Inr ((), u)"
    using t(1) u(1) by (simp add: for_each_append prog_simps)
  moreover have "fresh_list u (free_list i) (heads s + i)" if "i < Suc k" for i
    using that u(2,3) t(2,4) by (cases "i = k") auto
  moreover have "fresh_list u l n" if "fresh_list s l n" "l \<notin> free_list ` {..<Suc k}" for l n
  proof -
    have "l \<noteq> free_list k" "l \<notin> free_list ` {..<k}" using that(2) by auto
    then show ?thesis using u(3) t(3) that(1) by blast
  qed
  ultimately show ?case using u(4-8) t(4,6-8) kept_trans by auto
qed

text \<open>The lists of the running system, empty.\<close>

definition list_place :: "list_id \<Rightarrow> nat" where
  "list_place l = (case l of zero_list \<Rightarrow> 0 | modified_list \<Rightarrow> 1 | standby_list \<Rightarrow> 2 | free_list i \<Rightarrow> 3 + i | temp_list i \<Rightarrow> 0)"

lemma page_lists_run:
  assumes "heads s = 0"
  obtains u where "initialize_page_lists s = Inr ((), u)" and "\<forall>l \<in> core_lists u. fresh_list u l (list_place l)"
    and "number_of_lists (free_lists u) = 16" and "free_list_locks (free_lists u) = 0"
    and "heads_free u" and "kept s u" and "committed u = committed s"
proof -
  have "heads_free s" using assms by (simp add: heads_free_def)
  then obtain a where a: "initialize_page_list zero_list s = Inr ((), a)" "heads a = 1" "heads_free a" "kept s a"
      "committed a = committed s"
    using assms fresh_list_run by (metis One_nat_def)
  then obtain b where b: "initialize_page_list modified_list a = Inr ((), b)" "fresh_list b modified_list 1"
      "heads b = 2" "heads_free b" "kept s b" "committed b = committed s"
    using fresh_list_run [of a modified_list] kept_trans [OF a(4)] by (metis Suc_1)
  obtain c where c: "initialize_page_list standby_list b = Inr ((), c)" "fresh_list c standby_list 2"
      "\<And>k n. k \<noteq> standby_list \<Longrightarrow> fresh_list b k n \<Longrightarrow> fresh_list c k n"
      "heads c = 3" "heads_free c" "kept b c" "committed c = committed b"
    using fresh_list_run [OF b(4), of standby_list] b(3) by (metis eval_nat_numeral(3))
  let ?d = "c\<lparr>free_lists := (free_lists c)\<lparr>number_of_lists := 16, page_count := 0, free_list_locks := 0\<rparr>\<rparr>"
  have d: "heads_free ?d" "heads ?d = 3" "fresh_list ?d l n = fresh_list c l n" for l n
    using c(4,5) by (simp_all add: heads_free_def fresh_list_def)
  obtain u where u: "for_each [0..<16] (\<lambda>i. initialize_page_list (free_list i)) ?d = Inr ((), u)"
      "\<forall>i < 16. fresh_list u (free_list i) (3 + i)"
      "\<forall>l n. fresh_list c l n \<longrightarrow> l \<notin> free_list ` {..<16} \<longrightarrow> fresh_list u l n" "heads_free u" "kept ?d u"
      "committed u = committed ?d" "free_lists u = free_lists ?d"
    using fresh_free_lists_run [OF d(1), of 16] unfolding d(2,3) by blast
  have sixteen: "unat FREE_LIST_COUNT = 16" by simp
  show thesis
  proof (rule that)
    show "initialize_page_lists s = Inr ((), u)"
      unfolding initialize_page_lists_def sixteen using a(1) b(1) c(1) u(1) by (simp add: prog_simps)
    have "modified_list \<notin> free_list ` {..<16}" "standby_list \<notin> free_list ` {..<16}" by auto
    then have "fresh_list u modified_list 1" "fresh_list u standby_list 2" using u(3) c(2) c(3) [OF _ b(2)] by auto
    then show "\<forall>l \<in> core_lists u. fresh_list u l (list_place l)"
      using u(2,7) by (auto simp: core_lists_def list_place_def)
    show "kept s u" using b(5) c(6) u(5) by (simp add: kept_def)
  qed (use u c b in simp_all)
qed

text \<open>\<open>C\<close> gives the pages of the free lists; every committed frame is on one of them.\<close>

definition stocked :: "machine \<Rightarrow> (list_id \<Rightarrow> pfn_ptr list) \<Rightarrow> bool" where
  "stocked s C \<longleftrightarrow> lists_ok s C \<and> locks_ok s {} \<and> listed s C = FramePfn ` frames s \<and>
     C modified_list = [] \<and> C standby_list = [] \<and> number_of_lists (free_lists s) = 16 \<and>
     (\<forall>f \<in> frames s. status_of (pfns s (FramePfn f)) = PFN_FREE)"

lemma stocked_empty:
  assumes l: "\<forall>l \<in> core_lists u. fresh_list u l (list_place l)" and n: "number_of_lists (free_lists u) = 16"
    and "free_list_locks (free_lists u) = 0" and h: "heads_free u" and none: "committed u = (\<lambda>_. False)"
    and ptes: "ptes u = (\<lambda>_. zero_pte)"
  shows "stocked u (\<lambda>_. [])"
proof -
  have wf: "wf_list u l []" "list_free u l" "\<exists>k < heads u. head (lists u l) = HeadPfn k" if "l \<in> core_lists u" for l
    using l that by (auto simp: fresh_list_def wf_list_def dll_Nil pfn_ok_def list_free_def)
  have "inj_on (\<lambda>l. head (lists u l)) (core_lists u)"
  proof (rule inj_onI)
    fix j k assume jk: "j \<in> core_lists u" "k \<in> core_lists u" "head (lists u j) = head (lists u k)"
    then have "list_place j = list_place k" using l by (simp add: fresh_list_def)
    then show "j = k" using jk(1,2) by (auto simp: list_place_def core_lists_def)
  qed
  moreover have "list_size (lists u modified_list) = 0" "list_size (lists u standby_list) = 0"
    using l by (simp_all add: fresh_list_def core_lists_def)
  ultimately have "lists_ok u (\<lambda>_. [])" using wf n assms(3) by (simp add: lists_ok_def)
  moreover have "locks_ok u {}"
    using h by (intro locks_okI)
      (auto simp: pfn_ok_def none heads_free_def ptes zero_pte_def initialize_byte_lock_def split: pfn_ptr.splits)
  ultimately show ?thesis using none by (simp add: stocked_def listed_def frames_def n)
qed

text \<open>One turn of the loop over the frames.\<close>

definition stock_frame :: "u64 \<Rightarrow> nat \<Rightarrow> machine \<Rightarrow> machine" where
  "stock_frame f i s = s\<lparr>committed := (committed s)(f := True),
     pfns := append_page (head (lists s (free_list i))) (FramePfn f) (on_cell (FramePfn f) create_zeroed_pfn (pfns s)),
     lists := resize (free_list i) 1 (lists s),
     free_lists := page_count_update (\<lambda>n. n + 1) (free_lists s)\<rparr>"

lemma stock_frame_run:
  assumes st: "stocked s C" and i: "unat i < 16" and r: "commit_pfn r f"
  shows "add_frames r (f # fs) i 16 s = add_frames r fs ((i + 1) mod 16) 16 (stock_frame f (unat i) s)"
proof -
  let ?h = "head (lists s (free_list (unat i)))"
  have ok: "lists_ok s C" using st by (simp add: stocked_def)
  have core: "free_list (unat i) \<in> core_lists s" using st i by (auto simp: stocked_def core_lists_def)
  note wf = core_wf [OF ok core]
  obtain j where j: "?h = HeadPfn j" using core_head [OF ok core] by blast
  let ?t = "s\<lparr>committed := (committed s)(f := True), pfns := on_cell (FramePfn f) create_zeroed_pfn (pfns s)\<rparr>"
  have grow: "pfn_ok ?t p" if "pfn_ok s p" for p using that by (simp add: pfn_ok_def split: pfn_ptr.splits)
  have "pfn_ok ?t ?h" using wf_list_head [OF wf] by (rule grow)
  moreover have "blink (pfns ?t ?h) = blink (pfns s ?h)" using j by (simp add: on_cells_def)
  then have "pfn_ok ?t (blink (pfns ?t ?h))"
    using grow wf_list_ends(2) [OF wf] dll_ends(2) [OF wf_list_dll [OF wf]] by simp
  moreover have "pfn_ok (s\<lparr>committed := (committed s)(f := True)\<rparr>) (FramePfn f)" by (simp add: pfn_ok_def)
  ultimately show ?thesis
    using r by (simp add: prog_simps checked_mod_def increment_free_lists_total_count_def stock_frame_def)
qed

lemma stock_frame_stocked:
  assumes st: "stocked s C" and i: "i < 16" and f: "f \<notin> frames s" "unat f < 2 ^ 40"
  shows "stocked (stock_frame f i s) (C(free_list i := C (free_list i) @ [FramePfn f]))"
    and "frames (stock_frame f i s) = insert f (frames s)"
proof -
  let ?l = "free_list i" let ?h = "head (lists s ?l)" and ?u = "stock_frame f i s"
  let ?m = "on_cell (FramePfn f) create_zeroed_pfn (pfns s)"
  show fr: "frames ?u = insert f (frames s)" by (auto simp: frames_def stock_frame_def)
  have n: "number_of_lists (free_lists s) = 16" and ok: "lists_ok s C" and locks: "locks_ok s {}"
    and listed: "listed s C = FramePfn ` frames s" using st by (simp_all add: stocked_def)
  have core: "?l \<in> core_lists s" using n i by (auto simp: core_lists_def)
  have wf: "wf_list s ?l (C ?l)" by (rule core_wf [OF ok core])
  obtain j where j: "?h = HeadPfn j" "j < heads s" using core_head [OF ok core] by blast
  have unlisted: "FramePfn f \<notin> set (C k)" if "k \<in> core_lists s" for k
    using that listed f(1) st n by (auto simp: core_lists_def listed_def stocked_def)
  have dll: "dll ?m ?h (C ?l)"
    using wf_list_dll [OF wf] j unlisted [OF core] by simp
  then have new: "dll (append_page ?h (FramePfn f) ?m) ?h (C ?l @ [FramePfn f])"
    using j unlisted [OF core] by (intro dll_append) auto
  have data: "lock_of (pfns ?u p) = lock_of (?m p)" "status_of (pfns ?u p) = status_of (?m p)" for p
    by (simp_all add: stock_frame_def append_page_def on_cells_def lock_of_def status_of_def)
  have "lists_ok ?u (C(?l := C ?l @ [FramePfn f]))"
  proof (rule lists_ok_rewrite [OF ok core, where X = "{FramePfn f}"])
    show "same_lists s ?u"
      using core_free [OF ok] by (auto simp: same_lists_def stock_frame_def list_free_def pfn_ok_def split: pfn_ptr.splits)
    show "wf_list ?u ?l (C ?l @ [FramePfn f])"
      using new wf by (auto simp: wf_list_def stock_frame_def pfn_ok_def split: pfn_ptr.splits)
    show "flink (pfns ?u p) = flink (pfns s p) \<and> blink (pfns ?u p) = blink (pfns s p)"
      if "p \<notin> set (?h # C ?l) \<union> {FramePfn f}" for p
    proof -
      have "append_page ?h (FramePfn f) ?m p = ?m p" using that by (intro append_page_other [OF dll]) auto
      then show ?thesis using that by (simp add: stock_frame_def on_cells_def)
    qed
    show "frame_page p \<and> (k \<in> core_lists s \<longrightarrow> k \<noteq> ?l \<longrightarrow> p \<notin> set (C k))" if "p \<in> {FramePfn f}" for p k
      using that f(2) unlisted by (simp add: frame_page_def)
    show "list_size (lists ?u modified_list) = of_nat (length ((C(?l := C ?l @ [FramePfn f])) modified_list))"
      "list_size (lists ?u standby_list) = of_nat (length ((C(?l := C ?l @ [FramePfn f])) standby_list))"
      using ok by (simp_all add: lists_ok_def stock_frame_def resize_def)
  qed auto
  moreover have "locks_ok ?u {}"
  proof (rule locks_okI)
    show "lock_of (pfns ?u p) = 0" if "pfn_ok ?u p" "p \<notin> FramePfn ` {}" for p
    proof (cases "p = FramePfn f")
      case False
      then have "pfn_ok s p" using that by (simp add: stock_frame_def pfn_ok_def split: pfn_ptr.splits)
      then show ?thesis using False locks_okD(3) [OF locks] by (simp add: data on_cells_def)
    qed (simp add: data on_cells_def)
    show "pte_lock (ptes ?u k) = 0" if "k < entries ?u" for k
      using that locks_okD(4) [OF locks] by (simp add: stock_frame_def entries_def)
  qed simp_all
  moreover have "listed ?u (C(?l := C ?l @ [FramePfn f])) = FramePfn ` frames ?u"
  proof -
    have "listed ?u (C(?l := C ?l @ [FramePfn f])) = insert (FramePfn f) (listed s C)"
      using i n by (auto simp: listed_def stock_frame_def split: if_splits)
    then show ?thesis using fr listed by simp
  qed
  moreover have "status_of (pfns ?u (FramePfn g)) = PFN_FREE" if "g \<in> frames ?u" for g
    using that fr st by (auto simp: data on_cells_def stocked_def)
  ultimately show "stocked ?u (C(?l := C ?l @ [FramePfn f]))"
    using st by (simp add: stocked_def stock_frame_def)
qed

lemma add_frames_run:
  assumes "stocked s C" and "unat i < 16" and "set fs \<inter> frames s = {}" and "distinct fs"
    and "\<forall>f \<in> set fs. unat f < 2 ^ 40 \<and> commit_pfn r f"
  shows "\<exists>u C. add_frames r fs i 16 s = Inr ((), u) \<and> stocked u C \<and> frames u = set fs \<union> frames s \<and> kept s u"
  using assms
proof (induction fs arbitrary: s C i)
  case Nil
  then show ?case by (auto simp: prog_simps)
next
  case (Cons f fs)
  let ?u = "stock_frame f (unat i) s"
  have f: "f \<notin> frames s" "unat f < 2 ^ 40" using Cons.prems by auto
  note new = stock_frame_stocked [OF Cons.prems(1,2) f]
  have i: "unat ((i + 1) mod 16) < 16" by (simp add: unat_mod)
  have fs: "set fs \<inter> frames ?u = {}" "distinct fs" "\<forall>f \<in> set fs. unat f < 2 ^ 40 \<and> commit_pfn r f"
    using Cons.prems(3-5) new(2) by auto
  from Cons.IH [OF new(1) i fs] obtain u C' where u: "add_frames r fs ((i + 1) mod 16) 16 ?u = Inr ((), u)" "stocked u C'"
    "frames u = set fs \<union> frames ?u" "kept ?u u" by blast
  moreover have "kept s ?u" by (simp add: kept_def stock_frame_def)
  moreover have "add_frames r (f # fs) i 16 s = Inr ((), u)"
    using stock_frame_run [OF Cons.prems(1,2), of r f fs] Cons.prems(5) u(1) by (simp del: add_frames.simps)
  ultimately show ?case using new(2) kept_trans by (intro exI [of _ u] exI [of _ C']) auto
qed


section \<open>The first state of the invariant\<close>

text \<open>The machine with the first \<open>n\<close> user threads only: the invariant while the threads are set up.\<close>

definition with_users :: "nat \<Rightarrow> machine \<Rightarrow> machine" where
  "with_users n s = s\<lparr>vm := (vm s)\<lparr>num_user_threads := of_nat n\<rparr>\<rparr>"

lemma with_users_fields [simp]:
  "stats (with_users n s) = stats s" "pf (with_users n s) = pf s" "ptes (with_users n s) = ptes s"
  "pfns (with_users n s) = pfns s" "committed (with_users n s) = committed s" "heads (with_users n s) = heads s"
  "lists (with_users n s) = lists s" "free_lists (with_users n s) = free_lists s" "va_map (with_users n s) = va_map s"
  "ram (with_users n s) = ram s" "users (with_users n s) = users s" "spin (with_users n s) = spin s"
  "entries (with_users n s) = entries s" "frames (with_users n s) = frames s" "book_of (with_users n s) = book_of s"
  "core_lists (with_users n s) = core_lists s" "listed (with_users n s) C = listed s C"
  "cache (with_users n s) t = cache s t" "cached_by (with_users n s) t = cached_by s t"
  "application_va_base (vm (with_users n s)) = application_va_base (vm s)"
  "kernel_write_va (vm (with_users n s)) = kernel_write_va (vm s)" "pfn_ok (with_users n s) p = pfn_ok s p"
  by (simp_all add: with_users_def entries_def frames_def book_of_def core_lists_def listed_def cache_def
      cached_by_def pfn_ok_def split: pfn_ptr.split)

lemma with_users_count: "n < 2 ^ 32 \<Longrightarrow> user_count (with_users n s) = n"
proof -
  assume "n < 2 ^ 32"
  then have "unat (of_nat n :: u32) = n" by (simp only: unat_of_nat mod_less len_num1 len_bit0) simp
  then show ?thesis by (simp add: with_users_def user_count_def)
qed

lemma with_users_all: "with_users (user_count s) s = s"
  by (simp add: with_users_def user_count_def)

lemma with_users_states [simp]: "page_states (with_users n s) = page_states s" "paging_of (with_users n s) = paging_of s"
  by (simp_all add: page_states_def paging_of_def)

lemma with_users_region [simp]:
  "va_region_ok (vm (with_users n s)) = va_region_ok (vm s)" "va_of (vm (with_users n s)) i = va_of (vm s) i"
  "pf_inv (vm (with_users n s)) t = pf_inv (vm s) t" "kernel_va (with_users n s) va = kernel_va s va"
  "min_frame_number (vm (with_users n s)) = min_frame_number (vm s)"
  "max_frame_number (vm (with_users n s)) = max_frame_number (vm s)"
  by (simp_all add: with_users_def va_region_ok_def va_of_def pf_inv_def pf_shape_def kernel_va_def entries_def)

lemma with_users_parts [simp]:
  "lists_ok (with_users n s) C = lists_ok s C" "locks_ok (with_users n s) K = locks_ok s K"
  "frames_ok (with_users n s) = frames_ok s" "slots_ok (with_users n s) = slots_ok s"
  "maps_ok (with_users n s) K = maps_ok s K"
  by (simp_all add: lists_ok_def wf_list_def list_free_def locks_ok_def pfn_held_def pfn_free_def pte_free_def
      frames_ok_def slots_ok_def maps_ok_def)

text \<open>Before the first thread is set up.\<close>

lemma untouched_states:
  assumes "ptes s = (\<lambda>_. zero_pte)"
  shows "view (book_of s) i = ZeroedView" and "page_states s = (\<lambda>_. Untouched)"
proof -
  show view: "view (book_of s) i = ZeroedView" for i by (simp add: book_of_def assms zero_pte_def ZERO_PTE_def)
  show "page_states s = (\<lambda>_. Untouched)" by (simp add: page_states_def entry_state_def view fun_eq_iff)
qed

lemma stocked_sys:
  assumes st: "stocked s C" and fr: "frames_ok s" and pf: "pf_inv (vm s) (pf s)" and zero: "ptes s = (\<lambda>_. zero_pte)"
    and none: "va_map s = (\<lambda>_. None)" and wva: "\<forall>k < 4096. kernel_va s (kernel_write_va (vm s) + of_nat k * PAGE_SIZE)"
    and inj: "inj_on (\<lambda>k. kernel_write_va (vm s) + of_nat k * PAGE_SIZE) {..<4096}"
  shows "sys_inv (with_users 0 s) C {}" and "page_states s = (\<lambda>_. Untouched)"
proof -
  note view = untouched_states(1) [OF zero] and states = untouched_states(2) [OF zero]
  show "page_states s = (\<lambda>_. Untouched)" by (rule states)
  have free: "fstatus (book_of s) f = PFN_FREE" if "f \<in> frames s" for f
    using st that by (simp add: stocked_def book_of_def)
  have n0: "user_count (with_users 0 s) = 0" by (simp add: with_users_count)
  have "book_ok (entries s) (frames s) {} (book_of s)" by (simp add: book_ok_def entry_ok_def view free)
  moreover have "paging_inv (paging_of s)" by (simp add: paging_inv_def paging_of_def states unshared_def)
  moreover have "slots_ok s" using pf by (simp add: slots_ok_def states)
  moreover have "members_ok (with_users 0 s) C {}"
    using st free by (auto simp: members_ok_def stocked_def pool_def n0 caches_ok_def)
  moreover have "maps_ok s {}" by (simp add: maps_ok_def states none)
  moreover have "users_ok (with_users 0 s)" using wva inj by (simp add: users_ok_def n0)
  ultimately show "sys_inv (with_users 0 s) C {}" using st fr by (simp add: sys_inv_def stocked_def)
qed

text \<open>One more thread, whose cache is empty.\<close>

lemma with_user_sys:
  assumes inv: "sys_inv (with_users t s) C {}" and t: "Suc t < 2 ^ 32" and x: "free_page_count x = 0" "kernel_va_index x = 0"
    and va: "\<forall>k < 16. kernel_va s (kernel_va_space x + of_nat k * PAGE_SIZE)"
  shows "sys_inv (with_users (Suc t) (s\<lparr>ticks := n, users := (users s)(t := x)\<rparr>)) C {}"
proof -
  define u where "u = s\<lparr>ticks := n, users := (users s)(t := x)\<rparr>"
  have f: "vm u = vm s" "pf u = pf s" "ptes u = ptes s" "pfns u = pfns s" "committed u = committed s" "heads u = heads s"
    "lists u = lists s" "free_lists u = free_lists s" "va_map u = va_map s" "ram u = ram s"
    "users u = (users s)(t := x)" by (simp_all add: u_def)
  have b: "book_of u = book_of s" "entries u = entries s" "frames u = frames s" "listed u C = listed s C"
    "kernel_va u va = kernel_va s va" "core_lists u = core_lists s" "pfn_ok u p = pfn_ok s p" for va p
    by (simp_all add: u_def listed_def kernel_va_def core_lists_def entries_def pfn_ok_def split: pfn_ptr.split)
  have st: "page_states u = page_states s" "paging_of u = paging_of s"
    by (simp_all add: page_states_def paging_of_def b f)
  have n: "user_count (with_users t s) = t" "user_count (with_users (Suc t) u) = Suc t"
    using t by (simp_all add: with_users_count)
  note inv' = sys_invD [OF inv]
  have cache: "cache u t = []" "\<And>t'. t' \<noteq> t \<Longrightarrow> cache u t' = cache s t'"
    using x by (simp_all add: cache_def f)
  have cby: "cached_by u t' = (if t' = t then {} else cached_by s t')" for t'
    using cache by (simp add: cached_by_def)
  have "caches_ok (with_users (Suc t) u) C"
    using inv'(6) cache unfolding members_ok_def caches_ok_def n
    by (auto simp: less_Suc_eq cby b)
  moreover have "pool (with_users (Suc t) u) C = pool (with_users t s) C"
    unfolding pool_def n by (auto simp: less_Suc_eq cby b split: if_splits)
  ultimately have "members_ok (with_users (Suc t) u) C {}"
    using inv'(6) by (simp add: members_ok_def b)
  moreover have "users_ok (with_users (Suc t) u)"
    using inv'(9) x va unfolding users_ok_def n by (auto simp: less_Suc_eq f b)
  moreover have "lists_ok u C" "locks_ok u {}" "frames_ok u" "slots_ok u" "maps_ok u {}"
    using inv'(1,4,5,7,8)
    by (simp_all add: lists_ok_def wf_list_def list_free_def locks_ok_def pfn_held_def pfn_free_def pte_free_def
      frames_ok_def slots_ok_def maps_ok_def f b st)
  ultimately show ?thesis using inv'(2,3) by (simp add: sys_inv_def b st flip: u_def)
qed


section \<open>Threads\<close>

text \<open>A batch off a free list goes into the cache and is unlocked.\<close>

lemma fill_batch_run:
  assumes wf: "wf_list s l xs" and locks: "unlocked_pfns s (set xs)" and k: "0 < k" "k \<le> 64" "k \<le> length xs"
    and d: "d = batch_removed l xs k (s\<lparr>free_lists := f\<rparr>)"
  shows "fill_cache k t 0 (hd xs) d = Inr ((), (set_cache t (cache_from 0 (take k xs) (free_page_cache (users s t))) s)
      \<lparr>pfns := cut_front (head (lists s l)) (hd (drop k xs @ [head (lists s l)])) (pfns s),
       lists := resize l (- of_nat k) (lists s), free_lists := f\<rparr>)"
proof -
  let ?h = "head (lists s l)" let ?P = "cut_front ?h (hd (drop k xs @ [?h])) (pfns s)"
  have p: "pfns d = on_cells (set (take k xs)) locked_pfn ?P" "users d = users s"
    by (simp_all add: d batch_removed_def Let_def)
  have unl: "on_cells (set (take k xs)) unlocked_pfn (pfns d) = ?P"
    using locks unfolding p by (subst unlock_locked) (auto simp: unlocked_pfns_def pfn_free_def dest: in_set_takeD)
  have "linked (pfns d) (take k xs)" unfolding p using batch_linked [OF wf_list_dll [OF wf]] by simp
  moreover have "distinct (take k xs)" using dll_distinct [OF wf_list_dll [OF wf]] by simp
  moreover have "\<forall>p \<in> set (take k xs). pfn_ok d p \<and> pfn_held d p"
  proof
    fix q assume "q \<in> set (take k xs)"
    moreover have "pfn_ok d q = pfn_ok s q" by (simp add: d batch_removed_def Let_def)
    ultimately show "pfn_ok d q \<and> pfn_held d q"
      using wf by (auto simp: pfn_held_def p wf_list_def dest: in_set_takeD)
  qed
  moreover have "hd xs = hd (take k xs)" using k(1) by (simp add: hd_take)
  moreover have len: "length (take k xs) = k" using k(3) by simp
  moreover have "0 + length (take k xs) \<le> 64" using k(2) unfolding len by simp
  ultimately have "fill_cache (length (take k xs)) t 0 (hd xs) d =
      Inr ((), (set_cache t (cache_from 0 (take k xs) (free_page_cache (users d t))) d)
        \<lparr>pfns := on_cells (set (take k xs)) unlocked_pfn (pfns d)\<rparr>)"
    by (intro fill_cache_run) assumption+
  then have "fill_cache k t 0 (hd xs) d =
      Inr ((), (set_cache t (cache_from 0 (take k xs) (free_page_cache (users s t))) d)\<lparr>pfns := ?P\<rparr>)"
    unfolding unl len p(2) .
  then show ?thesis by (simp add: d batch_removed_def set_cache_def Let_def)
qed

lemma user_thread_run:
  assumes inv: "sys_inv (with_users t s) C {}" and t: "Suc t < 2 ^ 32" and zero: "users s t = zero_user"
    and n: "number_of_lists (free_lists s) = 16" and r: "read_space r t = Some va"
    and va: "\<forall>k < 16. kernel_va s (va + of_nat k * PAGE_SIZE)"
  shows "\<exists>u C'. initialize_user_thread w r t s = Inr ((), u) \<and> sys_inv (with_users (Suc t) u) C' {} \<and>
     (\<forall>t'. t' \<noteq> t \<longrightarrow> users u t' = users s t') \<and> kept s u \<and> frames u = frames s \<and>
     number_of_lists (free_lists u) = 16"
proof -
  define x where "x = zero_user\<lparr>kernel_va_space := va, thread_id := of_nat t,
      random_seed := initial_seed (QueryPerformanceCounter w (ticks s)) t\<rparr>"
  define s1 where "s1 = s\<lparr>ticks := ticks s + 1, users := (users s)(t := x)\<rparr>"
  define j where "j = unat ((of_nat t :: u32) mod 16)"
  let ?l = "free_list j" let ?xs = "C ?l" let ?h = "head (lists s ?l)"
  have x: "free_page_count x = 0" "kernel_va_index x = 0" "kernel_va_space x = va" by (simp_all add: x_def zero_user_def)
  have j: "j < 16" by (simp add: j_def unat_mod)
  have inv1: "sys_inv (with_users (Suc t) s1) C {}"
    unfolding s1_def by (rule with_user_sys [OF inv t x(1,2)]) (use va x(3) in simp)
  note inv' = sys_invD [OF inv1]
  have core: "?l \<in> core_lists s1" using j n by (auto simp: core_lists_def s1_def)
  have lists: "lists_ok s1 C" using inv'(5) by simp
  note wf = core_wf [OF lists core]
  have free: "unlocked_pfns s1 (set ?xs)"
    using wf locks_okD(3) [OF inv'(7)] by (auto simp: unlocked_pfns_def pfn_free_def wf_list_def)
  have small: "length ?xs < 2 ^ 64"
    using frames_bounded [of ?xs] core_frame [OF lists core] wf_list_dll [OF wf] by (fastforce simp: dll_def)
  have cap: "unat (ucast FREE_PAGE_CACHE_SIZE :: u64) = 64" by simp
  have start: "initialize_user_thread w r t s =
      bind (remove_batch_from_list_head_exclusive ?l (ucast FREE_PAGE_CACHE_SIZE)) (\<lambda>(num_pages, first_page). block
       [on_free_lists (page_count_update (\<lambda>n. n - num_pages)),
        fill_cache (unat num_pages) t 0 first_page,
        on_user t (free_page_count_update (\<lambda>_. ucast num_pages))]) s1"
    using r n zero by (simp add: initialize_user_thread_def prog_simps checked_mod_def s1_def x_def j_def)
  note batch = remove_batch_exclusive_run [OF wf free _ small, of "ucast FREE_PAGE_CACHE_SIZE", unfolded cap]
  show ?thesis
  proof (cases "?xs = []")
    case True
    define u where "u = s1\<lparr>free_lists := page_count_update (\<lambda>n. n - 0) (free_lists s1),
        users := (users s1)(t := (users s1 t)\<lparr>free_page_count := 0\<rparr>)\<rparr>"
    have same: "(users s1)(t := (users s1 t)\<lparr>free_page_count := 0\<rparr>) = users s1"
      using x(1) by (cases "users s1 t") (auto simp: s1_def fun_eq_iff)
    have same': "page_count_update (\<lambda>n. n - 0) (free_lists s1) = free_lists s1" by (cases "free_lists s1") simp
    have "u = s1" unfolding u_def same same' by simp
    moreover have "initialize_user_thread w r t s = Inr ((), u)"
      unfolding start using True batch by (simp add: prog_simps u_def)
    ultimately show ?thesis using inv1 n by (intro exI [of _ u] exI [of _ C]) (simp add: s1_def kept_def frames_def)
  next
    case False
    define k where "k = min (length ?xs) 64"
    have k: "0 < k" "k \<le> 64" "k \<le> length ?xs" using False by (simp_all add: k_def)
    define f where "f = page_count_update (\<lambda>n. n - of_nat k) (free_lists s1)"
    define d where "d = batch_removed ?l ?xs k (s1\<lparr>free_lists := f\<rparr>)"
    have d': "(batch_removed ?l ?xs k s1)\<lparr>free_lists := f\<rparr> = d" by (simp add: d_def batch_removed_def Let_def)
    have one: "remove_batch_from_list_head_exclusive ?l (ucast FREE_PAGE_CACHE_SIZE) s1 =
        Inr ((of_nat k, hd ?xs), batch_removed ?l ?xs k s1)"
      using batch False by (simp add: Let_def k_def)
    have fl: "free_lists (batch_removed ?l ?xs k s1) = free_lists s1" by (simp add: batch_removed_def Let_def)
    define e where "e = (set_cache t (cache_from 0 (take k ?xs) (free_page_cache (users s1 t))) s1)
      \<lparr>pfns := cut_front (head (lists s1 ?l)) (hd (drop k ?xs @ [head (lists s1 ?l)])) (pfns s1),
       lists := resize ?l (- of_nat k) (lists s1), free_lists := f\<rparr>"
    have two: "fill_cache k t 0 (hd ?xs) d = Inr ((), e)"
      unfolding e_def by (rule fill_batch_run [OF wf free k d_def])
    define u where "u = e\<lparr>users := (users e)(t := (users e t)\<lparr>free_page_count := of_nat k\<rparr>)\<rparr>"
    have run: "initialize_user_thread w r t s = Inr ((), u)"
      unfolding start using one two batch_count_words [OF k(1,2)]
      by (simp add: prog_simps fl flip: f_def d' u_def)
    have ut: "t < user_count (with_users (Suc t) s1)" using t by (simp add: with_users_count)
    have e0: "free_page_count (users (with_users (Suc t) s1) t) = 0" using x(1) by (simp add: s1_def)
    have jn: "j < unat (number_of_lists (free_lists (with_users (Suc t) s1)))" using j n by (simp add: s1_def)
    have "sys_inv (refilled ?l t ?xs k (with_users (Suc t) s1)) (C(?l := drop k ?xs)) {}"
      by (rule refilled_sys(1) [OF inv1 ut e0 jn k(3,2)])
    also have "sys_inv (refilled ?l t ?xs k (with_users (Suc t) s1)) (C(?l := drop k ?xs)) {} =
        sys_inv (with_users (Suc t) u) (C(?l := drop k ?xs)) {}"
      by (rule sys_inv_cong)
        (simp_all add: refilled_def Let_def with_users_def u_def e_def set_cache_def f_def s1_def fun_eq_iff)
    finally show ?thesis using run n
      by (intro exI [of _ u] exI [of _ "C(?l := drop k ?xs)"])
        (simp add: u_def e_def set_cache_def s1_def f_def kept_def frames_def)
  qed
qed

text \<open>The addresses of a reservation.\<close>

lemma region_page:
  assumes "region_apart b n va c" and "k < c"
  shows "unat (va + of_nat k * PAGE_SIZE) = unat va + k * 4096"
proof -
  have "va + of_nat k * PAGE_SIZE = (of_nat (unat va + k * 4096) :: u64)" by simp
  moreover have "unat va + k * 4096 < 2 ^ 64" using assms by (simp add: region_apart_def)
  ultimately show ?thesis by (simp only: unat_of_nat mod_less len64)
qed

lemma region_kernel:
  assumes reg: "region_apart (unat (application_va_base (vm s))) (entries s) va c" and k: "k < c"
    and ok: "va_region_ok (vm s)"
  shows "kernel_va s (va + of_nat k * PAGE_SIZE)"
proof -
  let ?va = "va + of_nat k * PAGE_SIZE" and ?b = "unat (application_va_base (vm s))"
  note u = region_page [OF reg k]
  obtain m where m: "unat va = 4096 * m" using reg by (auto simp: region_apart_def)
  have "?va = of_nat (unat ?va)" by simp
  then have "?va = of_nat ((m + k) * 4096)" using m unfolding u by (simp add: algebra_simps)
  then have "page_base ?va = ?va" by (rule aligned_base)
  moreover have "?va \<noteq> va_of (vm s) i" if "i < entries s" for i
  proof -
    have "unat (va_of (vm s) i) = ?b + i * 4096"
      unfolding va_of_def using that by (intro entry_va_unat [OF ok]) (simp add: entries_def)
    moreover have "unat va + k * 4096 \<noteq> ?b + i * 4096"
    proof -
      have "unat va + c * 4096 \<le> ?b \<or> ?b + entries s * 4096 \<le> unat va" using reg by (simp add: region_apart_def)
      moreover have "k * 4096 < c * 4096" "i * 4096 < entries s * 4096" using k that by simp_all
      ultimately show ?thesis by linarith
    qed
    ultimately show ?thesis using u by metis
  qed
  ultimately show ?thesis by (auto simp: kernel_va_def)
qed

lemma region_inj:
  assumes "region_apart b n va c"
  shows "inj_on (\<lambda>k. va + of_nat k * PAGE_SIZE) {..<c}"
proof (rule inj_onI)
  fix j k assume jk: "j \<in> {..<c}" "k \<in> {..<c}" and eq: "va + of_nat j * PAGE_SIZE = va + of_nat k * PAGE_SIZE"
  have u: "unat va + j * 4096 = unat (va + of_nat j * PAGE_SIZE)" "unat (va + of_nat k * PAGE_SIZE) = unat va + k * 4096"
    using region_page [OF assms] jk by simp_all
  have "unat va + j * 4096 = unat va + k * 4096" unfolding u(1) eq u(2) ..
  then show "j = k" by simp
qed

text \<open>The loop over the threads.\<close>

lemma user_threads_run:
  assumes inv: "sys_inv (with_users 0 s) C {}" and n: "n < 2 ^ 32" and lists: "number_of_lists (free_lists s) = 16"
    and ok: "va_region_ok (vm s)" and zero: "users s = (\<lambda>_. zero_user)"
    and r: "\<forall>t < n. \<exists>va. read_space r t = Some va \<and>
        region_apart (unat (application_va_base (vm s))) (entries s) va 16"
  shows "\<exists>u C'. for_each [0..<n] (initialize_user_thread w r) s = Inr ((), u) \<and> sys_inv (with_users n u) C' {} \<and>
     (\<forall>t. n \<le> t \<longrightarrow> users u t = zero_user) \<and> kept s u \<and> frames u = frames s \<and>
     number_of_lists (free_lists u) = 16"
  using n r
proof (induction n)
  case 0
  show ?case using inv lists zero by (intro exI [of _ s] exI [of _ C]) (simp add: prog_simps)
next
  case (Suc n)
  then obtain t C1 where t: "for_each [0..<n] (initialize_user_thread w r) s = Inr ((), t)"
    "sys_inv (with_users n t) C1 {}" "\<forall>k. n \<le> k \<longrightarrow> users t k = zero_user" "kept s t" "frames t = frames s"
    "number_of_lists (free_lists t) = 16" by auto
  obtain va where va: "read_space r n = Some va"
    "region_apart (unat (application_va_base (vm s))) (entries s) va 16" using Suc.prems(2) by blast
  have vm: "vm t = vm s" "entries t = entries s" using t(4) by (simp_all add: kept_def entries_def)
  have "\<forall>k < 16. kernel_va t (va + of_nat k * PAGE_SIZE)"
    using region_kernel [of t va 16] va(2) ok vm by simp
  from user_thread_run [OF t(2) Suc.prems(1) _ t(6) va(1) this, of w] t(3) obtain u C2 where
    u: "initialize_user_thread w r n t = Inr ((), u)" "sys_inv (with_users (Suc n) u) C2 {}"
      "\<forall>k. k \<noteq> n \<longrightarrow> users u k = users t k" "kept t u" "frames u = frames t"
      "number_of_lists (free_lists u) = 16" by blast
  have "for_each [0..<Suc n] (initialize_user_thread w r) s = Inr ((), u)"
    using t(1) u(1) by (simp add: for_each_append prog_simps)
  moreover have "\<forall>k. Suc n \<le> k \<longrightarrow> users u k = zero_user" using u(3) t(3) by simp
  ultimately show ?case using u t kept_trans [OF t(4) u(4)] by (intro exI [of _ u] exI [of _ C2]) simp
qed


section \<open>The whole initialisation\<close>

lemma create_objects_run:
  assumes "objects_granted r fs"
  shows "initialize_events r s = Inr ((), s\<lparr>events := (\<lambda>_. False)\<rparr>)"
    and "for_each ts (\<lambda>i. create_thread r (user_thread i)) s = Inr ((), s)" and "create_thread r k s = Inr ((), s)"
proof -
  have one: "create_thread r k s = Inr ((), s)" for k s
    using assms by (simp add: create_thread_def objects_granted_def prog_simps)
  then show "create_thread r k s = Inr ((), s)" .
  show "for_each ts (\<lambda>i. create_thread r (user_thread i)) s = Inr ((), s)"
    using one by (induction ts) (simp_all add: prog_simps)
  have e: "create_event r e s = Inr ((), s\<lparr>events := (events s)(e := False)\<rparr>)" for e s
    using assms by (simp add: create_event_def objects_granted_def prog_simps)
  have "(events s)(system_start_event := False, initiate_aging_event := False, initiate_trimming_event := False,
      initiate_writing_event := False, initiate_pruning_event := False, standby_pages_ready_event := False,
      system_exit_event := False) = (\<lambda>_. False)"
  proof
    fix e show "((events s)(system_start_event := False, initiate_aging_event := False, initiate_trimming_event := False,
      initiate_writing_event := False, initiate_pruning_event := False, standby_pages_ready_event := False,
      system_exit_event := False)) e = False" by (cases e) simp_all
  qed
  then show "initialize_events r s = Inr ((), s\<lparr>events := (\<lambda>_. False)\<rparr>)"
    by (simp add: initialize_events_def prog_simps e)
qed

lemma stocked_cong:
  assumes "lists t = lists s" "heads t = heads s" "free_lists t = free_lists s" "pfns t = pfns s"
    "committed t = committed s" "ptes t = ptes s" "vm t = vm s"
  shows "stocked t C = stocked s C"
proof -
  have ok: "pfn_ok t p = pfn_ok s p" for p using assms by (simp add: pfn_ok_def split: pfn_ptr.split)
  then have "lists_ok t C = lists_ok s C" using assms by (intro lists_ok_cong) simp_all
  moreover have "locks_ok t {} = locks_ok s {}"
    using assms ok by (simp add: locks_ok_def pfn_held_def pfn_free_def pte_free_def frames_def entries_def)
  ultimately show ?thesis using assms by (simp add: stocked_def listed_def frames_def)
qed

definition memory_setup :: "grants \<Rightarrow> unit mm" where
  "memory_setup r = block
     [initialize_page_lists, initialize_PFN_data r, initialize_page_file, initialize_events r]"

lemma memory_setup_run:
  assumes s: "heads s = 0" "committed s = (\<lambda>_. False)" "ptes s = (\<lambda>_. zero_pte)"
    and ob: "objects_granted r fs" and fs: "distinct fs" "\<forall>f \<in> set fs. unat f < 2 ^ 40"
    and frames: "take (unat (allocated_frame_count (vm s))) (allocated_frame_numbers (vm s)) = fs"
      "unat (allocated_frame_count (vm s)) \<le> length (allocated_frame_numbers (vm s))"
    and rows: "pages_in_page_file (vm s) = 64 * rows" "0 < unat rows" "64 * unat rows \<le> 2 ^ 40"
  obtains u C where "memory_setup r s = Inr ((), u)" and "stocked u C" and "frames u = set fs"
    and "kept (s\<lparr>events := (\<lambda>_. False)\<rparr>) u" and "pf_inv (vm s) (pf u)"
proof -
  obtain s2 where s2: "initialize_page_lists s = Inr ((), s2)" "\<forall>l \<in> core_lists s2. fresh_list s2 l (list_place l)"
    "number_of_lists (free_lists s2) = 16" "free_list_locks (free_lists s2) = 0" "heads_free s2" "kept s s2"
    "committed s2 = committed s" by (rule page_lists_run [OF s(1)])
  have "stocked s2 (\<lambda>_. [])" using s2 s by (intro stocked_empty) (simp_all add: kept_def)
  moreover have "frames s2 = {}" using s2(7) s(2) by (simp add: frames_def)
  ultimately obtain s3 C where s3: "add_frames r fs 0 16 s2 = Inr ((), s3)" "stocked s3 C" "frames s3 = set fs" "kept s2 s3"
    using add_frames_run [of s2 "\<lambda>_. []" 0 fs r] fs ob by (auto simp: objects_granted_def)
  have k3: "kept s s3" using kept_trans [OF s2(6) s3(4)] .
  have "allocated_frames s2 = Inr (fs, s2)"
    using s2(6) frames by (simp add: allocated_frames_def prog_simps kept_def)
  then have pfns: "initialize_PFN_data r s2 = Inr ((), s3)"
    using s3(1) s2(3) ob by (simp add: initialize_PFN_data_def prog_simps objects_granted_def)
  have v3: "vm s3 = vm s" using k3 by (simp add: kept_def)
  obtain d where d: "initialize_page_file_and_metadata (vm s) (pf s3) = Inr ((), d)" "pf_inv (vm s) d"
    using initialize_page_file_run [OF rows] by blast
  let ?u = "s3\<lparr>pf := d, events := (\<lambda>_. False)\<rparr>"
  show thesis
  proof
    show "memory_setup r s = Inr ((), ?u)"
      using s2(1) pfns d(1) create_objects_run(1) [OF ob]
      by (simp add: memory_setup_def prog_simps initialize_page_file_def v3 on_disk_run)
    show "stocked ?u C" using s3(2) by (subst stocked_cong [of ?u s3]) simp_all
    show "kept (s\<lparr>events := (\<lambda>_. False)\<rparr>) ?u" using k3 by (simp add: kept_def)
  qed (use d s3(3) in \<open>simp_all add: frames_def\<close>)
qed

text \<open>The threads and the statistics.\<close>

lemma threads_setup_run:
  assumes inv: "sys_inv (with_users 0 (s\<lparr>users := (\<lambda>_. zero_user)\<rparr>)) C {}" and ob: "objects_granted r fs"
    and lists: "number_of_lists (free_lists s) = 16" and ok: "va_region_ok (vm s)"
    and sp: "\<forall>t < user_count s. \<exists>va. read_space r t = Some va \<and>
        region_apart (unat (application_va_base (vm s))) (entries s) va 16"
  shows "\<exists>u C'. block [initialize_threads w r, initialize_statistics r] s = Inr ((), u) \<and> sys_inv u C' {} \<and>
     kept s u \<and> frames u = frames s \<and> n_available (stats u) = page_count (free_lists u)"
proof -
  let ?s = "s\<lparr>users := (\<lambda>_. zero_user)\<rparr>" let ?n = "user_count s"
  have "?n < 2 ^ 32" unfolding user_count_def using unsigned_less [of "num_user_threads (vm s)"] by simp
  then obtain t C' where t: "for_each [0..<?n] (initialize_user_thread w r) ?s = Inr ((), t)"
    "sys_inv (with_users ?n t) C' {}" "kept ?s t" "frames t = frames ?s"
    using user_threads_run [OF inv, of ?n r w] lists ok sp by auto
  have "user_count t = ?n" using t(3) by (simp add: kept_def user_count_def)
  then have inv': "sys_inv t C' {}" using t(2) with_users_all [of t] by simp
  have "initialize_threads w r s = Inr ((), t)"
    using t(1) create_objects_run(2,3) [OF ob] by (simp add: initialize_threads_def prog_simps user_count_def)
  moreover obtain x where "initialize_statistics r t = Inr ((), t\<lparr>stats := x\<rparr>)" "n_available x = page_count (free_lists t)"
    by (simp add: initialize_statistics_def prog_simps)
  ultimately show ?thesis using inv' t(3,4)
    by (intro exI [of _ "t\<lparr>stats := x\<rparr>"] exI [of _ C']) (simp add: prog_simps kept_def frames_def)
qed

lemma initialize_system_run:
  assumes fr: "frames_granted s r fs" and sp: "spaces_granted s r base (span s fs)" and ob: "objects_granted r fs"
    and start: "process_start s" and rows: "pages_in_page_file (vm s) = 64 * rows" "0 < unat rows" "64 * unat rows \<le> 2 ^ 40"
  shows "\<exists>u C. initialize_system w r s = Inr ((), u) \<and> sys_inv u C {} \<and> frames u = set fs \<and> entries u = span s fs \<and>
     user_count u = user_count s \<and> application_va_base (vm u) = base \<and> page_states u = (\<lambda>_. Untouched) \<and>
     events u = (\<lambda>_. False) \<and> pte_to_trim u = pte_to_trim s \<and> n_available (stats u) = page_count (free_lists u) \<and>
     iterations (vm u) = iterations (vm s)"
proof -
  let ?n = "span s fs"
  obtain v where v: "frame_setup r s = Inr ((), s\<lparr>vm := v, ptes := (\<lambda>_. zero_pte)\<rparr>)" "va_region_ok v"
    "unat (num_ptes v) = ?n" "application_va_base v = base" "write_space r = Some (kernel_write_va v)"
    "\<forall>f \<in> set fs. min_frame_number v \<le> f \<and> f \<le> max_frame_number v"
    "take (unat (allocated_frame_count v)) (allocated_frame_numbers v) = fs"
    "unat (allocated_frame_count v) \<le> length (allocated_frame_numbers v)"
    "num_user_threads v = num_user_threads (vm s)" "pages_in_page_file v = pages_in_page_file (vm s)"
    "iterations v = iterations (vm s)"
    by (rule frame_setup_run [OF fr sp refl])
  let ?s1 = "s\<lparr>vm := v, ptes := (\<lambda>_. zero_pte)\<rparr>"
  have d: "distinct fs" "\<forall>f \<in> set fs. unat f < 2 ^ 40" using fr by (simp_all add: frames_granted_def)
  obtain t C where t: "memory_setup r ?s1 = Inr ((), t)" "stocked t C" "frames t = set fs"
    "kept (?s1\<lparr>events := (\<lambda>_. False)\<rparr>) t" "pf_inv v (pf t)"
    by (rule memory_setup_run [OF _ _ _ ob d, of ?s1 rows])
      (use start rows v(7,8,10) in \<open>simp_all add: process_start_def\<close>)
  let ?t = "t\<lparr>users := (\<lambda>_. zero_user)\<rparr>"
  have f: "vm t = v" "ptes t = (\<lambda>_. zero_pte)" "va_map t = (\<lambda>_. None)" "pte_to_trim t = pte_to_trim s"
    "events t = (\<lambda>_. False)" "entries t = ?n" "user_count t = user_count s" "entries ?t = ?n" "frames ?t = set fs"
    using t(3,4) start v(3,9) by (simp_all add: kept_def process_start_def entries_def user_count_def frames_def)
  have apart: "region_apart (unat base) ?n (kernel_write_va v) 4096" using sp v(5) by (auto simp: spaces_granted_def)
  have "sys_inv (with_users 0 ?t) C {}"
  proof (rule stocked_sys(1))
    show "stocked ?t C" using t(2) by (subst stocked_cong [of ?t t]) simp_all
    show "frames_ok ?t" using fr v(2,6) t(3) by (simp add: frames_ok_def f frames_granted_def)
    show "\<forall>k < 4096. kernel_va ?t (kernel_write_va (vm ?t) + of_nat k * PAGE_SIZE)"
      using region_kernel [of ?t _ 4096] apart f v(2,4) by simp
    show "inj_on (\<lambda>k. kernel_write_va (vm ?t) + of_nat k * PAGE_SIZE) {..<4096}"
      using region_inj [OF apart] f(1) by simp
  qed (use t(5) f in simp_all)
  moreover have "number_of_lists (free_lists t) = 16" using t(2) by (simp add: stocked_def)
  moreover have "\<forall>i < user_count t. \<exists>va. read_space r i = Some va \<and>
        region_apart (unat (application_va_base (vm t))) (entries t) va 16"
    using sp v(4) f by (simp add: spaces_granted_def)
  ultimately obtain u C' where u: "block [initialize_threads w r, initialize_statistics r] t = Inr ((), u)"
    "sys_inv u C' {}" "kept t u" "frames u = frames t" "n_available (stats u) = page_count (free_lists u)"
    using threads_setup_run [OF _ ob, of t C w] v(2) f(1) by blast
  have "initialize_system w r = bind (frame_setup r) (\<lambda>_. bind (memory_setup r) (\<lambda>_.
      block [initialize_threads w r, initialize_statistics r]))"
    by (simp add: initialize_system_def frame_setup_def memory_setup_def bind_assoc bind_return)
  then have "initialize_system w r s = Inr ((), u)" using v(1) t(1) u(1) by (simp add: bind_apply)
  moreover have "ptes u = (\<lambda>_. zero_pte)" using u(3) f(2) by (simp add: kept_def)
  ultimately show ?thesis using u f t(3) v(4,11) untouched_states(2) [of u]
    by (intro exI [of _ u] exI [of _ C']) (simp add: kept_def entries_def user_count_def)
qed

end
