(* ===== verification/Trim_Refinement.thy ===== *)
theory Trim_Refinement
  imports Batch Hard_Fault
begin

text \<open>
  threads/trimmer.c on the whole system.  A page is in hand from the moment its entry goes into
  transition until the batch is on the modified list; no page changes its content.
\<close>

section \<open>An entry changes without changing its state\<close>

lemma view_clear_accessed_sane:
  assumes "IS_PTE_VALID w" and "sane_view w \<noteq> LimboView"
  shows "sane_view (put_accessed 0 w) = sane_view w"
proof -
  have "IS_PTE_VALID (put_accessed 0 w) = IS_PTE_VALID w" "get_status (put_accessed 0 w) = get_status w"
    "get_frame_number (put_accessed 0 w) = get_frame_number w"
    by (simp_all add: pte_tests pte_fields)
  moreover from this have "pte_view (put_accessed 0 w) = pte_view w"
    using assms(1) by (simp add: pte_view_def)
  ultimately show ?thesis by (simp add: sane_view_def)
qed

lemma same_view_sys:
  assumes inv: "sys_inv s C K" and e: "sane_view x = sane_view (entire_pte (ptes s i))"
  defines "u \<equiv> s\<lparr>ptes := (ptes s)(i := (ptes s i)\<lparr>entire_pte := x\<rparr>)\<rparr>"
  shows "sys_inv u C K" and "paging_of u = paging_of s" and "book_of u = book_of s" and "page_states u = page_states s"
proof -
  note inv' = sys_invD [OF inv]
  show b: "book_of u = book_of s" using e by (auto simp: book_of_def u_def fun_eq_iff)
  have fields: "entries u = entries s" "frames u = frames s" "vm u = vm s" "pf u = pf s" "va_map u = va_map s"
    "ram u = ram s" "user_count u = user_count s" by (simp_all add: u_def)
  show st: "page_states u = page_states s" by (simp add: page_states_def b fields)
  show pg: "paging_of u = paging_of s" by (simp add: paging_of_def st fields)
  have "lists_ok u C" using inv'(5) by (subst lists_ok_cong [of _ s]) (simp_all add: u_def)
  moreover have "members_ok u C K"
    using inv'(6) by (subst members_cong [of _ s]) (simp_all add: b fields, simp_all add: u_def)
  moreover have "locks_ok u K"
    using inv'(7) by (auto simp: locks_ok_def u_def pfn_free_def pfn_held_def pte_free_def split: if_splits)
  moreover have "frames_ok u" "slots_ok u" "maps_ok u K" "users_ok u" "book_ok (entries u) (frames u) K (book_of u)"
    using inv' by (simp_all add: frames_ok_def slots_ok_def maps_ok_def b st fields) (simp add: users_ok_def u_def kernel_va_def)
  ultimately show "sys_inv u C K" using inv'(3) by (simp add: sys_inv_def pg)
qed


section \<open>One entry\<close>

definition trimmed :: "nat \<Rightarrow> u64 \<Rightarrow> machine \<Rightarrow> machine" where
  "trimmed i f s = s\<lparr>
     ptes := (ptes s)(i := (ptes s i)\<lparr>entire_pte := set_PTE_to_transition (entire_pte (ptes s i))\<rparr>),
     pfns := on_cell (FramePfn f) locked_pfn (pfns s)\<rparr>"

lemma trimmed_fields [simp]:
  "entries (trimmed i f s) = entries s" "frames (trimmed i f s) = frames s" "user_count (trimmed i f s) = user_count s"
  "vm (trimmed i f s) = vm s" "pf (trimmed i f s) = pf s" "va_map (trimmed i f s) = va_map s"
  "ram (trimmed i f s) = ram s" "lists (trimmed i f s) = lists s" "heads (trimmed i f s) = heads s"
  "free_lists (trimmed i f s) = free_lists s" "users (trimmed i f s) = users s" "pfn_ok (trimmed i f s) p = pfn_ok s p"
  "committed (trimmed i f s) = committed s" "pte_to_trim (trimmed i f s) = pte_to_trim s"
  by (simp_all add: trimmed_def)

lemma trimmed_sys:
  assumes inv: "sys_inv s C K" and i: "i < entries s" and view: "view (book_of s) i = ValidView f"
  shows "sys_inv (trimmed i f s) C (insert f K)" and "book_of (trimmed i f s) = book_trim i f (book_of s)"
    and "page_states (trimmed i f s) = (page_states s)(i := Modified f)"
    and "manager_step (paging_of s) (paging_of (trimmed i f s))"
proof -
  let ?u = "trimmed i f s"
  note inv' = sys_invD [OF inv]
  have own: "f \<in> frames s" using book_ok_owner [OF inv'(2) i, of f] view by simp
  then have f0: "f \<noteq> 0" using inv'(1) by (simp add: frames_ok_def)
  have old: "page_states s i = Resident f" using view i by (simp add: page_states_def entry_state_def)
  have act: "fstatus (book_of s) f = PFN_ACTIVE"
    using inv'(2) i view by (auto simp: book_ok_def entry_ok_def dest: spec [of _ i])
  show b: "book_of ?u = book_trim i f (book_of s)"
  proof -
    have "sane_view (entire_pte (ptes s i)) = ValidView f" using view by (simp add: book_of_def)
    from sane_set_transition [OF this f0] show ?thesis
      by (auto simp: book_of_def trimmed_def book_trim_def change_def on_cells_def fun_eq_iff)
  qed
  note trim = book_trim [OF inv'(2) i view subset_refl]
  show st: "page_states ?u = (page_states s)(i := Modified f)" using trim(2) by (simp add: page_states_def b)
  have paging: "paging_of ?u = (paging_of s)\<lparr>state := (state (paging_of s))(i := Modified f)\<rparr>"
    by (simp add: paging_of_def st)
  show step: "manager_step (paging_of s) (paging_of ?u)"
    unfolding paging using old by (intro manager_step.trim) (simp add: page_states_state)
  have stat: "fstatus (book_of ?u) = fstatus (book_of s)" by (simp add: b book_trim_def change_def)
  have "lists_ok ?u C"
    using inv'(5) by (subst lists_ok_cong [of _ s]) (simp_all add: trimmed_def on_cells_def)
  moreover have "members_ok ?u C (insert f K)"
  proof -
    have c: "cache ?u = cache s" by (simp add: cache_def fun_eq_iff)
    have "pool ?u C = pool s C" "caches_ok ?u C = caches_ok s C"
      by (simp_all add: pool_def caches_ok_def cached_by_def listed_def c)
    then show ?thesis using inv'(6) act unfolding members_ok_def stat by auto
  qed
  moreover have "locks_ok ?u (insert f K)"
    using inv'(7) own
    by (auto simp: locks_ok_def pfn_held_def pfn_free_def trimmed_def on_cells_def pte_free_def split: if_splits)
  moreover have "maps_ok ?u (insert f K)"
    using inv'(8) by (auto simp: maps_ok_def st)
  moreover have "users_ok ?u" using inv'(9) by (simp add: users_ok_def kernel_va_def)
  moreover have "slots_ok ?u" using inv'(4) old by (auto simp: slots_ok_def st split: if_splits)
  moreover have "frames_ok ?u" using inv'(1) by (simp add: frames_ok_def)
  moreover have "paging_inv (paging_of ?u)" using manager_step_inv [OF step inv'(3)] .
  ultimately show "sys_inv ?u C (insert f K)" using trim(1) by (simp add: sys_inv_def b)
qed


section \<open>The walk\<close>

text \<open>
  \<open>mid_trim g ps s\<close>: from states \<open>g\<close> the pages \<open>ps\<close>, each with its frame, were taken from their
  owners; their descriptors are still active.
\<close>

definition trim_states :: "nat set \<Rightarrow> (nat \<Rightarrow> page_state) \<Rightarrow> nat \<Rightarrow> page_state" where
  "trim_states T g = (\<lambda>i. if i \<in> T then (case g i of Resident f \<Rightarrow> Modified f | st \<Rightarrow> st) else g i)"

definition mid_trim :: "(nat \<Rightarrow> page_state) \<Rightarrow> (nat \<times> u64) list \<Rightarrow> machine \<Rightarrow> bool" where
  "mid_trim g ps s \<longleftrightarrow> distinct (map fst ps) \<and> distinct (map snd ps) \<and>
     page_states s = trim_states (fst ` set ps) g \<and>
     (\<forall>(i, f) \<in> set ps. g i = Resident f \<and> i < entries s \<and> view (book_of s) i = TransitionView f \<and>
        fstatus (book_of s) f = PFN_ACTIVE)"

lemma mid_trim_cong:
  "book_of t = book_of s \<Longrightarrow> entries t = entries s \<Longrightarrow> mid_trim g ps t = mid_trim g ps s"
  by (simp add: mid_trim_def page_states_def)

lemma mid_trim_add:
  assumes inv: "sys_inv s C (snd ` set ps)" and mid: "mid_trim g ps s" and i: "i < entries s"
    and view: "view (book_of s) i = ValidView f"
  shows "mid_trim g (ps @ [(i, f)]) (trimmed i f s)"
proof -
  note inv' = sys_invD [OF inv] and t = trimmed_sys [OF inv i view]
  have ps: "view (book_of s) j = TransitionView h" "j < entries s" "g j = Resident h" "fstatus (book_of s) h = PFN_ACTIVE"
    if "(j, h) \<in> set ps" for j h using mid that by (auto simp: mid_trim_def)
  have i0: "i \<notin> fst ` set ps" using ps(1) view by force
  have fi: "frame_at (view (book_of s) i) = Some f" using view by simp
  note o = book_ok_owner [OF inv'(2) i fi]
  have f0: "f \<noteq> h \<and> j \<noteq> i" if "(j, h) \<in> set ps" for j h
    using book_ok_owner [OF inv'(2) ps(2) [OF that], of h] ps(1) [OF that] o view by auto
  then have f1: "f \<notin> snd ` set ps" by force
  have act: "fstatus (book_of s) f = PFN_ACTIVE"
    using inv'(2) i view by (auto simp: book_ok_def entry_ok_def dest: spec [of _ i])
  have "page_states s i = Resident f" using view i by (simp add: page_states_def entry_state_def)
  then have gi: "g i = Resident f" using mid i0 by (simp add: mid_trim_def trim_states_def)
  have "page_states (trimmed i f s) = trim_states (insert i (fst ` set ps)) g"
    using mid gi i0 unfolding t(3) by (auto simp: mid_trim_def trim_states_def fun_eq_iff)
  moreover have "view (book_of (trimmed i f s)) = (view (book_of s))(i := TransitionView f)"
    "fstatus (book_of (trimmed i f s)) = fstatus (book_of s)"
    unfolding t(2) by (simp_all add: book_trim_def change_def)
  ultimately show ?thesis
    using mid i0 f1 ps f0 gi i act by (auto simp: mid_trim_def)
qed

text \<open>An entry the trimmer would take at once.\<close>

definition unaccessed :: "machine \<Rightarrow> nat \<Rightarrow> bool" where
  "unaccessed s i \<longleftrightarrow> IS_PTE_VALID (entire_pte (ptes s i)) \<and> \<not> IS_PTE_ACCESSED (entire_pte (ptes s i))"

definition calm :: "machine \<Rightarrow> bool" where
  "calm s \<longleftrightarrow> contention (spin s) = []"

lemma calm_try [simp]: "calm s \<Longrightarrow> calm (u\<lparr>spin := after_try (spin s)\<rparr>)" "calm s \<Longrightarrow> \<not> next_busy (spin s)"
  by (simp_all add: calm_def after_try_def next_busy_def)

lemma trim_entry_run:
  assumes inv: "sys_inv s C (snd ` set ps)" and mid: "mid_trim g ps s" and i: "i < entries s"
  shows "\<exists>u qs. trim_entry i s = Inr (case qs of [] \<Rightarrow> None | (j, f) # _ \<Rightarrow> Some (FramePfn f, va_of (vm s) j), u) \<and>
     length qs \<le> 1 \<and> sys_inv u C (snd ` set (ps @ qs)) \<and> mid_trim g (ps @ qs) u \<and> managed s u \<and>
     pte_to_trim u = pte_to_trim s \<and> pf u = pf s \<and> (calm s \<longrightarrow> calm u \<and> (unaccessed s i \<longrightarrow> qs \<noteq> [])) \<and>
     (\<forall>j. j \<noteq> i \<longrightarrow> unaccessed u j = unaccessed s j)"
proof -
  let ?e = "entire_pte (ptes s i)"
  note inv' = sys_invD [OF inv] and pte = entry_facts [OF inv i]
  have v: "view (book_of s) i = sane_view ?e" by (simp add: book_of_def)
  have nolimbo: "sane_view ?e \<noteq> LimboView"
    using inv'(2) i v by (auto simp: book_ok_def entry_ok_def dest: spec [of _ i])
  consider (invalid) "\<not> IS_PTE_VALID ?e" | (accessed) "IS_PTE_VALID ?e" "IS_PTE_ACCESSED ?e"
    | (trim) "IS_PTE_VALID ?e" "\<not> IS_PTE_ACCESSED ?e" by blast
  then show ?thesis
  proof cases
    case invalid
    then have "trim_entry i s = Inr (None, s)" using pte by (simp add: trim_entry_def prog_simps)
    then show ?thesis using inv mid managed_refl invalid
      by (intro exI [of _ s] exI [of _ "[]"]) (simp add: unaccessed_def)
  next
    case accessed
    let ?u = "s\<lparr>ptes := (ptes s)(i := (ptes s i)\<lparr>entire_pte := put_accessed 0 ?e\<rparr>)\<rparr>"
    note same = same_view_sys [OF inv view_clear_accessed_sane [OF accessed(1) nolimbo]]
    have "bit (get_accessed ?e) 0" using accessed(2) by (simp add: IS_PTE_ACCESSED_def)
    then have "bit ?e 4" by (simp add: get_accessed_def bit_get_bits)
    then have "trim_entry i s = Inr (None, ?u)"
      using accessed pte by (simp add: trim_entry_def prog_simps clear_accessed_bit_def)
    moreover have "managed s ?u" using same(2) by (intro managed_same) simp_all
    moreover have "mid_trim g ps ?u" using mid same(3) by (subst mid_trim_cong [of _ s]) simp_all
    ultimately show ?thesis using same(1) accessed
      by (intro exI [of _ ?u] exI [of _ "[]"]) (simp add: unaccessed_def calm_def)
  next
    case trim
    show ?thesis
    proof (cases "next_busy (spin s)")
      case True
      let ?u = "s\<lparr>spin := after_try (spin s)\<rparr>"
      have "trim_entry i s = Inr (None, ?u)"
        using trim pte True by (simp add: trim_entry_def prog_simps try_lock_pte_run)
      moreover have "mid_trim g ps ?u" using mid by (subst mid_trim_cong [of _ s]) simp_all
      moreover have "managed s ?u" by (intro managed_same) simp_all
      ultimately show ?thesis using inv True
        by (intro exI [of _ ?u] exI [of _ "[]"]) (auto simp: unaccessed_def)
    next
      case False
      obtain f where view: "view (book_of s) i = ValidView f"
        using trim(1) nolimbo unfolding v by (auto simp: sane_view_def pte_view_def split: if_splits)
      then have sv: "sane_view ?e = ValidView f" by (simp add: v)
      then have num: "get_frame_number ?e = f" using sane_viewD(1) pte_view_ValidD by blast
      have own: "f \<in> frames s" using book_ok_owner [OF inv'(2) i, of f] view by simp
      have "f \<notin> snd ` set ps"
        using mid_trim_add [OF inv mid i view] by (auto simp: mid_trim_def)
      note ff = frame_facts [OF inv own this]
      have pfn: "get_PFN_from_PTE (vm s) ?e = Inr (FramePfn f)"
        using trim(1) num ff sane_viewD(1) [OF sv] by (simp add: get_PFN_from_PTE_def get_PFN_from_frame_def pte_tests)
      let ?u = "(trimmed i f s)\<lparr>spin := after_try (spin s)\<rparr>"
      let ?P = "on_cell (FramePfn f) locked_pfn (pfns s)"
      have word: "entire_pte (on_pte i (set_pte_lock 1) (ptes s) i) = ?e"
        "pte_lock (on_pte i (set_pte_lock 1) (ptes s) i) = 1" by (simp_all add: on_pte_def set_pte_lock_def)
      have unl: "on_pte i (set_pte_lock 0) ((on_pte i (set_pte_lock 1) (ptes s))(i :=
          (on_pte i (set_pte_lock 1) (ptes s) i)\<lparr>entire_pte := set_PTE_to_transition ?e\<rparr>)) = ptes (trimmed i f s)"
        using pte(2) by (auto simp: on_pte_def set_pte_lock_def trimmed_def pte_free_def fun_eq_iff)
      have va: "get_VA_from_PTE (vm s) i = Inr (va_of (vm s) i)"
        using pte(1) by (simp add: get_VA_from_PTE_def pte_ok_def va_of_def)
      have "trim_entry i s = Inr (Some (FramePfn f, va_of (vm s) i), ?u)"
        using trim pte False pfn ff(1,2) va
        by (simp add: trim_entry_def prog_simps try_lock_pte_run word lock_pfn_run pfn_free_def unlock_pte_run
            pte_held_def unl) (simp add: trimmed_def)
      moreover note trimmed_sys(1,4) [OF inv i view] mid_trim_add [OF inv mid i view]
      moreover have "mid_trim g (ps @ [(i, f)]) ?u" using calculation by (subst mid_trim_cong [of _ "trimmed i f s"]) simp_all
      moreover have "managed s ?u" using calculation(3) by (intro managed_step) simp_all
      moreover have "\<forall>j. j \<noteq> i \<longrightarrow> unaccessed ?u j = unaccessed s j" by (simp add: unaccessed_def trimmed_def)
      ultimately show ?thesis by (intro exI [of _ ?u] exI [of _ "[(i, f)]"]) simp
    qed
  qed
qed


definition batch_of :: "vm_state \<Rightarrow> (nat \<times> u64) list \<Rightarrow> (pfn_ptr \<times> u64) list" where
  "batch_of v ps = map (\<lambda>(i, f). (FramePfn f, va_of v i)) ps"

lemma trim_walk_run:
  assumes "sys_inv s C (snd ` set ps)" and "mid_trim g ps s" and "i < entries s"
    and "length ps \<le> 2048"
  shows "\<exists>u qs j. trim_walk n i (batch_of (vm s) ps) s = Inr ((j, batch_of (vm s) qs), u) \<and>
     sys_inv u C (snd ` set qs) \<and> mid_trim g qs u \<and> managed s u \<and> j < entries s \<and> length qs \<le> 2048 \<and>
     pte_to_trim u = pte_to_trim s \<and> pf u = pf s \<and> (ps \<noteq> [] \<longrightarrow> qs \<noteq> []) \<and>
     (calm s \<and> (\<exists>k < n. unaccessed s ((next_pte (vm s) ^^ Suc k) i)) \<longrightarrow> qs \<noteq> [])"
  using assms
proof (induction n arbitrary: s ps i)
  case 0
  then show ?case using managed_refl by (intro exI [of _ s] exI [of _ ps] exI [of _ i]) (simp add: prog_simps)
next
  case (Suc n)
  show ?case
  proof (cases "length ps = 2048")
    case True
    then have "ps \<noteq> []" by auto
    then show ?thesis using Suc.prems managed_refl True
      by (intro exI [of _ s] exI [of _ ps] exI [of _ i]) (simp add: prog_simps batch_of_def)
  next
    case False
    let ?j = "next_pte (vm s) i"
    have j: "?j < entries s" using Suc.prems(3) by (auto simp: next_pte_def entries_def)
    from trim_entry_run [OF Suc.prems(1,2) j] obtain t qs where
      run: "trim_entry ?j s = Inr (case qs of [] \<Rightarrow> None | (j, f) # _ \<Rightarrow> Some (FramePfn f, va_of (vm s) j), t)"
      and qs: "length qs \<le> 1" "sys_inv t C (snd ` set (ps @ qs))" "mid_trim g (ps @ qs) t" "managed s t" "pte_to_trim t = pte_to_trim s \<and> pf t = pf s"
      "calm s \<longrightarrow> calm t \<and> (unaccessed s ?j \<longrightarrow> qs \<noteq> [])" "\<forall>k. k \<noteq> ?j \<longrightarrow> unaccessed t k = unaccessed s k" by blast
    note m = managedD [OF qs(4)]
    have "?j < entries t" "length (ps @ qs) \<le> 2048" using j m Suc.prems(4) qs(1) False by simp_all
    from Suc.IH [OF qs(2,3) this] obtain u rs k where
      u: "trim_walk n ?j (batch_of (vm t) (ps @ qs)) t = Inr ((k, batch_of (vm t) rs), u)"
      "sys_inv u C (snd ` set rs)" "mid_trim g rs u" "managed t u" "k < entries t" "length rs \<le> 2048"
      "pte_to_trim u = pte_to_trim t \<and> pf u = pf t" "ps @ qs \<noteq> [] \<longrightarrow> rs \<noteq> []"
      "calm t \<and> (\<exists>k < n. unaccessed t ((next_pte (vm t) ^^ Suc k) ?j)) \<longrightarrow> rs \<noteq> []" by blast
    have progress: "rs \<noteq> []" if c: "calm s" "k < Suc n" "unaccessed s ((next_pte (vm s) ^^ Suc k) i)" for k
    proof (cases "unaccessed s ?j")
      case True
      then show ?thesis using qs(6) c(1) u(8) by simp
    next
      case False
      then obtain k' where k: "k = Suc k'" using c(3) by (cases k) auto
      have hop: "(next_pte (vm s) ^^ Suc k) i = (next_pte (vm s) ^^ Suc k') ?j" unfolding k by (simp add: funpow_swap1)
      then have "(next_pte (vm s) ^^ Suc k') ?j \<noteq> ?j" using c(3) False by auto
      then have "unaccessed t ((next_pte (vm t) ^^ Suc k') ?j)" using c(3) qs(7) hop m(1) by auto
      then show ?thesis using u(9) qs(6) c(1,2) k by auto
    qed
    have "trim_walk (Suc n) i (batch_of (vm s) ps) s = trim_walk n ?j (batch_of (vm t) (ps @ qs)) t"
    proof (cases qs)
      case Nil
      then show ?thesis using run m Suc.prems(4) False by (simp add: prog_simps batch_of_def)
    next
      case (Cons q rest)
      then have "qs = [q]" using qs(1) by simp
      then show ?thesis using run m Suc.prems(4) False
        by (simp add: prog_simps batch_of_def split: prod.splits)
    qed
    moreover have "calm s \<and> (\<exists>k < Suc n. unaccessed s ((next_pte (vm s) ^^ Suc k) i)) \<longrightarrow> rs \<noteq> []"
      using progress by blast
    ultimately show ?thesis using u qs(5) m managed_trans [OF qs(4)]
      by (intro exI [of _ u] exI [of _ rs] exI [of _ k]) simp
  qed
qed


section \<open>The batch is handed over\<close>

lemma map_list_none: "map_list vas None m va = (if va \<in> set vas then None else m va)"
proof -
  have "map_all (zip vas (replicate (length vas) None)) m va = (if va \<in> set vas then None else m va)"
  proof (induction vas arbitrary: m)
    case (Cons x vas)
    then show ?case by (cases "va = x") auto
  qed simp
  then show ?thesis by (simp add: map_list_def)
qed

lemma unmap_sys:
  assumes inv: "sys_inv s C K" and m: "maps_ok (s\<lparr>va_map := m\<rparr>) K"
  shows "sys_inv (s\<lparr>va_map := m\<rparr>) C K"
proof -
  let ?u = "s\<lparr>va_map := m\<rparr>"
  note inv' = sys_invD [OF inv]
  have st: "page_states ?u = page_states s" by (simp add: page_states_def)
  have "lists_ok ?u C" using inv'(5) by (subst lists_ok_cong [of _ s]) simp_all
  moreover have "members_ok ?u C K" using inv'(6) by (subst members_cong [of _ s]) simp_all
  moreover have "locks_ok ?u K"
    using inv'(7) by (auto simp: locks_ok_def pfn_free_def pfn_held_def pte_free_def split: if_splits)
  ultimately show ?thesis using inv' m
    by (simp add: sys_inv_def frames_ok_def slots_ok_def users_ok_def kernel_va_def st)
qed

lemma collect_trimmed_run:
  assumes "sys_inv s C K" and "temp_ok s l ds" and "set ds \<subseteq> K" and "set fs \<subseteq> K" and "distinct (ds @ fs)"
    and "\<forall>f \<in> set fs. \<exists>i < entries s. view (book_of s) i = TransitionView f \<and> fstatus (book_of s) f = PFN_ACTIVE"
    and "\<forall>f \<in> set ds. fstatus (book_of s) f = PFN_MODIFIED" and "maps_ok s {}"
  shows "\<exists>u. collect_trimmed l (map FramePfn fs) s = Inr ((), u) \<and> sys_inv u C K \<and> temp_ok u l (ds @ fs) \<and>
     (\<forall>f \<in> set (ds @ fs). fstatus (book_of u) f = PFN_MODIFIED) \<and> maps_ok u {} \<and> managed s u \<and>
     page_states u = page_states s \<and> pte_to_trim u = pte_to_trim s \<and> pf u = pf s"
  using assms
proof (induction fs arbitrary: s ds)
  case Nil
  then show ?case using managed_refl by (intro exI [of _ s]) (simp add: collect_trimmed_def prog_simps)
next
  case (Cons f fs)
  let ?p = "FramePfn f" and ?g = "SET_PFN_STATUS PFN_MODIFIED"
  note inv = Cons.prems(1) and inv' = sys_invD [OF Cons.prems(1)]
  have fK: "f \<in> K" "f \<notin> set ds" using Cons.prems(4,5) by auto
  obtain i where i: "i < entries s" "view (book_of s) i = TransitionView f" "fstatus (book_of s) f = PFN_ACTIVE"
    using Cons.prems(6) by auto
  define t where "t = s\<lparr>pfns := on_cell ?p ?g (pfns s)\<rparr>"
  have slot: "slot_of (?g (pfns s ?p)) = fslot (book_of s) f" "status_of (?g (pfns s ?p)) = PFN_MODIFIED"
    by (simp_all add: book_of_def)
  have own: "PTE (?g q) = PTE q" for q by simp
  have st: "PFN_MODIFIED \<in> {PFN_MODIFIED, PFN_MID_WRITE, PFN_STANDBY}" by simp
  note held = held_status_book [OF inv fK(1) i(1,2) own slot(2,1) st, folded t_def]
  have old: "page_states s i = Modified f" using i by (simp add: page_states_def entry_state_def)
  then have states: "page_states t = page_states s" using held(3) by auto
  have tf: "vm t = vm s" "pf t = pf s" "ram t = ram s" "committed t = committed s" "entries t = entries s"
    "va_map t = va_map s" "pte_to_trim t = pte_to_trim s" "lists t = lists s" by (simp_all add: t_def)
  have pg: "paging_of t = paging_of s" by (simp add: paging_of_def states tf)
  have keep: "keeps_links ?g" by (simp add: keeps_links_def)
  have lock: "lock_of (?g q) = lock_of q" for q by simp
  have sys: "sys_inv t C K"
    by (rule held_status_sys [OF inv fK(1) i(1,2) own slot(2,1) keep lock st, folded t_def])
      (use inv'(3,4) in \<open>simp_all add: pg slots_ok_def states tf\<close>)
  have temp: "temp_ok t l ds"
    using Cons.prems(2) dll_keeps [OF keep] by (simp add: temp_ok_def wf_list_def t_def core_lists_def)
  note ins = temp_insert [OF sys temp Cons.prems(3) fK]
  define u where "u = t\<lparr>pfns := append_page (head (lists t l)) ?p (pfns t)\<rparr>"
  note ins = ins [folded u_def]
  have uf: "vm u = vm s" "committed u = committed s" "entries u = entries s" "va_map u = va_map s"
    "pte_to_trim u = pte_to_trim s" "pf u = pf s" by (simp_all add: u_def tf)
  have ust: "page_states u = page_states s" using ins(4) states by (simp add: page_states_def uf tf)
  have bk: "view (book_of u) = view (book_of s)" "fstatus (book_of u) = (fstatus (book_of s))(f := PFN_MODIFIED)"
    by (simp_all add: ins(4) held(1) book_status_def)
  have "pfn_ok s ?p" using locks_okD(1) [OF inv'(7) fK(1)] .
  then have run: "collect_trimmed l (map FramePfn (f # fs)) s = collect_trimmed l (map FramePfn fs) u"
    using ins(1) by (simp add: collect_trimmed_def prog_simps t_def)
  have "\<exists>v. collect_trimmed l (map FramePfn fs) u = Inr ((), v) \<and> sys_inv v C K \<and> temp_ok v l ((ds @ [f]) @ fs) \<and>
     (\<forall>h \<in> set ((ds @ [f]) @ fs). fstatus (book_of v) h = PFN_MODIFIED) \<and> maps_ok v {} \<and> managed u v \<and>
     page_states v = page_states u \<and> pte_to_trim v = pte_to_trim u \<and> pf v = pf u"
  proof (rule Cons.IH)
    show "\<forall>h \<in> set fs. \<exists>i < entries u. view (book_of u) i = TransitionView h \<and> fstatus (book_of u) h = PFN_ACTIVE"
      using Cons.prems(5,6) by (auto simp: bk uf)
    show "\<forall>h \<in> set (ds @ [f]). fstatus (book_of u) h = PFN_MODIFIED" using Cons.prems(7) by (auto simp: bk)
    show "maps_ok u {}" using Cons.prems(8) by (simp add: maps_ok_def ust uf)
  qed (use ins(2,3) Cons.prems fK in auto)
  moreover have "managed s u" using ins(5) pg uf by (intro managed_same) simp_all
  ultimately show ?case unfolding run using ust uf managed_trans by auto
qed


lemma check_to_start_writer_run: "\<exists>ev. check_to_start_writer s = Inr ((), s\<lparr>events := ev\<rparr>)"
proof (cases "unat (list_size (lists s standby_list)) < nat (LOW_PAGE_THRESHOLD div 8)")
  case True
  then show ?thesis by (auto simp: check_to_start_writer_def prog_simps get_size_def)
next
  case False
  then show ?thesis by (intro exI [of _ "events s"]) (simp add: check_to_start_writer_def prog_simps get_size_def)
qed


text \<open>The pages of a batch leave the address space; all the others stay mapped as they were.\<close>

lemma unmap_batch_maps:
  assumes inv: "sys_inv s C (snd ` set ps)" and mid: "mid_trim g ps s"
  shows "maps_ok (s\<lparr>va_map := map_list (map snd (batch_of (vm s) ps)) None (va_map s)\<rparr>) {}"
proof -
  let ?m = "map_list (map snd (batch_of (vm s) ps)) None (va_map s)"
  note inv' = sys_invD [OF inv]
  have vas: "set (map snd (batch_of (vm s) ps)) = va_of (vm s) ` fst ` set ps"
    by (force simp: batch_of_def)
  have ps: "j < entries s" "page_states s j = Modified f" if "(j, f) \<in> set ps" for j f
  proof -
    have st: "page_states s = trim_states (fst ` set ps) g" "g j = Resident f" "j < entries s"
      using mid that by (auto simp: mid_trim_def)
    then show "j < entries s" "page_states s j = Modified f" using that by (force simp: trim_states_def)+
  qed
  have "?m (va_of (vm s) i) = (case page_states s i of Resident f \<Rightarrow> Some f | _ \<Rightarrow> None)" if i: "i < entries s" for i
  proof (cases "i \<in> fst ` set ps")
    case True
    then obtain f where "(i, f) \<in> set ps" by auto
    then show ?thesis using True ps(2) vas by (simp add: map_list_none)
  next
    case False
    have "va_of (vm s) i \<noteq> va_of (vm s) j" if "j \<in> fst ` set ps" for j
      using va_of_inj [OF inv'(1) i, of j] ps(1) that False by fastforce
    moreover have "frame_of (page_states s i) \<noteq> Some f" if "(j, f) \<in> set ps" for j f
    proof
      assume "frame_of (page_states s i) = Some f"
      moreover have "frame_of (page_states s j) = Some f" using ps(2) [OF that] by simp
      ultimately have "i = j" using same_frame [OF inv'(3), of i f j] by (simp add: page_states_state)
      then show False using that False by force
    qed
    then have "frame_of (page_states s i) \<notin> Some ` snd ` set ps" by auto blast
    then have "va_map s (va_of (vm s) i) = (case page_states s i of Resident f \<Rightarrow> Some f | _ \<Rightarrow> None)"
      using inv'(8) i by (simp add: maps_ok_def)
    ultimately show ?thesis using vas by (auto simp: map_list_none)
  qed
  then show ?thesis by (simp add: maps_ok_def page_states_def)
qed

lemma trim_finish_run:
  assumes inv: "sys_inv s C (snd ` set ps)" and mid: "mid_trim g ps s" and j: "j < entries s" and w: "awe_spec w"
  shows "\<exists>u C'. trim_finish w j (batch_of (vm s) ps) s = Inr (of_nat (length ps), u) \<and> sys_inv u C' {} \<and>
     managed s u \<and> page_states u = trim_states (fst ` set ps) g \<and> pte_to_trim u = (if ps = [] then pte_to_trim s else j) \<and>
     pf u = pf s"
proof (cases "ps = []")
  case True
  obtain ev where "check_to_start_writer s = Inr ((), s\<lparr>events := ev\<rparr>)" using check_to_start_writer_run by blast
  moreover have "managed s (s\<lparr>events := ev\<rparr>)" by (intro managed_same) simp_all
  ultimately show ?thesis using True inv mid
    by (intro exI [of _ "s\<lparr>events := ev\<rparr>"] exI [of _ C])
      (simp add: trim_finish_def batch_of_def prog_simps mid_trim_def page_states_def)
next
  case False
  let ?l = "temp_list TRIMMING_THREAD_ID" and ?fs = "map snd ps"
  let ?m = "map_list (map snd (batch_of (vm s) ps)) None (va_map s)"
  let ?s1 = "s\<lparr>va_map := ?m, pte_to_trim := j\<rparr>"
  have K: "snd ` set ps = set ?fs" by simp
  have maps1: "maps_ok (s\<lparr>va_map := ?m\<rparr>) {}" by (rule unmap_batch_maps [OF inv mid])
  have "maps_ok (s\<lparr>va_map := ?m\<rparr>) (set ?fs)" using maps1 by (simp add: maps_ok_def)
  then have sys1: "sys_inv ?s1 C (set ?fs)" using unmap_sys [OF inv] by simp
  have b1: "book_of ?s1 = book_of s" "paging_of ?s1 = paging_of s" "page_states ?s1 = page_states s"
    by (simp_all add: paging_of_def page_states_def)
  obtain t where t: "initialize_page_list ?l ?s1 = Inr ((), t)" "sys_inv t C (set ?fs)" "temp_ok t ?l []"
    "book_of t = book_of s" "paging_of t = paging_of s" "vm t = vm s" "committed t = committed s"
    "page_states t = page_states s" "va_map t = ?m" "pte_to_trim t = j" "pf t = pf s"
    using new_temp [OF sys1, of TRIMMING_THREAD_ID] unfolding b1 by auto
  have te: "entries t = entries s" by (simp add: entries_def t(6))
  have maps_t: "maps_ok t {}" using maps1 by (simp add: maps_ok_def t te page_states_def)
  have dist: "distinct ?fs" using mid by (simp add: mid_trim_def)
  have "\<forall>f \<in> set ?fs. \<exists>i < entries t. view (book_of t) i = TransitionView f \<and> fstatus (book_of t) f = PFN_ACTIVE"
    using mid by (force simp: t te mid_trim_def)
  from collect_trimmed_run [OF t(2,3) _ subset_refl _ this _ maps_t] dist obtain v where
    v: "collect_trimmed ?l (map FramePfn ?fs) t = Inr ((), v)" "sys_inv v C (set ?fs)" "temp_ok v ?l ?fs"
    "\<forall>f \<in> set ?fs. fstatus (book_of v) f = PFN_MODIFIED" "maps_ok v {}" "managed t v"
    "page_states v = page_states t" "pte_to_trim v = pte_to_trim t" "pf v = pf t" by auto
  have ne: "?fs \<noteq> []" using False by simp
  have l: "modified_list \<in> core_lists v" by simp
  have st: "\<forall>f \<in> set ?fs. fstatus (book_of v) f = home_status modified_list" using v(4) by simp
  note pub = publish_sys [OF v(2) subset_refl v(3) ne dist l st v(5)] and run = publish_run [OF v(2,3) ne dist l st v(5)]
  let ?v = "published modified_list ?l ?fs v" and ?P = "append_list (head (lists v modified_list))
      (FramePfn (hd ?fs)) (FramePfn (last ?fs)) (pfns v)"
  obtain m where m: "insert_list_to_tail_list modified_list ?l v = Inr ((), v\<lparr>pfns := ?P, spin := m\<rparr>)"
    "unlock_batch (length ?fs) (FramePfn (hd ?fs)) (v\<lparr>pfns := ?P, spin := m,
        lists := resize modified_list (of_nat (length ?fs)) (lists v)\<rparr>) = Inr ((), ?v\<lparr>spin := m\<rparr>)"
    using run(1) by blast
  obtain ev where ev: "check_to_start_writer (?v\<lparr>spin := m\<rparr>) = Inr ((), ?v\<lparr>spin := m, events := ev\<rparr>)"
    using check_to_start_writer_run by blast
  let ?u = "?v\<lparr>spin := m, events := ev\<rparr>"
  have scatter: "MapUserPhysicalPagesScatter w (map snd (batch_of (vm s) ps)) None (va_map s) = Some ?m"
    using w by (simp add: awe_spec_def)
  have len: "length (batch_of (vm s) ps) = length ?fs" "map fst (batch_of (vm s) ps) = map FramePfn ?fs"
    "batch_of (vm s) ps \<noteq> []" using False by (auto simp: batch_of_def)
  have "trim_finish w j (batch_of (vm s) ps) s = Inr (of_nat (length ps), ?u)"
    using len scatter t(1) v(1) m run(2,3) ev
    by (simp add: trim_finish_def prog_simps Let_def)
  moreover have "managed s ?u"
  proof -
    have "managed s t" using t j by (simp add: managed_def)
    moreover have "managed v ?u" using pub(2) by (intro managed_same) (simp_all add: published_def)
    ultimately show ?thesis using v(6) managed_trans by blast
  qed
  moreover have "page_states ?u = trim_states (fst ` set ps) g"
  proof -
    have "page_states ?u = page_states v"
      using pub(2) by (metis page_states_state paging_of_irrelevant(2,4))
    then show ?thesis using v(7) t(8) mid by (simp add: mid_trim_def)
  qed
  moreover have "pte_to_trim ?u = j" "pf ?u = pf s" using v(8,9) t(10,11) by (simp_all add: published_def)
  ultimately show ?thesis using pub(1) False by (intro exI [of _ ?u]) auto
qed

lemma next_pte_steps:
  assumes "i < unat (num_ptes v)"
  shows "(next_pte v ^^ k) i = (i + k) mod unat (num_ptes v)"
proof (induction k)
  case (Suc k)
  have "(i + k) mod unat (num_ptes v) < unat (num_ptes v)" using assms by (intro mod_less_divisor) simp
  then show ?case using Suc by (auto simp: next_pte_def mod_Suc)
qed (use assms in simp)

text \<open>The walk comes by every entry of a table of at most \<open>n\<close> entries.\<close>

lemma next_pte_reaches:
  assumes "i < unat (num_ptes v)" and "j < unat (num_ptes v)" and "unat (num_ptes v) \<le> n"
  shows "\<exists>k < n. (next_pte v ^^ Suc k) i = j"
proof -
  let ?n = "unat (num_ptes v)" let ?k = "(j + ?n - Suc i) mod ?n"
  have "(i + Suc ?k) mod ?n = (Suc i + (j + ?n - Suc i)) mod ?n" by (metis add_Suc_right add_Suc mod_add_right_eq)
  also have "\<dots> = j" using assms(1,2) by simp
  finally have "(next_pte v ^^ Suc ?k) i = j" using next_pte_steps [OF assms(1), of "Suc ?k"] by simp
  moreover have "?k < n" using assms by (meson le_less_trans less_le_trans mod_less_divisor zero_le)
  ultimately show ?thesis by blast
qed

lemma trim_pages_run:
  assumes inv: "sys_inv s C {}" and i: "pte_to_trim s < entries s" and w: "awe_spec w"
  shows "\<exists>u C' T. trim_pages w s = Inr (of_nat (card T), u) \<and> sys_inv u C' {} \<and> managed s u \<and>
     pte_to_trim u < entries u \<and> card T \<le> unat MAX_TRIM_BATCH_SIZE \<and>
     (\<forall>i \<in> T. i < entries s \<and> (\<exists>f. page_states s i = Resident f)) \<and>
     page_states u = trim_states T (page_states s) \<and> pf u = pf s \<and>
     (calm s \<and> entries s \<le> unat MAX_TRIM_ATTEMPTS \<and> (\<exists>j < entries s. unaccessed s j) \<longrightarrow> T \<noteq> {})"
proof -
  have mid: "mid_trim (page_states s) [] s" by (simp add: mid_trim_def trim_states_def)
  have "sys_inv s C (snd ` set [])" using inv by simp
  from trim_walk_run [OF this mid i, of "unat MAX_TRIM_ATTEMPTS"] obtain t qs j where
    walk: "trim_walk (unat MAX_TRIM_ATTEMPTS) (pte_to_trim s) [] s = Inr ((j, batch_of (vm s) qs), t)"
    and t: "sys_inv t C (snd ` set qs)" "mid_trim (page_states s) qs t" "managed s t" "j < entries s" "length qs \<le> 2048"
    "pte_to_trim t = pte_to_trim s \<and> pf t = pf s"
    "calm s \<and> (\<exists>k < unat MAX_TRIM_ATTEMPTS. unaccessed s ((next_pte (vm s) ^^ Suc k) (pte_to_trim s))) \<longrightarrow> qs \<noteq> []"
    by (auto simp: batch_of_def)
  note m = managedD [OF t(3)]
  have "j < entries t" using t(4) m(2) by simp
  from trim_finish_run [OF t(1,2) this w] obtain u C' where
    u: "trim_finish w j (batch_of (vm t) qs) t = Inr (of_nat (length qs), u)" "sys_inv u C' {}" "managed t u"
    "page_states u = trim_states (fst ` set qs) (page_states s)"
    "pte_to_trim u = (if qs = [] then pte_to_trim t else j)" "pf u = pf t" by blast
  have card: "card (fst ` set qs) = length qs"
    using t(2) distinct_card [of "map fst qs"] by (simp add: mid_trim_def)
  have "trim_pages w s = Inr (of_nat (card (fst ` set qs)), u)"
    using walk u(1) m(1) by (simp add: trim_pages_def prog_simps card del: of_nat_unat)
  moreover have "pte_to_trim u < entries u" using u(5) t(4,6) i managedD(2) [OF u(3)] m(2) by simp
  moreover have "\<forall>i \<in> fst ` set qs. i < entries s \<and> (\<exists>f. page_states s i = Resident f)"
    using t(2) m(2) by (auto simp: mid_trim_def)
  moreover have "qs \<noteq> []" if c: "calm s" "entries s \<le> unat MAX_TRIM_ATTEMPTS" "j < entries s" "unaccessed s j" for j
  proof -
    from next_pte_reaches [of "pte_to_trim s" "vm s" j "unat MAX_TRIM_ATTEMPTS"] i c(2,3)
    obtain k where "k < unat MAX_TRIM_ATTEMPTS" "(next_pte (vm s) ^^ Suc k) (pte_to_trim s) = j"
      unfolding entries_def by blast
    then show ?thesis using t(7) c(1,4) by blast
  qed
  ultimately show ?thesis using u t(5,6) card managed_trans [OF t(3) u(3)]
    by (intro exI [of _ u] exI [of _ C'] exI [of _ "fst ` set qs"]) auto
qed

end
