(* ===== verification/Write_Collection.thy ===== *)
theory Write_Collection
  imports Trim_Refinement
begin

text \<open>
  threads/writer.c on the whole system, first part: the slots for a batch, and the pages that are taken
  off the modified list, marked mid-write and unlocked.
\<close>

section \<open>The page file changes\<close>

lemma disk_change_sys:
  assumes inv: "sys_inv s C K" and d: "slots_ok (s\<lparr>pf := d\<rparr>)" "paging_inv (paging_of (s\<lparr>pf := d\<rparr>))"
  shows "sys_inv (s\<lparr>pf := d\<rparr>) C K"
proof -
  let ?u = "s\<lparr>pf := d\<rparr>"
  note inv' = sys_invD [OF inv]
  have st: "page_states ?u = page_states s" by (simp add: page_states_def)
  have "lists_ok ?u C" using inv'(5) by (subst lists_ok_cong [of _ s]) simp_all
  moreover have "members_ok ?u C K" using inv'(6) by (subst members_cong [of _ s]) simp_all
  moreover have "locks_ok ?u K"
    using inv'(7) by (auto simp: locks_ok_def pfn_free_def pfn_held_def pte_free_def split: if_splits)
  ultimately show ?thesis using inv' d
    by (simp add: sys_inv_def frames_ok_def maps_ok_def users_ok_def kernel_va_def st)
qed

lemma disk_update_states [simp]: "page_states (s\<lparr>pf := d\<rparr>) = page_states s" "maps_ok (s\<lparr>pf := d\<rparr>) K = maps_ok s K"
  by (simp_all add: page_states_def maps_ok_def)

lemma slots_okD:
  assumes "slots_ok s"
  shows "pf_inv (vm s) (pf s)"
    and "slot_held (page_states s i) = Some d \<Longrightarrow> unat d \<in> slots_used (pf s) - {0} - set (stash (pf s))"
  using assms by (auto simp: slots_ok_def)


section \<open>Slots\<close>

lemma sint_pos: "unat (w :: u64) < 2 ^ 63 \<Longrightarrow> w \<noteq> 0 \<Longrightarrow> \<not> sint w < 1"
proof -
  assume "unat w < 2 ^ 63" "w \<noteq> 0"
  then have "sint w = int (unat w)" "0 < unat w" using sint_small unat_gt_0 by blast+
  then show ?thesis by linarith
qed

text \<open>The writer aims at no more pages than it has slots for, and at some if it can.\<close>

lemma write_target_run:
  assumes inv: "sys_inv s C {}"
  shows "\<exists>d n. write_target s = Inr (n, s\<lparr>pf := d\<rparr>) \<and> sys_inv (s\<lparr>pf := d\<rparr>) C {} \<and> managed s (s\<lparr>pf := d\<rparr>) \<and>
     unat n \<le> 4096 \<and> unat n \<le> length (stash d) \<and>
     (C modified_list \<noteq> [] \<and> empty_disk_slots (pf s) \<noteq> 0 \<longrightarrow> n \<noteq> 0)"
proof -
  note inv' = sys_invD [OF inv] and slots = slots_okD [OF sys_invD(4) [OF inv]]
  have size: "list_size (lists s modified_list) = of_nat (length (C modified_list))"
    using inv'(5) by (simp add: lists_ok_def)
  have short: "length (C modified_list) < 2 ^ 64" using core_short [OF inv'(5)] by simp
  define goal where "goal = min 4096 (list_size (lists s modified_list))"
  have t: "unat goal \<le> 4096" "C modified_list \<noteq> [] \<Longrightarrow> goal \<noteq> 0"
  proof -
    show "unat goal \<le> 4096" by (simp add: goal_def min_def word_le_nat_alt)
    assume "C modified_list \<noteq> []"
    then have "unat (list_size (lists s modified_list)) \<noteq> 0"
      using short by (simp add: size unat_of_nat)
    then have "list_size (lists s modified_list) \<noteq> 0" by auto
    then show "goal \<noteq> 0" by (simp add: goal_def min_def)
  qed
  have small: "unat (empty_disk_slots (pf s)) < 2 ^ 63"
    using slots(1) by (auto simp: pf_inv_def pf_shape_def)
  have run: "write_target s = (if sint (empty_disk_slots (pf s)) < 1 then return 0 s else
      bind (run_if (num_stashed_slots (pf s) < goal) (on_disk (set_and_add_slots_to_stack (vm s) goal))) (\<lambda>_.
      bind (gets (\<lambda>s. num_stashed_slots (pf s))) (\<lambda>n.
        if sint n < 1 then return 0 else return (min n goal))) s)"
    unfolding write_target_def MAX_WRITE_BATCH_SIZE_def MIN_WRITE_BATCH_SIZE_def goal_def
    by (simp add: prog_simps get_size_def Let_def)
  show ?thesis
  proof (cases "empty_disk_slots (pf s) = 0")
    case True
    then have "write_target s = Inr (0, s\<lparr>pf := pf s\<rparr>)" using run by (simp add: prog_simps)
    moreover have "sys_inv (s\<lparr>pf := pf s\<rparr>) C {}" "managed s (s\<lparr>pf := pf s\<rparr>)" using inv by (auto simp: managed_same)
    ultimately show ?thesis using True by (intro exI [of _ "pf s"] exI [of _ 0]) simp
  next
    case False
    then have pos: "\<not> sint (empty_disk_slots (pf s)) < 1" using small by (rule sint_pos [rotated])
    obtain d where d: "run_if (num_stashed_slots (pf s) < goal) (on_disk (set_and_add_slots_to_stack (vm s) goal)) s =
        Inr ((), s\<lparr>pf := d\<rparr>)" "pf_inv (vm s) d" "page_file d = page_file (pf s)"
      "\<And>i e. slot_held (page_states s i) = Some e \<Longrightarrow> unat e \<in> slots_used d - {0} - set (stash d)"
      "goal \<noteq> 0 \<Longrightarrow> num_stashed_slots d \<noteq> 0"
    proof (cases "num_stashed_slots (pf s) < goal")
      case True
      have tm: "unat goal \<le> unat MAX_WRITE_BATCH_SIZE" using t(1) by simp
      obtain d new where d: "set_and_add_slots_to_stack (vm s) goal (pf s) = Inr ((), d)" "pf_inv (vm s) d"
        "stash d = stash (pf s) @ new" "slots_used d = slots_used (pf s) \<union> set new" "page_file d = page_file (pf s)"
        "goal \<le> num_stashed_slots d \<or> slots_used d = {..<slot_count d}" "set new \<inter> slots_used (pf s) = {}"
        using set_and_add_slots_to_stack_run [OF slots(1) tm True] by blast
      have n: "num_stashed_slots d \<noteq> 0" if "goal \<noteq> 0"
      proof (cases "goal \<le> num_stashed_slots d")
        case True
        then show ?thesis using that by auto
      next
        case full: False
        have "set new \<noteq> {}"
        proof
          assume "set new = {}"
          then have "slots_used (pf s) = {..<slot_count d}" using d(4,6) full by simp
          moreover have "slot_count d = slot_count (pf s)"
            using d(2) slots(1) by (simp add: pf_inv_def pf_shape_def)
          ultimately have "card (slots_used (pf s)) = slot_count (pf s)" by simp
          then have "unat (empty_disk_slots (pf s)) = 0" using slots(1) by (simp add: pf_inv_def)
          then show False using False by (simp add: unat_eq_0)
        qed
        then have "length (stash d) \<noteq> 0" using d(3) by auto
        then show ?thesis by auto
      qed
      have run': "run_if (num_stashed_slots (pf s) < goal) (on_disk (set_and_add_slots_to_stack (vm s) goal)) s =
        Inr ((), s\<lparr>pf := d\<rparr>)" using True d(1) by (simp only: run_if_True) (rule on_disk_run)
      have held: "unat e \<in> slots_used d - {0} - set (stash d)" if "slot_held (page_states s i) = Some e" for i e
        using slots(2) [OF that] d(3,4,7) by auto
      show ?thesis by (rule that [of d]) (fact run', fact d(2), fact d(5), erule held, erule n)
    next
      case False
      then have run': "run_if (num_stashed_slots (pf s) < goal) (on_disk (set_and_add_slots_to_stack (vm s) goal)) s =
        Inr ((), s\<lparr>pf := pf s\<rparr>)" by (simp add: run_if_def return_def)
      have n: "num_stashed_slots (pf s) \<noteq> 0" if "goal \<noteq> 0" using False that by (auto simp: word_gt_0)
      show ?thesis by (rule that [of "pf s"]) (fact run', fact slots(1), rule refl, erule slots(2), erule n)
    qed
    let ?u = "s\<lparr>pf := d\<rparr>" let ?n = "if sint (num_stashed_slots d) < 1 then 0 else min (num_stashed_slots d) goal"
    have pg: "paging_of ?u = paging_of s" using d(3) by (simp add: paging_of_def)
    have "slots_ok ?u" using d(2,4) by (simp add: slots_ok_def)
    then have "sys_inv ?u C {}" using disk_change_sys [OF inv] inv'(3) by (simp add: pg)
    moreover have "managed s ?u" using pg by (intro managed_same) simp_all
    moreover have "write_target s = Inr (?n, ?u)" using run pos d(1) by (simp add: prog_simps)
    moreover have "unat ?n \<le> 4096" "unat ?n \<le> length (stash d)"
      using t(1) by (auto simp: min_def word_le_nat_alt)
    moreover have "?n \<noteq> 0" if "C modified_list \<noteq> []"
    proof -
      have n: "num_stashed_slots d \<noteq> 0" using t(2) that d(5) by blast
      have "unat (num_stashed_slots d) < 2 ^ 63" using pf_inv_stash_size [OF d(2)] by simp
      then have "\<not> sint (num_stashed_slots d) < 1" using n by (rule sint_pos)
      then show ?thesis using n t(2) [OF that] by (simp add: min_def)
    qed
    ultimately show ?thesis by blast
  qed
qed


section \<open>Locking and unlocking a page that is being written\<close>

lemma relock_sys:
  assumes inv: "sys_inv s C K" and f: "f \<in> frames s" "fstatus (book_of s) f = PFN_MID_WRITE"
    and maps: "maps_ok s {}" and same: "K' - {f} = K - {f}"
  defines "u \<equiv> s\<lparr>pfns := on_cell (FramePfn f) (set_semaphore (if f \<in> K' then 1 else 0)) (pfns s)\<rparr>"
  shows "sys_inv u C K'" and "book_of u = book_of s" and "paging_of u = paging_of s" and "maps_ok u {}"
proof -
  note inv' = sys_invD [OF inv]
  have st: "fstatus (book_of s) f \<notin> {PFN_MODIFIED, PFN_STANDBY, PFN_FREE, PFN_ACTIVE}" using f(2) by simp
  show b: "book_of u = book_of s" by (simp add: u_def)
  have fields: "entries u = entries s" "frames u = frames s" "vm u = vm s" "va_map u = va_map s" "pf u = pf s"
    "ram u = ram s" "pfn_ok u p = pfn_ok s p" for p by (simp_all add: u_def)
  have states: "page_states u = page_states s" by (simp add: page_states_def b fields)
  show pg: "paging_of u = paging_of s" by (simp add: paging_of_def states fields)
  show maps': "maps_ok u {}" using maps by (simp add: maps_ok_def states fields)
  have K': "K' \<subseteq> frames s" using same f(1) locks_okD(5) [OF inv'(7)] by blast
  have "lists_ok u C" using inv'(5) by (subst lists_ok_cong [of _ s]) (simp_all add: u_def on_cells_def)
  moreover have "members_ok u C K'"
  proof -
    have c: "cache u = cache s" by (simp add: cache_def u_def fun_eq_iff)
    have p: "pool u C = pool s C" "caches_ok u C = caches_ok s C"
      by (simp_all add: pool_def caches_ok_def cached_by_def listed_def c) (simp_all add: u_def)
    have "{h \<in> frames s - K'. fstatus (book_of s) h = x} = {h \<in> frames s - K. fstatus (book_of s) h = x}"
      if "x \<in> {PFN_MODIFIED, PFN_STANDBY, PFN_FREE}" for x
      using st that same by blast
    then show ?thesis using inv'(6) by (simp add: members_ok_def p fields b)
  qed
  moreover have "locks_ok u K'"
  proof (rule locks_okI)
    have other: "g \<noteq> f \<Longrightarrow> g \<in> K' \<longleftrightarrow> g \<in> K" for g using same by blast
    show "lock_of (pfns u (FramePfn g)) = 1" if "g \<in> K'" for g
      using that other [of g] locks_okD(2) [OF inv'(7), of g] by (auto simp: u_def on_cells_def)
    show "lock_of (pfns u p) = 0" if "pfn_ok u p" "p \<notin> FramePfn ` K'" for p
    proof (cases "p = FramePfn f")
      case True
      then show ?thesis using that by (auto simp: u_def on_cells_def)
    next
      case False
      then have "p \<notin> FramePfn ` K" using that(2) other by auto
      then show ?thesis using False that(1) locks_okD(3) [OF inv'(7), of p] by (simp add: u_def on_cells_def)
    qed
  qed (use K' locks_okD(4) [OF inv'(7)] in \<open>simp_all add: fields u_def\<close>)
  moreover have "maps_ok u K'" using maps' by (simp add: maps_ok_def)
  moreover have "book_ok (entries u) (frames u) K' (book_of u)"
    unfolding b fields by (rule book_hand [OF inv'(2)]) (use st same in blast)
  moreover have "users_ok u" "frames_ok u" "slots_ok u"
    using inv' by (simp_all add: users_ok_def frames_ok_def kernel_va_def slots_ok_def states fields) (simp add: u_def)
  ultimately show "sys_inv u C K'" using inv'(3) pg by (simp add: sys_inv_def)
qed


section \<open>Marking a batch\<close>

lemma mark_one_sys:
  assumes inv: "sys_inv s C (insert f K)" and f: "f \<notin> K" and st: "fstatus (book_of s) f = PFN_MODIFIED"
    and maps: "maps_ok s {}"
  defines "u \<equiv> s\<lparr>pfns := on_cell (FramePfn f) (\<lambda>q. unlocked_pfn (set_pfn_mid_write q)) (pfns s)\<rparr>"
  shows "sys_inv u C K" and "manager_step (paging_of s) (paging_of u)" and "maps_ok u {}"
    and "fstatus (book_of u) = (fstatus (book_of s))(f := PFN_MID_WRITE)"
proof -
  let ?K = "insert f K"
  note inv' = sys_invD [OF inv]
  have fr: "f \<in> frames s" using locks_okD(5) [OF inv'(7)] by simp
  obtain i where i: "i < entries s" "frame_at (view (book_of s) i) = Some f"
    using book_ok_frame [OF inv'(2) fr] st by auto
  have "entry_ok (frames s) ?K (book_of s) i" using inv'(2) i by (simp add: book_ok_def)
  then have view: "view (book_of s) i = TransitionView f"
    using i st by (cases "view (book_of s) i") (auto simp: entry_ok_def)
  let ?t = "s\<lparr>pfns := on_cell (FramePfn f) set_pfn_mid_write (pfns s)\<rparr>"
  have ow: "PTE (set_pfn_mid_write q) = PTE q" and lk: "lock_of (set_pfn_mid_write q) = lock_of q" for q by simp_all
  have keep: "keeps_links set_pfn_mid_write" by (simp add: keeps_links_def)
  have sl: "status_of (set_pfn_mid_write (pfns s (FramePfn f))) = PFN_MID_WRITE" by simp
  have mid: "PFN_MID_WRITE \<in> {PFN_MODIFIED, PFN_MID_WRITE, PFN_STANDBY}" and fK: "f \<in> ?K" by simp_all
  note held = held_status_book [OF inv fK i(1) view ow sl refl mid]
  have states: "page_states ?t = (page_states s)(i := Writing f)" using held(3) by simp
  have old: "page_states s i = Modified f" using view st i(1) by (simp add: page_states_def entry_state_def)
  have paging: "paging_of ?t = (paging_of s)\<lparr>state := (state (paging_of s))(i := Writing f)\<rparr>"
    by (simp add: paging_of_def states)
  have step: "manager_step (paging_of s) (paging_of ?t)"
    unfolding paging using old by (intro start_write) (simp add: page_states_state)
  have slots: "slots_ok ?t" using inv'(4) old by (auto simp: slots_ok_def states split: if_splits)
  have sys: "sys_inv ?t C ?K"
    by (rule held_status_sys [OF inv fK i(1) view ow sl refl keep lk mid])
      (use manager_step_inv [OF step inv'(3)] slots in simp_all)
  have stat: "fstatus (book_of ?t) = (fstatus (book_of s))(f := PFN_MID_WRITE)"
    by (simp add: held(1) book_status_def)
  have mapt: "maps_ok ?t {}" using maps old by (auto simp: maps_ok_def states)
  have "f \<in> frames ?t" "fstatus (book_of ?t) f = PFN_MID_WRITE" "K - {f} = ?K - {f}" using fr stat f by simp_all
  note re = relock_sys [OF sys this(1,2) mapt this(3)]
  have u: "u = ?t\<lparr>pfns := on_cell (FramePfn f) (set_semaphore (if f \<in> K then 1 else 0)) (pfns ?t)\<rparr>"
    using f by (simp add: u_def on_cell_same)
  show "sys_inv u C K" "manager_step (paging_of s) (paging_of u)" "maps_ok u {}"
    "fstatus (book_of u) = (fstatus (book_of s))(f := PFN_MID_WRITE)"
    using re step stat unfolding u by simp_all
qed

lemma mark_mid_write_run:
  assumes "sys_inv s C (set fs)" and "maps_ok s {}" and "distinct fs"
    and "\<forall>f \<in> set fs. fstatus (book_of s) f = PFN_MODIFIED" and "linked (pfns s) (map FramePfn fs)"
    and "fs \<noteq> [] \<Longrightarrow> p = FramePfn (hd fs)"
  shows "\<exists>u. mark_mid_write (length fs) p s = Inr (map FramePfn fs, u) \<and> sys_inv u C {} \<and> managed s u \<and> pf u = pf s \<and>
     (\<forall>g. fstatus (book_of u) g = (if g \<in> set fs then PFN_MID_WRITE else fstatus (book_of s) g))"
  using assms
proof (induction fs arbitrary: s p)
  case Nil
  then show ?case using managed_refl by (intro exI [of _ s]) (simp add: prog_simps)
next
  case (Cons f fs)
  let ?p = "FramePfn f" let ?u = "s\<lparr>pfns := on_cell ?p (\<lambda>q. unlocked_pfn (set_pfn_mid_write q)) (pfns s)\<rparr>"
  have p: "p = ?p" using Cons.prems by simp
  have inv: "sys_inv s C (insert f (set fs))" using Cons.prems(1) by simp
  note inv' = sys_invD [OF inv]
  have f: "f \<notin> set fs" "fstatus (book_of s) f = PFN_MODIFIED" using Cons.prems by simp_all
  note one = mark_one_sys [OF inv f Cons.prems(2)]
  have ok: "pfn_ok s ?p" "lock_of (pfns s ?p) = 1" using locks_okD(1,2) [OF inv'(7)] by simp_all
  have held: "lock_of (on_cell ?p set_pfn_mid_write (pfns s) ?p) = 1" using ok(2) by (simp add: on_cells_def)
  have fl: "flink (on_cell ?p set_pfn_mid_write (pfns s) ?p) = flink (pfns s ?p)" by (simp add: on_cells_def)
  have "linked (pfns ?u) (map FramePfn fs)"
  proof -
    have "linked (pfns ?u) (map FramePfn fs) = linked (pfns s) (map FramePfn fs)"
      by (rule linked_cong) (simp add: on_cells_def)
    then show ?thesis using Cons.prems(5) by (cases fs) simp_all
  qed
  moreover have "\<forall>g \<in> set fs. fstatus (book_of ?u) g = PFN_MODIFIED" using Cons.prems(3,4) one(4) by auto
  moreover have "fs \<noteq> [] \<Longrightarrow> flink (pfns s ?p) = FramePfn (hd fs)" using Cons.prems(5) by (cases fs) simp_all
  moreover have "distinct fs" using Cons.prems(3) by simp
  ultimately obtain v where v: "mark_mid_write (length fs) (flink (pfns s ?p)) ?u = Inr (map FramePfn fs, v)"
    "sys_inv v C {}" "managed ?u v" "pf v = pf ?u"
    "\<forall>g. fstatus (book_of v) g = (if g \<in> set fs then PFN_MID_WRITE else fstatus (book_of ?u) g)"
    using Cons.IH [of ?u "flink (pfns s ?p)"] one(1,3) by auto
  have "mark_mid_write (length (f # fs)) p s = Inr (map FramePfn (f # fs), v)"
    using ok held fl v(1) p by (simp add: prog_simps unlock_pfn_run pfn_held_def on_cell_same)
  moreover have "managed s ?u" using one(2) by (intro managed_step) simp_all
  ultimately show ?case using v managed_trans one(4) by (intro exI [of _ v]) auto
qed


section \<open>Collecting a batch\<close>

lemma collect_modified_run:
  assumes "sys_inv s C {}" and "set ps \<subseteq> frames s" and "\<forall>f \<in> set ps. fstatus (book_of s) f = PFN_MID_WRITE"
    and "distinct ps" and "length ps \<le> unat target" and "unat target \<le> 4096" and "misses < 5"
    and "unat target - length ps + (5 - unat misses) \<le> fuel"
  shows "\<exists>u C' fs. collect_modified fuel target misses (map FramePfn ps) s = Inr (map FramePfn (ps @ fs), u) \<and>
     sys_inv u C' {} \<and> managed s u \<and> pf u = pf s \<and> set (ps @ fs) \<subseteq> frames u \<and> distinct (ps @ fs) \<and>
     (\<forall>f \<in> set (ps @ fs). fstatus (book_of u) f = PFN_MID_WRITE) \<and> length (ps @ fs) \<le> unat target \<and>
     (C modified_list \<noteq> [] \<and> length ps < unat target \<longrightarrow> fs \<noteq> [])"
  using assms
proof (induction fuel arbitrary: s C ps misses)
  case 0
  then have "unat misses < 5" by (simp add: word_less_nat_alt)
  then show ?case using 0 by simp
next
  case (Suc fuel)
  note inv = Suc.prems(1) and inv' = sys_invD [OF Suc.prems(1)]
  show ?case
  proof (cases "unat target \<le> length ps")
    case True
    then show ?thesis using Suc.prems managed_refl
      by (intro exI [of _ s] exI [of _ C] exI [of _ "[]"]) (simp add: prog_simps)
  next
    case False
    let ?cap = "target - of_nat (length ps)" and ?l = modified_list
    have cap: "unat ?cap = unat target - length ps"
      using Suc.prems(5,6) by (subst unat_sub) (simp_all add: word_le_nat_alt unat_of_nat)
    have core: "?l \<in> core_lists s" by simp
    have pos: "0 < unat ?cap" using cap False by simp
    from remove_batch_from_list_head_run [OF core_wf [OF inv'(5) core] core_free [OF inv'(5) core]
        locks_apart [OF inv core] pos core_short [OF inv'(5) core]]
    obtain m where m: "(C ?l = [] \<and> remove_batch_from_list_head ?l ?cap s = Inr ((0, NullPfn), s\<lparr>spin := m\<rparr>)) \<or>
       (\<exists>k. C ?l \<noteq> [] \<and> 0 < k \<and> k \<le> length (C ?l) \<and> k \<le> unat ?cap \<and> remove_batch_from_list_head ?l ?cap s =
          Inr ((of_nat k, hd (C ?l)), (batch_removed ?l (C ?l) k s)\<lparr>spin := m\<rparr>))" by blast
    show ?thesis
    proof (cases "C ?l = []")
      case True
      let ?t = "s\<lparr>spin := m\<rparr>"
      have run: "remove_batch_from_list_head ?l ?cap s = Inr ((0, NullPfn), ?t)" using m True by simp
      have ms: "managed s ?t" by (intro managed_same) simp_all
      show ?thesis
      proof (cases "misses + 1 = BATCH_ATTEMPTS")
        case stop: True
        then have "collect_modified (Suc fuel) target misses (map FramePfn ps) s = Inr (map FramePfn ps, ?t)"
          using run False by (simp add: prog_simps)
        then show ?thesis using Suc.prems ms True by (intro exI [of _ ?t] exI [of _ C] exI [of _ "[]"]) simp
      next
        case go: False
        have m1: "unat (misses + 1) = unat misses + 1"
          using Suc.prems(7) by (simp add: unat_word_ariths word_less_nat_alt)
        have "unat (misses + 1) \<noteq> 5" using go word_unat_eq_iff [of "misses + 1" 5] by simp
        then have less: "misses + 1 < 5" using m1 Suc.prems(7) by (simp add: word_less_nat_alt)
        have "unat target - length ps + (5 - unat (misses + 1)) \<le> fuel"
          using Suc.prems(7,8) m1 by (simp add: word_less_nat_alt)
        from Suc.IH [OF _ _ _ Suc.prems(4,5,6) less this, of ?t C] Suc.prems(1,2,3)
        obtain u C' fs where u: "collect_modified fuel target (misses + 1) (map FramePfn ps) ?t = Inr (map FramePfn (ps @ fs), u)"
          "sys_inv u C' {}" "managed ?t u" "pf u = pf ?t" "set (ps @ fs) \<subseteq> frames u" "distinct (ps @ fs)"
          "\<forall>f \<in> set (ps @ fs). fstatus (book_of u) f = PFN_MID_WRITE" "length (ps @ fs) \<le> unat target" by auto
        have "collect_modified (Suc fuel) target misses (map FramePfn ps) s = Inr (map FramePfn (ps @ fs), u)"
          using run False go u(1) by (simp add: prog_simps)
        then show ?thesis using u True managed_trans [OF ms u(3)]
          by (intro exI [of _ u] exI [of _ C'] exI [of _ fs]) simp
      qed
    next
      case ne: False
      then obtain k where k: "0 < k" "k \<le> length (C ?l)" "k \<le> unat ?cap"
        and run: "remove_batch_from_list_head ?l ?cap s = Inr ((of_nat k, hd (C ?l)), (batch_removed ?l (C ?l) k s)\<lparr>spin := m\<rparr>)"
        using m by auto
      let ?b = "(batch_removed ?l (C ?l) k s)\<lparr>spin := m\<rparr>" and ?C = "C(?l := drop k (C ?l))"
      have "\<forall>p \<in> set (take k (C ?l)). frame_page p" using core_frame [OF inv'(5) core] by (auto dest: in_set_takeD)
      then obtain fs where fs: "take k (C ?l) = map FramePfn fs" using frame_list by blast
      have len: "length fs = k" using fs k by (metis length_map length_take min_absorb2)
      have first: "hd (C ?l) = FramePfn (hd fs)" using fs k(1) len by (metis hd_map hd_take length_greater_0_conv)
      note rem = batch_removed_sys [OF inv _ k(2) fs, simplified]
      have kw: "unat (of_nat k :: u64) = k" "(of_nat k :: u64) \<noteq> 0"
      proof -
        show kk: "unat (of_nat k :: u64) = k" using k(3) cap Suc.prems(6) by (simp add: unat_of_nat)
        show "(of_nat k :: u64) \<noteq> 0" using kk k(1) by (metis less_numeral_extra(3) unat_0)
      qed
      have "\<exists>u. mark_mid_write (length fs) (hd (C ?l)) ?b = Inr (map FramePfn fs, u) \<and> sys_inv u ?C {} \<and> managed ?b u \<and>
          pf u = pf ?b \<and> (\<forall>g. fstatus (book_of u) g = (if g \<in> set fs then PFN_MID_WRITE else fstatus (book_of ?b) g))"
        by (rule mark_mid_write_run) (use rem first in \<open>simp_all add: maps_ok_def page_states_def\<close>)
      then obtain t where t: "mark_mid_write k (hd (C ?l)) ?b = Inr (map FramePfn fs, t)" "sys_inv t ?C {}" "managed ?b t"
        "pf t = pf s" "\<forall>g. fstatus (book_of t) g = (if g \<in> set fs then PFN_MID_WRITE else fstatus (book_of ?b) g)"
        using len by (auto simp: batch_removed_def Let_def)
      have stb: "fstatus (book_of ?b) g = fstatus (book_of s) g" for g
        using same_dataD [OF same_data_links(3) [where m = "pfns s"]]
        by (simp add: book_of_def batch_removed_def Let_def on_cells_def)
      have mb: "managed s ?b" using rem(2) by (intro managed_same) (simp_all add: batch_removed_def Let_def)
      note mt = managed_trans [OF mb t(3)]
      have frs: "set fs \<subseteq> frames s" "\<forall>g \<in> set fs. fstatus (book_of s) g = PFN_MODIFIED"
        using rem(4) locks_okD(5) [OF sys_invD(7) [OF rem(1)]] stb managedD(3) [OF mb] by auto
      have disj: "set ps \<inter> set fs = {}" using frs(2) Suc.prems(3) by auto
      have pre: "set (ps @ fs) \<subseteq> frames t" "\<forall>f \<in> set (ps @ fs). fstatus (book_of t) f = PFN_MID_WRITE"
        "distinct (ps @ fs)" "length (ps @ fs) \<le> unat target"
        "unat target - length (ps @ fs) + (5 - unat misses) \<le> fuel"
        using Suc.prems frs disj t(5) stb managedD(3) [OF mt] rem(6) len k cap by auto
      from Suc.IH [OF t(2) pre(1-4) Suc.prems(6,7) pre(5)]
      obtain u C' gs where u: "collect_modified fuel target misses (map FramePfn (ps @ fs)) t = Inr (map FramePfn ((ps @ fs) @ gs), u)"
        "sys_inv u C' {}" "managed t u" "pf u = pf t" "set ((ps @ fs) @ gs) \<subseteq> frames u" "distinct ((ps @ fs) @ gs)"
        "\<forall>f \<in> set ((ps @ fs) @ gs). fstatus (book_of u) f = PFN_MID_WRITE" "length ((ps @ fs) @ gs) \<le> unat target" by blast
      have "collect_modified (Suc fuel) target misses (map FramePfn ps) s = Inr (map FramePfn (ps @ fs @ gs), u)"
        using run False kw t(1) u(1) by (simp add: prog_simps)
      moreover have "fs \<noteq> []" using len k(1) by auto
      ultimately show ?thesis using u t(4) managed_trans [OF mt u(3)]
        by (intro exI [of _ u] exI [of _ C'] exI [of _ "fs @ gs"]) simp
    qed
  qed
qed

end
