(* ===== verification/Write_Refinement.thy ===== *)
theory Write_Refinement
  imports Write_Collection
begin

text \<open>
  threads/writer.c on the whole system, second part: the pages of a batch are copied to the page file
  and published on the standby list.  A page that was faulted back in the meantime is left alone and
  its slot given back.
\<close>

section \<open>A slot is filled\<close>

lemma pf_inv_content [simp]:
  "pf_inv v (d\<lparr>page_file := c\<rparr>) = pf_inv v d" "stash (d\<lparr>page_file := c\<rparr>) = stash d"
  "slots_used (d\<lparr>page_file := c\<rparr>) = slots_used d" "slot_count (d\<lparr>page_file := c\<rparr>) = slot_count d"
  "pf_shape v (d\<lparr>page_file := c\<rparr>) = pf_shape v d"
  by (simp_all add: pf_inv_def stash_def slots_used_def slot_count_def pf_shape_def)

lemma kernel_write_address:
  assumes "users_ok s" and "k < 4096"
  shows "page_base (kernel_write_va (vm s) + of_nat k * PAGE_SIZE) = kernel_write_va (vm s) + of_nat k * PAGE_SIZE"
    and "j < entries s \<Longrightarrow> kernel_write_va (vm s) + of_nat k * PAGE_SIZE \<noteq> va_of (vm s) j"
  using assms by (auto simp: users_ok_def kernel_va_def)

definition filled :: "u64 \<Rightarrow> page \<Rightarrow> machine \<Rightarrow> machine" where
  "filled d c s = s\<lparr>pf := (pop_stash (pf s))\<lparr>page_file := (page_file (pf s))(unat d := c)\<rparr>\<rparr>"

lemma filled_fields [simp]:
  "entries (filled d c s) = entries s" "frames (filled d c s) = frames s" "vm (filled d c s) = vm s"
  "pfns (filled d c s) = pfns s" "ptes (filled d c s) = ptes s" "ram (filled d c s) = ram s"
  "va_map (filled d c s) = va_map s" "lists (filled d c s) = lists s" "heads (filled d c s) = heads s"
  "committed (filled d c s) = committed s" "book_of (filled d c s) = book_of s" "pfn_ok (filled d c s) p = pfn_ok s p"
  "page_states (filled d c s) = page_states s" "maps_ok (filled d c s) K = maps_ok s K" "spin (filled d c s) = spin s"
  "core_lists (filled d c s) = core_lists s" "pte_to_trim (filled d c s) = pte_to_trim s"
  by (simp_all add: filled_def core_lists_def)

lemma copy_to_slot_run:
  assumes inv: "sys_inv s C K" and k: "k < 4096" and some: "stash (pf s) \<noteq> []"
    and map: "va_map s (kernel_write_va (vm s) + of_nat k * PAGE_SIZE) = Some f"
  shows "\<exists>d. copy_to_slot k s = Inr (d, filled d (ram s f) s) \<and> sys_inv (filled d (ram s f) s) C K \<and>
     manager_step (paging_of s) (paging_of (filled d (ram s f) s)) \<and> slot_unused (paging_of s) d \<and>
     unat d \<in> slots_used (pf s) - {0} \<and> unat d \<notin> set (stash (pf (filled d (ram s f) s))) \<and> unat d < 2 ^ 40 \<and>
     length (stash (pf s)) = Suc (length (stash (pf (filled d (ram s f) s))))"
proof -
  note inv' = sys_invD [OF inv] and slots = slots_okD [OF sys_invD(4) [OF inv]]
  obtain xs x where x: "stash (pf s) = xs @ [x]" using some by (cases "stash (pf s)" rule: rev_cases) auto
  obtain d where d: "pop_slot (pf s) = Inr (d, pop_stash (pf s))" "unat d = x"
    using pop_slot_ok [OF slots(1) x] by blast
  let ?t = "filled d (ram s f) s"
  have pop: "on_disk pop_slot s = Inr (d, s\<lparr>pf := pop_stash (pf s)\<rparr>)" using d(1) by (rule on_disk_run)
  have used: "unat d \<in> slots_used (pf s)" "unat d \<noteq> 0" "unat d \<notin> set xs"
    using pf_inv_stash_last [OF slots(1) x] d(2) by simp_all
  have popinv: "pf_inv (vm s) (pop_stash (pf s))" using pf_inv_pop [OF slots(1) x] .
  have st: "stash (pop_stash (pf s)) = xs" using stash_pop(1) [OF x] .
  have count: "unat d < slot_count (pf s)" using slots_used_less [OF used(1)] .
  have shape: "pf_shape (vm s) (pf s)" using pf_inv_shape [OF slots(1)] .
  have shape': "pf_shape (vm s) (pop_stash (pf s))" using pf_inv_shape [OF popinv] .
  have "slot_count (pop_stash (pf s)) = slot_count (pf s)" using shape shape' by (simp add: pf_shape_def)
  then have "validate_disk_slot d (pop_stash (pf s)) = Inr ((), pop_stash (pf s))"
    using validate_disk_slot_ok [OF shape'] count by auto
  then have off: "on_disk (get_page_file_offset d) (s\<lparr>pf := pop_stash (pf s)\<rparr>) = Inr (unat d, s\<lparr>pf := pop_stash (pf s)\<rparr>)"
    by (subst on_disk_run [where x = "unat d" and t = "pop_stash (pf s)"]) (simp_all add: get_page_file_offset_def prog_simps)
  have run: "copy_to_slot k s = Inr (d, ?t)"
    using pop off map kernel_write_address(1) [OF inv'(9) k]
    by (simp add: copy_to_slot_def prog_simps read_page_def on_disk_run filled_def)
  have unused: "slot_unused (paging_of s) d"
    using slots(2) x d(2) by (auto simp: slot_unused_def page_states_state)
  have paging: "paging_of ?t = (paging_of s)\<lparr>disk := (disk (paging_of s))(unat d := ram s f)\<rparr>"
    by (simp add: paging_of_def) (simp add: filled_def)
  have step: "manager_step (paging_of s) (paging_of ?t)"
    unfolding paging using unused by (rule copy_out)
  have "slots_ok ?t"
    using slots x st popinv by (auto simp: slots_ok_def) (auto simp: filled_def)
  then have "sys_inv ?t C K"
    using disk_change_sys [OF inv] manager_step_inv [OF step inv'(3)] unfolding filled_def by blast
  moreover have "unat d < 2 ^ 40" using count shape by (simp add: pf_shape_def)
  moreover have "stash (pf ?t) = xs" using st by (simp add: filled_def)
  moreover have "length (stash (pf s)) = Suc (length xs)" using x by simp
  ultimately show ?thesis using run step unused used by (intro exI [of _ d]) simp
qed


section \<open>One page\<close>

text \<open>
  A page that is still mid-write becomes standby, with the slot that has its content, and joins the
  temporary list; any other page keeps its state and the slot is given back.
\<close>

lemma settle_page_run:
  assumes inv: "sys_inv s C (set ds)" and temp: "temp_ok s l ds" and f: "f \<in> frames s" "f \<notin> set ds"
    and maps: "maps_ok s {}" and standby: "\<forall>g \<in> set ds. fstatus (book_of s) g = PFN_STANDBY"
    and d: "slot_unused (paging_of s) d" "unat d \<in> slots_used (pf s) - {0} - set (stash (pf s))" "unat d < 2 ^ 40"
    and copy: "page_file (pf s) (unat d) = ram s f"
  defines "mid \<equiv> fstatus (book_of s) f = PFN_MID_WRITE"
  defines "ds' \<equiv> if mid then ds @ [f] else ds"
  shows "\<exists>u. settle_page l (FramePfn f) d s = Inr (mid, u) \<and> sys_inv u C (set ds') \<and> temp_ok u l ds' \<and> maps_ok u {} \<and>
     managed s u \<and> va_map u = va_map s \<and> length (stash (pf u)) = length (stash (pf s)) \<and>
     fstatus (book_of u) = (fstatus (book_of s))(f := if mid then PFN_STANDBY else fstatus (book_of s) f)"
proof -
  let ?p = "FramePfn f"
  note inv' = sys_invD [OF inv] and slots = slots_okD [OF sys_invD(4) [OF inv]] and ff = frame_facts [OF inv f]
  let ?l = "s\<lparr>pfns := on_cell ?p locked_pfn (pfns s)\<rparr>"
  have lock: "lock_pfn ?p s = Inr ((), ?l)" using lock_pfn_run ff(1,2) by blast
  have q: "IS_PFN_MID_WRITE (on_cell ?p locked_pfn (pfns s) ?p) = mid"
    by (simp add: IS_PFN_MID_WRITE_def mid_def book_of_def on_cells_def)
  show ?thesis
  proof (cases mid)
    case False
    have unl: "unlock_pfn ?p ?l = Inr ((), s)"
      using ff(1,2) unlock_after_lock [of "pfns s" ?p] by (simp add: unlock_pfn_run pfn_held_def pfn_free_def on_cells_apply)
    let ?u = "s\<lparr>pf := free_slot (unat d) (pf s)\<rparr>"
    have clr: "on_disk (clear_disk_slot d) s = Inr ((), ?u)"
      by (rule on_disk_run) (use clear_disk_slot_run [OF pf_inv_shape [OF slots(1)]] d(2) in blast)
    have run: "settle_page l ?p d s = Inr (False, ?u)"
      using lock q False unl clr ff(1) by (simp add: settle_page_def prog_simps)
    have pg: "paging_of ?u = paging_of s" by (simp add: paging_of_def)
    have "unat e \<noteq> unat d" if "slot_held (page_states s i) = Some e" for i e
      using d(1) that by (auto simp: slot_unused_def page_states_state simp flip: word_unat_eq_iff)
    then have "slots_ok ?u"
      using slots d(2) pf_inv_free [OF slots(1), of "unat d"] by (auto simp: slots_ok_def slots_used_free_slot)
    then have sys: "sys_inv ?u C (set ds)" using disk_change_sys [OF inv] inv'(3) by (simp add: pg)
    have tmp: "temp_ok ?u l ds" using temp by (simp add: temp_ok_def wf_list_def core_lists_def)
    have man: "managed s ?u" using pg by (intro managed_same) simp_all
    have stat: "fstatus (book_of ?u) = (fstatus (book_of s))(f := if mid then PFN_STANDBY else fstatus (book_of s) f)"
      using False by (simp add: fun_eq_iff)
    have "set ds' = set ds" "ds' = ds" using False by (simp_all add: ds'_def)
    then show ?thesis using run sys tmp man maps stat False by (intro exI [of _ ?u]) simp
  next
    case True
    let ?K = "insert f (set ds)" let ?g = "set_pfn_standby d"
    have st: "fstatus (book_of s) f = PFN_MID_WRITE" using True by (simp add: mid_def)
    have "?K - {f} = set ds - {f}" by auto
    note lk = relock_sys [OF inv f(1) st maps this, simplified]
    obtain i where i: "i < entries s" "frame_at (view (book_of s) i) = Some f"
      using book_ok_frame [OF inv'(2) f(1)] st by auto
    have "entry_ok (frames s) (set ds) (book_of s) i" using inv'(2) i by (simp add: book_ok_def)
    then have view: "view (book_of s) i = TransitionView f"
      using i st by (cases "view (book_of s) i") (auto simp: entry_ok_def)
    have old: "page_states s i = Writing f" using view st i(1) by (simp add: page_states_def entry_state_def)
    define t where "t = ?l\<lparr>pfns := on_cell ?p ?g (pfns ?l)\<rparr>"
    have ow: "PTE (?g q) = PTE q" and lo: "lock_of (?g q) = lock_of q" for q by simp_all
    have keep: "keeps_links ?g" by (simp add: keeps_links_def)
    have stt: "status_of (?g (pfns ?l ?p)) = PFN_STANDBY" and slt: "slot_of (?g (pfns ?l ?p)) = d"
      using fits40 [OF d(3)] by simp_all
    have sb: "PFN_STANDBY \<in> {PFN_MODIFIED, PFN_MID_WRITE, PFN_STANDBY}" and fK: "f \<in> ?K" by simp_all
    have il: "i < entries ?l" "view (book_of ?l) i = TransitionView f" using i(1) view by simp_all
    note held = held_status_book [OF lk(1) fK il ow stt slt sb, folded t_def]
    have stl: "page_states ?l = page_states s" by (simp add: page_states_def)
    have states: "page_states t = (page_states s)(i := Standby f d)" using held(3) by (simp add: stl)
    have tf: "vm t = vm s" "pf t = pf s" "ram t = ram s" "va_map t = va_map s" "entries t = entries s"
      "committed t = committed s" "lists t = lists s" "heads t = heads s" "pte_to_trim t = pte_to_trim s"
      by (simp_all add: t_def)
    have paging: "paging_of t = (paging_of s)\<lparr>state := (state (paging_of s))(i := Standby f d)\<rparr>"
      by (simp add: paging_of_def states tf)
    have step: "manager_step (paging_of s) (paging_of t)"
      unfolding paging using old d(1) copy by (intro finish_write) (simp_all add: paging_of_def)
    have "slots_ok t" using slots d(2) by (auto simp: slots_ok_def states tf)
    then have sys: "sys_inv t C ?K"
      unfolding t_def using manager_step_inv [OF step inv'(3)]
      by (intro held_status_sys [OF lk(1) fK il ow stt slt keep lo sb]) (simp_all add: t_def)
    have mapt: "maps_ok t {}" using maps old by (auto simp: maps_ok_def states tf)
    have tmp: "temp_ok t l ds"
      using temp dll_keeps [OF keep] by (simp add: temp_ok_def wf_list_def t_def core_lists_def)
    have "set ds \<subseteq> ?K" by auto
    note ins = temp_insert [OF sys tmp this fK f(2)]
    define u where "u = t\<lparr>pfns := append_page (head (lists t l)) ?p (pfns t)\<rparr>"
    note ins = ins [folded u_def]
    have uf: "vm u = vm s" "committed u = committed s" "pte_to_trim u = pte_to_trim s" "va_map u = va_map s" "pf u = pf s" "entries u = entries s"
      by (simp_all add: u_def tf)
    have "settle_page l ?p d s = Inr (True, u)"
      using lock q True ins(1) ff(1) by (simp add: settle_page_def prog_simps t_def)
    moreover have "managed s u" using step uf ins(5) by (intro managed_step) simp_all
    moreover have "maps_ok u {}"
    proof -
      have "page_states u = page_states t" using ins(4) by (simp add: page_states_def uf tf)
      then show ?thesis using mapt by (simp add: maps_ok_def uf tf)
    qed
    moreover have "fstatus (book_of u) = (fstatus (book_of s))(f := PFN_STANDBY)"
      by (simp add: ins(4) held(1) book_status_def)
    moreover have "set ds' = ?K" "ds' = ds @ [f]" using True by (simp_all add: ds'_def)
    ultimately show ?thesis using ins(2,3) uf True by (intro exI [of _ u]) simp
  qed
qed


section \<open>The loop\<close>

text \<open>The pages that were still mid-write end up on the temporary list, in order.\<close>

lemma write_all_run:
  assumes "sys_inv s C (set ds)" and "temp_ok s l ds" and "maps_ok s {}" and "set fs \<subseteq> frames s" and "distinct (ds @ fs)"
    and "\<forall>g \<in> set ds. fstatus (book_of s) g = PFN_STANDBY" and "length fs \<le> length (stash (pf s))"
    and "i + length fs \<le> 4096"
    and "\<forall>j < length fs. va_map s (kernel_write_va (vm s) + of_nat (i + j) * PAGE_SIZE) = Some (fs ! j)"
  shows "\<exists>u ws. write_all l i (map FramePfn fs) s = Inr (length ws, u) \<and>
     ws = filter (\<lambda>f. fstatus (book_of s) f = PFN_MID_WRITE) fs \<and> sys_inv u C (set (ds @ ws)) \<and> temp_ok u l (ds @ ws) \<and>
     maps_ok u {} \<and> managed s u \<and> va_map u = va_map s \<and> (\<forall>g \<in> set (ds @ ws). fstatus (book_of u) g = PFN_STANDBY)"
  using assms
proof (induction fs arbitrary: s ds i)
  case Nil
  then show ?case using managed_refl by (intro exI [of _ s]) (simp add: prog_simps)
next
  case (Cons f fs)
  let ?mid = "fstatus (book_of s) f = PFN_MID_WRITE" and ?stat = "fstatus (book_of s)"
  note inv = Cons.prems(1) and inv' = sys_invD [OF Cons.prems(1)]
  have f: "f \<in> frames s" "f \<notin> set ds" "f \<notin> set fs" using Cons.prems(4,5) by auto
  have i: "i < 4096" using Cons.prems(8) by simp
  have some: "stash (pf s) \<noteq> []" using Cons.prems(7) length_stash [of "pf s"] by force
  have va: "va_map s (kernel_write_va (vm s) + of_nat i * PAGE_SIZE) = Some f" using Cons.prems(9) by force
  obtain d where copy: "copy_to_slot i s = Inr (d, filled d (ram s f) s)" "sys_inv (filled d (ram s f) s) C (set ds)"
    "manager_step (paging_of s) (paging_of (filled d (ram s f) s))" "slot_unused (paging_of s) d"
    "unat d \<in> slots_used (pf s) - {0}" "unat d \<notin> set (stash (pf (filled d (ram s f) s)))" "unat d < 2 ^ 40"
    "length (stash (pf s)) = Suc (length (stash (pf (filled d (ram s f) s))))"
    using copy_to_slot_run [OF inv i some va] by blast
  let ?t = "filled d (ram s f) s"
  have tmp: "temp_ok ?t l ds" using Cons.prems(2) by (simp add: temp_ok_def wf_list_def)
  have un: "slot_unused (paging_of ?t) d" using copy(4) by (simp add: slot_unused_def page_states_state)
  have used: "unat d \<in> slots_used (pf ?t) - {0} - set (stash (pf ?t))"
    using copy(5,6) by (simp add: filled_def)
  have cp: "page_file (pf ?t) (unat d) = ram ?t f" by (simp add: filled_def)
  have mt: "maps_ok ?t {}" using Cons.prems(3) by simp
  have dt: "\<forall>g \<in> set ds. fstatus (book_of ?t) g = PFN_STANDBY" and ft: "f \<in> frames ?t" using Cons.prems(6) f(1) by simp_all
  let ?ds = "if ?mid then ds @ [f] else ds"
  from settle_page_run [OF copy(2) tmp ft f(2) mt dt un used copy(7) cp]
  obtain u where settle: "settle_page l (FramePfn f) d ?t = Inr (?mid, u)" "sys_inv u C (set ?ds)" "temp_ok u l ?ds"
    "maps_ok u {}" "managed ?t u" "va_map u = va_map s" "length (stash (pf u)) = length (stash (pf ?t))"
    "fstatus (book_of u) = ?stat(f := if ?mid then PFN_STANDBY else ?stat f)" by auto
  have "managed s ?t" using copy(3) by (intro managed_step) simp_all
  then have mu: "managed s u" using settle(5) managed_trans by blast
  note m = managedD [OF mu]
  have pre: "set fs \<subseteq> frames u" "distinct (?ds @ fs)" "\<forall>g \<in> set ?ds. fstatus (book_of u) g = PFN_STANDBY"
    "length fs \<le> length (stash (pf u))" "(i + 1) + length fs \<le> 4096"
    using Cons.prems(4,5,6,7,8) m f settle(7,8) copy(8) by auto
  have vas: "\<forall>j < length fs. va_map u (kernel_write_va (vm u) + of_nat ((i + 1) + j) * PAGE_SIZE) = Some (fs ! j)"
  proof (intro allI impI)
    fix j
    assume "j < length fs"
    then have "va_map s (kernel_write_va (vm s) + of_nat (i + Suc j) * PAGE_SIZE) = Some ((f # fs) ! Suc j)"
      by (intro Cons.prems(9) [rule_format]) simp
    then show "va_map u (kernel_write_va (vm u) + of_nat ((i + 1) + j) * PAGE_SIZE) = Some (fs ! j)"
      using m(1) settle(6) by simp
  qed
  from Cons.IH [OF settle(2,3,4) pre vas] obtain v ws where v: "write_all l (i + 1) (map FramePfn fs) u = Inr (length ws, v)"
    "ws = filter (\<lambda>f. fstatus (book_of u) f = PFN_MID_WRITE) fs" "sys_inv v C (set (?ds @ ws))" "temp_ok v l (?ds @ ws)"
    "maps_ok v {}" "managed u v" "va_map v = va_map u" "\<forall>g \<in> set (?ds @ ws). fstatus (book_of v) g = PFN_STANDBY" by blast
  have ws: "ws = filter (\<lambda>f. ?stat f = PFN_MID_WRITE) fs"
    unfolding v(2) using f(3) settle(8) by (intro filter_cong) auto
  let ?ws = "if ?mid then f # ws else ws"
  have "write_all l i (map FramePfn (f # fs)) s = Inr (length ?ws, v)"
    using copy(1) settle(1) v(1) by (simp add: prog_simps write_one_def)
  moreover have "?ds @ ws = ds @ ?ws" by simp
  ultimately show ?case using v managed_trans [OF mu v(6)] settle(6) ws
    by (intro exI [of _ v] exI [of _ ?ws]) simp
qed


section \<open>The batch is mapped\<close>

lemma map_all_other': "va \<notin> set vas \<Longrightarrow> map_all (zip vas fs) m va = m va"
  by (rule map_all_other) (auto dest: set_zip_leftD)

lemma map_list_other: "va \<notin> set vas \<Longrightarrow> map_list vas fs m va = m va"
  by (simp add: map_list_def map_all_other')

lemma map_list_nth:
  assumes "distinct vas" and "length fs = length vas" and "j < length vas"
  shows "map_list vas (Some fs) m (vas ! j) = Some (fs ! j)"
proof -
  have "map_all (zip vas (map Some fs)) m (vas ! j) = Some (fs ! j)"
    using assms
  proof (induction vas arbitrary: fs m j)
    case (Cons v vas)
    then obtain g gs where fs: "fs = g # gs" by (cases fs) auto
    show ?case
    proof (cases j)
      case 0
      then show ?thesis using Cons.prems fs by (simp add: map_all_other')
    next
      case (Suc k)
      then show ?thesis using Cons.prems fs by (simp add: Cons.IH)
    qed
  qed simp
  then show ?thesis by (simp add: map_list_def)
qed

lemma frame_numbers_run:
  assumes "\<forall>f \<in> set fs. min_frame_number v \<le> f \<and> f \<le> max_frame_number v"
  shows "frame_numbers_of v (map FramePfn fs) = Inr fs"
proof -
  have "fold (\<lambda>p r. case r of Inl e \<Rightarrow> Inl e
      | Inr gs \<Rightarrow> (case get_frame_from_PFN v p of Inl e \<Rightarrow> Inl e | Inr f \<Rightarrow> Inr (gs @ [f]))) (map FramePfn fs) (Inr hs) =
      Inr (hs @ fs)" for hs
    using assms by (induction fs arbitrary: hs) (simp_all add: get_frame_from_PFN_def validate_pfn_def)
  then show ?thesis by (simp add: frame_numbers_of_def)
qed

lemma kernel_pages:
  assumes "users_ok s" and "n \<le> 4096"
  shows "distinct (pages_from (kernel_write_va (vm s)) n)"
    and "j < n \<Longrightarrow> pages_from (kernel_write_va (vm s)) n ! j = kernel_write_va (vm s) + of_nat j * PAGE_SIZE"
    and "i < entries s \<Longrightarrow> va_of (vm s) i \<notin> set (pages_from (kernel_write_va (vm s)) n)"
proof -
  have "inj_on (\<lambda>k. kernel_write_va (vm s) + of_nat k * PAGE_SIZE) {..<4096}" using assms(1) by (simp add: users_ok_def)
  then have "inj_on (\<lambda>k. kernel_write_va (vm s) + of_nat k * PAGE_SIZE) {0..<n}"
    by (rule inj_on_subset) (use assms(2) in auto)
  then show "distinct (pages_from (kernel_write_va (vm s)) n)" by (simp add: pages_from_def distinct_map)
  show "j < n \<Longrightarrow> pages_from (kernel_write_va (vm s)) n ! j = kernel_write_va (vm s) + of_nat j * PAGE_SIZE"
    by (simp add: pages_from_def)
  show "va_of (vm s) i \<notin> set (pages_from (kernel_write_va (vm s)) n)" if "i < entries s"
  proof
    assume "va_of (vm s) i \<in> set (pages_from (kernel_write_va (vm s)) n)"
    then obtain k where "k < n" "va_of (vm s) i = kernel_write_va (vm s) + of_nat k * PAGE_SIZE"
      by (auto simp: pages_from_def)
    then show False using kernel_write_address(2) [OF assms(1) _ that, of k] assms(2) by simp
  qed
qed

text \<open>A change of the kernel's mappings only.\<close>

lemma kernel_map_sys:
  fixes fs :: "u64 list option"
  assumes inv: "sys_inv s C K" and n: "n \<le> 4096" and maps: "maps_ok s {}"
  defines "u \<equiv> s\<lparr>va_map := map_list (pages_from (kernel_write_va (vm s)) n) fs (va_map s)\<rparr>"
  shows "sys_inv u C K" and "maps_ok u {}" and "managed s u" and "book_of u = book_of s" and "page_states u = page_states s"
proof -
  have same: "va_map u (va_of (vm s) i) = va_map s (va_of (vm s) i)" if "i < entries s" for i
    using map_list_other kernel_pages(3) [OF sys_invD(9) [OF inv] n that] by (simp add: u_def)
  show st: "page_states u = page_states s" "book_of u = book_of s" by (simp_all add: u_def page_states_def)
  have fields: "entries u = entries s" "vm u = vm s" by (simp_all add: u_def)
  show maps': "maps_ok u {}" using maps same by (simp add: maps_ok_def st fields)
  then have "maps_ok u K" by (simp add: maps_ok_def)
  then show "sys_inv u C K" using unmap_sys [OF inv] by (simp add: u_def)
  have "paging_of u = paging_of s" by (simp add: u_def)
  then show "managed s u" by (intro managed_same) (simp_all add: u_def)
qed


section \<open>The whole batch\<close>

text \<open>
  The pages need not be mid-write any more, so this covers every soft fault between the marking of the
  batch and its writing: exactly the pages still mid-write become standby.
\<close>

lemma write_batch_run:
  assumes inv: "sys_inv s C {}" and fs: "set fs \<subseteq> frames s" "distinct fs" "length fs \<le> 4096"
      "length fs \<le> length (stash (pf s))" and w: "awe_spec w"
  shows "\<exists>u C' ws. write_batch w (map FramePfn fs) s = Inr (of_nat (length ws), u) \<and>
     ws = filter (\<lambda>f. fstatus (book_of s) f = PFN_MID_WRITE) fs \<and> sys_inv u C' {} \<and> managed s u \<and>
     (\<forall>f \<in> set ws. fstatus (book_of u) f = PFN_STANDBY) \<and> (ws \<noteq> [] \<longrightarrow> events u standby_pages_ready_event)"
proof -
  let ?l = "temp_list WRITING_THREAD_ID" and ?n = "length fs" and ?kva = "kernel_write_va (vm s)"
  note inv' = sys_invD [OF inv]
  let ?m1 = "map_list (pages_from ?kva ?n) (Some fs) (va_map s)" let ?s1 = "s\<lparr>va_map := ?m1\<rparr>"
  have "\<forall>f \<in> set fs. min_frame_number (vm s) \<le> f \<and> f \<le> max_frame_number (vm s)"
    using inv'(1) fs(1) by (auto simp: frames_ok_def)
  then have map1: "map_batch w (map FramePfn fs) s = Inr ((), ?s1)"
    using w by (simp add: map_batch_def prog_simps frame_numbers_run map_pages_def awe_spec_def)
  note k1 = kernel_map_sys [OF inv fs(3) inv'(8), where fs = "Some fs"]
  have kmap: "?m1 (?kva + of_nat j * PAGE_SIZE) = Some (fs ! j)" if "j < ?n" for j
    using map_list_nth [OF kernel_pages(1) [OF inv'(9) fs(3)], of fs j "va_map s"]
      kernel_pages(2) [OF inv'(9) fs(3) that] that by (simp add: pages_from_def)
  obtain t where t: "initialize_page_list ?l ?s1 = Inr ((), t)" "sys_inv t C {}" "temp_ok t ?l []"
    "book_of t = book_of s" "paging_of t = paging_of s" "vm t = vm s" "committed t = committed s"
    "page_states t = page_states s" "pf t = pf s" "va_map t = ?m1" "pte_to_trim t = pte_to_trim s"
    using new_temp [OF k1(1), of WRITING_THREAD_ID] unfolding k1(4,5) by auto
  have mt: "managed s t" using t(5,6,7,11) by (intro managed_same) simp_all
  note m = managedD [OF mt]
  have maps_t: "maps_ok t {}" using k1(2) by (simp add: maps_ok_def t m k1(5))
  have "sys_inv t C (set [])" "set fs \<subseteq> frames t" "distinct ([] @ fs)" "length fs \<le> length (stash (pf t))" "0 + length fs \<le> 4096"
    "\<forall>j < length fs. va_map t (kernel_write_va (vm t) + of_nat (0 + j) * PAGE_SIZE) = Some (fs ! j)"
    using t m fs kmap by simp_all
  from write_all_run [OF this(1) t(3) maps_t this(2,3) _ this(4,5,6)] obtain v ws where
    v: "write_all ?l 0 (map FramePfn fs) t = Inr (length ws, v)"
    "ws = filter (\<lambda>f. fstatus (book_of s) f = PFN_MID_WRITE) fs" "sys_inv v C (set ws)" "temp_ok v ?l ws"
    "maps_ok v {}" "managed t v" "\<forall>g \<in> set ws. fstatus (book_of v) g = PFN_STANDBY" unfolding t(4) by auto
  note mv = managed_trans [OF mt v(6)]
  let ?m2 = "map_list (pages_from ?kva ?n) None (va_map v)" let ?v = "v\<lparr>va_map := ?m2\<rparr>"
  have kv: "kernel_write_va (vm v) = ?kva" using managedD(1) [OF mv] by simp
  have un: "unmap_pages w ?n ?kva v = Inr ((), ?v)" using w by (simp add: unmap_pages_def prog_simps awe_spec_def)
  note k2 = kernel_map_sys [OF v(3) fs(3) v(5), where fs = None, unfolded kv]
  have start: "write_batch w (map FramePfn fs) s = (if length ws = 0 then return 0 else publish_written ?l (length ws)) ?v"
    using map1 t(1) v(1) un kv by (simp add: write_batch_def prog_simps Let_def)
  show ?thesis
  proof (cases "ws = []")
    case True
    then have "write_batch w (map FramePfn fs) s = Inr (of_nat (length ws), ?v)" using start by (simp add: prog_simps)
    then show ?thesis using True k2(1) managed_trans [OF mv k2(3)] v(2) by (intro exI [of _ ?v] exI [of _ C]) simp
  next
    case False
    have tmp: "temp_ok ?v ?l ws" using v(4) by (simp add: temp_ok_def wf_list_def core_lists_def)
    have dist: "distinct ws" using v(2) fs(2) by simp
    have l: "standby_list \<in> core_lists ?v" by simp
    have st: "\<forall>f \<in> set ws. fstatus (book_of ?v) f = home_status standby_list" using v(7) by simp
    note pub = publish_sys [OF k2(1) subset_refl tmp False dist l st k2(2)] and run = publish_run [OF k2(1) tmp False dist l st k2(2)]
    let ?w = "published standby_list ?l ws ?v" and ?P = "append_list (head (lists ?v standby_list))
      (FramePfn (hd ws)) (FramePfn (last ws)) (pfns ?v)"
    obtain n where n: "insert_list_to_tail_list standby_list ?l ?v = Inr ((), ?v\<lparr>pfns := ?P, spin := n\<rparr>)"
      "unlock_batch (length ws) (FramePfn (hd ws)) (?v\<lparr>pfns := ?P, spin := n,
        lists := resize standby_list (of_nat (length ws)) (lists ?v)\<rparr>) = Inr ((), ?w\<lparr>spin := n\<rparr>)"
      using run(1) by blast
    let ?x = "?w\<lparr>spin := n\<rparr>"
    let ?u = "?x\<lparr>stats := (stats ?x)\<lparr>n_available := n_available (stats ?x) + of_nat (length ws)\<rparr>,
      events := (events ?x)(standby_pages_ready_event := True)\<rparr>"
    have "publish_written ?l (length ws) ?v = Inr (of_nat (length ws), ?u)"
      using n run(2,3) by (simp add: publish_written_def prog_simps)
    then have "write_batch w (map FramePfn fs) s = Inr (of_nat (length ws), ?u)" using start False by simp
    moreover have "managed ?v ?u" using pub(2) by (intro managed_same) (simp_all add: published_def)
    then have "managed s ?u" using managed_trans [OF managed_trans [OF mv k2(3)]] by blast
    moreover have "\<forall>f \<in> set ws. fstatus (book_of ?u) f = PFN_STANDBY"
    proof -
      have "fstatus (book_of ?w) = fstatus (book_of ?v)"
        using same_dataD(1) [OF same_data_links(4)] by (simp add: book_of_def published_def on_cells_def fun_eq_iff)
      then show ?thesis using v(7) by simp
    qed
    moreover have "sys_inv ?u (C(standby_list := C standby_list @ map FramePfn ws)) {}" using pub(1) by simp
    ultimately show ?thesis using v(2) by (intro exI [of _ ?u]) auto
  qed
qed

lemma modified_page_listed:
  assumes inv: "sys_inv s C {}" and st: "page_states s i = Modified f"
  shows "FramePfn f \<in> set (C modified_list)"
proof -
  note inv' = sys_invD [OF inv]
  have i: "i < entries s" using st by (auto simp: page_states_def entry_state_def split: if_splits)
  then have "entry_ok (frames s) {} (book_of s) i" using inv'(2) by (simp add: book_ok_def)
  then have "f \<in> frames s \<and> fstatus (book_of s) f = PFN_MODIFIED"
    using st i by (auto simp: page_states_def entry_state_def entry_ok_def split: pte_view.splits if_splits)
  then show ?thesis using inv'(6) by (auto simp: members_ok_def)
qed

lemma write_pages_run:
  assumes inv: "sys_inv s C {}" and w: "awe_spec w"
  shows "\<exists>u C' n. write_pages w s = Inr (of_nat n, u) \<and> sys_inv u C' {} \<and> managed s u \<and> n \<le> 4096 \<and>
     (0 < n \<longrightarrow> events u standby_pages_ready_event \<and> C' standby_list \<noteq> []) \<and>
     ((\<exists>i f. page_states s i = Modified f) \<and> empty_disk_slots (pf s) \<noteq> 0 \<longrightarrow> 0 < n)"
proof -
  obtain d target where target: "write_target s = Inr (target, s\<lparr>pf := d\<rparr>)" "sys_inv (s\<lparr>pf := d\<rparr>) C {}" "managed s (s\<lparr>pf := d\<rparr>)"
    "unat target \<le> 4096" "unat target \<le> length (stash d)"
    "C modified_list \<noteq> [] \<and> empty_disk_slots (pf s) \<noteq> 0 \<Longrightarrow> target \<noteq> 0"
    using write_target_run [OF inv] by blast
  let ?t = "s\<lparr>pf := d\<rparr>"
  have progress: "target \<noteq> 0 \<and> C modified_list \<noteq> []" if "\<exists>i f. page_states s i = Modified f" "empty_disk_slots (pf s) \<noteq> 0"
    using that modified_page_listed [OF inv] target(6) by force
  show ?thesis
  proof (cases "target = 0")
    case True
    then have "write_pages w s = Inr (of_nat 0, ?t)" using target(1) by (simp add: write_pages_def prog_simps)
    then show ?thesis using target(2,3) True progress by (intro exI [of _ ?t] exI [of _ C] exI [of _ 0]) auto
  next
    case False
    let ?fuel = "unat target + unat BATCH_ATTEMPTS"
    have pre: "set [] \<subseteq> frames ?t" "\<forall>f \<in> set []. fstatus (book_of ?t) f = PFN_MID_WRITE" "distinct []"
      "length [] \<le> unat target" "(0 :: u16) < 5" "unat target - length [] + (5 - unat (0 :: u16)) \<le> ?fuel"
      by simp_all
    from collect_modified_run [OF target(2) pre(1-4) target(4) pre(5,6)] obtain v C1 fs where
      v: "collect_modified ?fuel target 0 [] ?t = Inr (map FramePfn fs, v)" "sys_inv v C1 {}" "managed ?t v" "pf v = d"
      "set fs \<subseteq> frames v" "distinct fs" "\<forall>f \<in> set fs. fstatus (book_of v) f = PFN_MID_WRITE" "length fs \<le> unat target"
      "C modified_list \<noteq> [] \<and> 0 < unat target \<longrightarrow> fs \<noteq> []" by auto
    note mv = managed_trans [OF target(3) v(3)]
    have start: "write_pages w s = (if fs = [] then return 0 else write_batch w (map FramePfn fs)) v"
      using target(1) v(1) False by (simp add: write_pages_def prog_simps)
    have some: "fs \<noteq> []" if "\<exists>i f. page_states s i = Modified f" "empty_disk_slots (pf s) \<noteq> 0"
      using v(9) progress [OF that] by (auto simp: unat_gt_0)
    show ?thesis
    proof (cases "fs = []")
      case True
      then have "write_pages w s = Inr (of_nat 0, v)" using start by (simp add: prog_simps)
      then show ?thesis using v(2) mv True some by (intro exI [of _ v] exI [of _ C1] exI [of _ 0]) auto
    next
      case ne: False
      have "length fs \<le> 4096" "length fs \<le> length (stash (pf v))" using v(4,8) target(4,5) by simp_all
      from write_batch_run [OF v(2,5,6) this w] obtain u C2 ws where
        u: "write_batch w (map FramePfn fs) v = Inr (of_nat (length ws), u)"
        "ws = filter (\<lambda>f. fstatus (book_of v) f = PFN_MID_WRITE) fs" "sys_inv u C2 {}" "managed v u"
        "ws \<noteq> [] \<longrightarrow> events u standby_pages_ready_event" "\<forall>f \<in> set ws. fstatus (book_of u) f = PFN_STANDBY" by blast
      have "ws = fs" using u(2) v(7) by simp
      then have "length ws \<le> 4096" "0 < length ws" using ne v(8) target(4) by simp_all
      moreover have "hd fs \<in> set fs" using ne by simp
      then have "FramePfn (hd fs) \<in> set (C2 standby_list)"
        using sys_invD(6) [OF u(3)] u(6) v(5) managedD(3) [OF u(4)] \<open>ws = fs\<close> by (auto simp: members_ok_def)
      then have "C2 standby_list \<noteq> []" by auto
      ultimately show ?thesis using start ne u managed_trans [OF mv u(4)]
        by (intro exI [of _ u] exI [of _ C2] exI [of _ "length ws"]) simp
    qed
  qed
qed

end
