(* ===== verification/Fault_Refinement.thy ===== *)
theory Fault_Refinement
  imports Hard_Fault
begin

text \<open>
  The page fault handler on the whole system: it never fails, keeps the invariant and the content of
  every page, and with a page at hand it resolves the fault however often other threads hold the entry.
\<close>

section \<open>Rounds\<close>

lemma entry_word:
  assumes "sys_inv s C {}" and "i < entries s"
  obtains (valid) f where "IS_PTE_VALID (entire_pte (ptes s i))" "page_states s i = Resident f"
    | (transition) f where "\<not> IS_PTE_VALID (entire_pte (ptes s i))" "IS_PTE_TRANSITION (entire_pte (ptes s i))"
        "view (book_of s) i = TransitionView f"
    | (out) "\<not> IS_PTE_VALID (entire_pte (ptes s i))" "\<not> IS_PTE_TRANSITION (entire_pte (ptes s i))"
        "IS_PTE_ON_DISK (entire_pte (ptes s i)) \<or> IS_PTE_ZEROED (entire_pte (ptes s i))"
        "frame_of (page_states s i) = None"
proof -
  let ?e = "entire_pte (ptes s i)"
  have ok: "entry_ok (frames s) {} (book_of s) i" using sys_invD(2) [OF assms(1)] assms(2) by (simp add: book_ok_def)
  have v: "view (book_of s) i = sane_view ?e" by (simp add: book_of_def)
  note iffs = pte_view_valid_iff pte_view_transition_iff pte_view_disk_iff pte_view_zeroed_iff
  show ?thesis
  proof (cases "sane_view ?e")
    case (ValidView f)
    then show ?thesis using valid [of f] assms(2) sane_viewD(1) [of ?e f] v
      by (auto simp: iffs page_states_def entry_state_def)
  next
    case (TransitionView f)
    then show ?thesis using transition [of f] sane_viewD(2) [of ?e f] v by (auto simp: iffs)
  next
    case (DiskView d)
    then show ?thesis using out assms(2) sane_viewD(3) [of ?e d] v
      by (auto simp: iffs page_states_def entry_state_def)
  next
    case ZeroedView
    then show ?thesis using out assms(2) sane_viewD(4) [of ?e] v
      by (auto simp: iffs page_states_def entry_state_def)
  qed (use ok v in \<open>simp add: entry_ok_def\<close>)
qed

definition resolved :: "machine \<Rightarrow> nat \<Rightarrow> machine \<Rightarrow> bool" where
  "resolved s i u \<longleftrightarrow> (\<exists>C. sys_inv u C {}) \<and> managed s u \<and> (\<exists>f. page_states u i = Resident f)"

lemma resolved_trans: "managed s s' \<Longrightarrow> resolved s' i u \<Longrightarrow> resolved s i u"
  by (auto simp: resolved_def intro: managed_trans)

lemma fault_round_soft:
  assumes inv: "sys_inv s C {}" and i: "i < entries s" and w: "awe_spec w"
    and f: "view (book_of s) i = TransitionView f"
  shows "\<exists>u. resolve_soft_fault w i s = Inr (True, u) \<and> resolved s i u"
proof -
  obtain u C' where "resolve_soft_fault w i s = Inr (True, u)" "sys_inv u C' {}"
    "page_states u = (page_states s)(i := Resident f)" "manager_step (paging_of s) (paging_of u)"
    "vm u = vm s" "committed u = committed s" "pte_to_trim u = pte_to_trim s"
    using resolve_soft_fault_run [OF inv i f w] by blast
  then show ?thesis by (intro exI [of _ u]) (auto simp: resolved_def intro: managed_step)
qed

lemma fault_round_hard:
  assumes "pte_ok s i" and "\<not> IS_PTE_VALID (entire_pte (ptes s i))" "\<not> IS_PTE_TRANSITION (entire_pte (ptes s i))"
    "IS_PTE_ON_DISK (entire_pte (ptes s i)) \<or> IS_PTE_ZEROED (entire_pte (ptes s i))"
    and "resolve_hard_fault w i t s = Inr (ok, u)"
  shows "fault_rounds (Suc fuel) w i t s = (if ok then Inr (True, u) else fault_rounds fuel w i t u)"
  using assms by (auto simp: prog_simps)

text \<open>Whatever the others do, as long as they keep the invariant, a handler that returns has resolved the fault.\<close>

lemma fault_rounds_safe:
  assumes "sys_inv s C {}" and "i < entries s" and "t < user_count s" and w: "awe_spec w" "cooperative w"
  shows "fault_rounds fuel w i t s = Inl SpinForever \<or>
    (\<exists>u. fault_rounds fuel w i t s = Inr (True, u) \<and> resolved s i u)"
  using assms(1-3)
proof (induction fuel arbitrary: s C)
  case 0
  then show ?case by (simp add: prog_simps)
next
  case (Suc fuel)
  have pte: "pte_ok s i" using entry_facts [OF Suc.prems(1,2)] by simp
  from Suc.prems(1,2) show ?case
  proof (cases rule: entry_word)
    case (valid f)
    then show ?thesis using pte Suc.prems(1) by (auto simp: prog_simps resolved_def)
  next
    case (transition f)
    then show ?thesis using fault_round_soft [OF Suc.prems(1,2) w(1)] pte by (auto simp: prog_simps)
  next
    case out
    obtain u C' where u: "sys_inv u C' {}" "managed s u" and
      run: "resolve_hard_fault w i t s = Inr (True, u) \<and> (\<exists>f. page_states u i = Resident f) \<or>
        resolve_hard_fault w i t s = Inr (False, u)"
      using resolve_hard_fault_run [OF Suc.prems w] by blast
    have "i < entries u" "t < user_count u" using Suc.prems managedD [OF u(2)] by simp_all
    note IH = Suc.IH [OF u(1) this]
    show ?thesis
    proof (cases "resolve_hard_fault w i t s = Inr (False, u)")
      case True
      then show ?thesis using IH resolved_trans [OF u(2)] unfolding fault_round_hard [OF pte out(1-3) True] by auto
    next
      case False
      then have "resolve_hard_fault w i t s = Inr (True, u)" "\<exists>f. page_states u i = Resident f" using run by auto
      then show ?thesis using u fault_round_hard [OF pte out(1-3)] by (auto simp: resolved_def)
    qed
  qed
qed


section \<open>Progress\<close>

text \<open>With a page in the cache every failed round uses up one moment at which another thread held the entry.\<close>

lemma fault_rounds_cached:
  assumes "sys_inv s C {}" and "i < entries s" and "t < user_count s" and w: "awe_spec w"
    and "free_page_count (users s t) \<noteq> 0" and "patience s < fuel"
  shows "\<exists>u. fault_rounds fuel w i t s = Inr (True, u) \<and> resolved s i u"
  using assms(1-3,5,6)
proof (induction fuel arbitrary: s C)
  case 0
  then show ?case by simp
next
  case (Suc fuel)
  have pte: "pte_ok s i" using entry_facts [OF Suc.prems(1,2)] by simp
  from Suc.prems(1,2) show ?case
  proof (cases rule: entry_word)
    case (valid f)
    then show ?thesis using pte Suc.prems(1) by (auto simp: prog_simps resolved_def)
  next
    case (transition f)
    then show ?thesis using fault_round_soft [OF Suc.prems(1,2) w(1)] pte by (auto simp: prog_simps)
  next
    case out
    obtain f h where h: "acquire_free_page t s = Inr (Some (FramePfn f), h)" "in_hand t s h C f"
      "spin h = spin s" "paging_of h = paging_of s"
      using acquire_from_cache [OF Suc.prems(1,3,4)] by blast
    have got: "resolve_hard_fault w i t s = hard_fault_with_page w i t (FramePfn f) h"
      using h(1) by (simp add: resolve_hard_fault_def numeral_2_eq_2 prog_simps)
    have same: "managed s h" using h(2) by (simp add: in_hand_def)
    have lt: "i < entries h" "t < user_count h" using Suc.prems managedD [OF same] by simp_all
    have state: "page_states h i = page_states s i" using h(4) by (metis page_states_state)
    obtain u C' where u: "sys_inv u C' {}" "managed s u" and
      run: "resolve_hard_fault w i t s = Inr (True, u) \<and> page_states u i = Resident f \<or>
        resolve_hard_fault w i t s = Inr (False, u) \<and> free_page_count (users u t) \<noteq> 0 \<and>
          patience u = patience s - 1 \<and> next_busy (spin s)"
      using hard_fault_with_page_run [OF h(2) lt w] out state h(3) unfolding got patience_def by auto
    show ?thesis
    proof (cases "resolve_hard_fault w i t s = Inr (True, u) \<and> page_states u i = Resident f")
      case True
      then show ?thesis using u fault_round_hard [OF pte out(1-3)] by (auto simp: resolved_def)
    next
      case False
      then have F: "resolve_hard_fault w i t s = Inr (False, u)" "free_page_count (users u t) \<noteq> 0"
        "patience u = patience s - 1" "next_busy (spin s)" using run by auto
      have "patience u < fuel" using F(3) Suc.prems(5) busy_patience [OF F(4)] unfolding patience_def by linarith
      moreover have "i < entries u" "t < user_count u" using Suc.prems managedD [OF u(2)] by simp_all
      ultimately obtain v where "fault_rounds fuel w i t u = Inr (True, v)" "resolved u i v"
        using Suc.IH [OF u(1)] F(2) by blast
      then show ?thesis using resolved_trans [OF u(2)] fault_round_hard [OF pte out(1-3) F(1)] by auto
    qed
  qed
qed

lemma fault_rounds_progress:
  assumes inv: "sys_inv s C {}" and i: "i < entries s" and t: "t < user_count s" and w: "awe_spec w"
    and page: "free_page_count (users s t) \<noteq> 0 \<or> C standby_list \<noteq> []"
  shows "\<exists>fuel u. fault_rounds fuel w i t s = Inr (True, u) \<and> resolved s i u"
proof (cases "free_page_count (users s t) = 0")
  case False
  then show ?thesis using fault_rounds_cached [OF inv i t w] by blast
next
  case empty: True
  have pte: "pte_ok s i" using entry_facts [OF inv i] by simp
  from inv i show ?thesis
  proof (cases rule: entry_word)
    case (valid f)
    then show ?thesis using pte inv by (intro exI [of _ 1]) (auto simp: prog_simps resolved_def)
  next
    case (transition f)
    then show ?thesis using fault_round_soft [OF inv i w(1)] pte by (intro exI [of _ 1]) (auto simp: prog_simps)
  next
    case out
    obtain f h C' where h: "obtain_free_page 2 t s = Inr (Some (FramePfn f), h)" "in_hand t s h C' f"
      using obtain_free_page_run [OF inv t] page empty by auto
    have got: "resolve_hard_fault w i t s = hard_fault_with_page w i t (FramePfn f) h"
      using h(1) by (simp add: resolve_hard_fault_def prog_simps)
    have same: "managed s h" using h(2) by (simp add: in_hand_def)
    have lt: "i < entries h" "t < user_count h" using i t managedD [OF same] by simp_all
    obtain u C'' where u: "sys_inv u C'' {}" "managed s u" and
      run: "resolve_hard_fault w i t s = Inr (True, u) \<and> page_states u i = Resident f \<or>
        resolve_hard_fault w i t s = Inr (False, u) \<and> free_page_count (users u t) \<noteq> 0"
      using hard_fault_with_page_run [OF h(2) lt w] unfolding got by blast
    show ?thesis
    proof (cases "resolve_hard_fault w i t s = Inr (True, u) \<and> page_states u i = Resident f")
      case True
      then have "fault_rounds (Suc 0) w i t s = Inr (True, u)" using fault_round_hard [OF pte out(1-3)] by auto
      moreover have "resolved s i u" using True u by (auto simp: resolved_def)
      ultimately show ?thesis by blast
    next
      case False
      then have F: "resolve_hard_fault w i t s = Inr (False, u)" "free_page_count (users u t) \<noteq> 0" using run by auto
      have "i < entries u" "t < user_count u" using i t managedD [OF u(2)] by simp_all
      then obtain v where "fault_rounds (Suc (patience u)) w i t u = Inr (True, v)" "resolved u i v"
        using fault_rounds_cached [OF u(1) _ _ w F(2), of i "Suc (patience u)"] by auto
      moreover from this have "fault_rounds (Suc (Suc (patience u))) w i t s = Inr (True, v)"
        unfolding fault_round_hard [OF pte out(1-3) F(1)] by (simp del: fault_rounds.simps)
      ultimately show ?thesis using resolved_trans [OF u(2)] by blast
    qed
  qed
qed

end
