(* ===== verification/Flat_Memory.thy ===== *)
theory Flat_Memory
  imports Fault_Refinement Small_System Simulator
begin

text \<open>
  A user thread sees memory without paging: every store reaches the page it names and no other,
  whatever the fault handler did on the way.
\<close>

section \<open>Addresses\<close>

lemma page_base_eq: "page_base va = of_nat (unat va div 4096 * 4096)"
proof -
  have "page_base va = va AND NOT (mask 12)" by (simp add: page_base_def mask_eq_exp_minus_1)
  also have "\<dots> = push_bit 12 (drop_bit 12 va)" by (intro bit_word_eqI) (auto simp: bit_simps)
  also have "\<dots> = va div 4096 * 4096" by (simp add: push_bit_eq_mult drop_bit_eq_div)
  also have "va div 4096 = of_nat (unat (va div 4096))" by simp
  also have "unat (va div 4096) = unat va div 4096" by (simp add: unat_div)
  finally show ?thesis by simp
qed

lemma page_base_va_of:
  assumes "va_region_ok v" and "in_va_region v va"
  shows "page_base va = va_of v (pte_of_va v va)"
proof -
  obtain b where b: "unat (application_va_base v) = 4096 * b" using assms(1) by (auto simp: va_region_ok_def dvd_def)
  have le: "4096 * b \<le> unat va" using assms(2) b by (simp add: in_va_region_def word_le_nat_alt)
  then have bd: "b \<le> unat va div 4096" by simp
  have "(unat va - 4096 * b) div 4096 = unat va div 4096 - b"
    using div_mult_self4 [of 4096 b "unat va - 4096 * b"] le by simp
  then have i: "pte_of_va v va = unat va div 4096 - b" by (simp add: pte_of_va_def b)
  have "application_va_base v = of_nat (unat (application_va_base v))" by simp
  then have "va_of v (pte_of_va v va) = of_nat (4096 * b) + of_nat ((unat va div 4096 - b) * 4096)"
    unfolding b i va_of_def by simp
  also have "\<dots> = of_nat (4096 * b + (unat va div 4096 - b) * 4096)" by simp
  also have "4096 * b + (unat va div 4096 - b) * 4096 = unat va div 4096 * 4096"
    using bd by (simp add: algebra_simps flip: distrib_left add: diff_mult_distrib)
  finally show ?thesis by (simp add: page_base_eq)
qed

section \<open>The handler\<close>

lemma fault_rounds_more: "fault_rounds n w i t s = Inr r \<Longrightarrow> n \<le> m \<Longrightarrow> fault_rounds m w i t s = Inr r"
proof (induction n arbitrary: m s)
  case 0
  then show ?case by (simp add: prog_simps)
next
  case (Suc n)
  then obtain m' where m: "m = Suc m'" "n \<le> m'" by (cases m) auto
  note IH = Suc.IH [OF _ m(2)]
  obtain word s1 where r: "read_pte i s = Inr (word, s1)"
    using Suc.prems(1) by (cases "read_pte i s") (auto simp: bind_apply)
  have again: "bind g (\<lambda>ok. if ok then return True else fault_rounds m' w i t) s1 = Inr r"
    if g: "bind g (\<lambda>ok. if ok then return True else fault_rounds n w i t) s1 = Inr r" for g
  proof (cases "g s1")
    case (Inr a)
    then show ?thesis using g IH by (cases a; cases "fst a") (auto simp: bind_apply)
  qed (use g in \<open>simp add: bind_apply\<close>)
  show ?case
    using Suc.prems(1) IH again unfolding m(1) by (simp add: bind_apply r split: if_splits) blast
qed

lemma handler_in_region:
  assumes "va_region_ok (vm s)" and "in_va_region (vm s) va"
  shows "page_fault_handler fuel w va t s = fault_rounds fuel w (pte_of_va (vm s) va) t s"
proof -
  let ?v = "vm s"
  have "application_va_base ?v + va_size_in_pointers ?v * BYTES_PER_VA =
      (of_nat (unat (application_va_base ?v) + unat (va_size_in_pointers ?v) * 8) :: u64)" by simp
  then have "unat (application_va_base ?v + va_size_in_pointers ?v * BYTES_PER_VA) =
      unat (application_va_base ?v) + unat (num_ptes ?v) * 4096"
    using pointers_unat [OF assms(1)] by (simp only: unat_of_nat mod_less len64)
  then show ?thesis using assms get_PTE_from_VA_region [OF assms]
    by (simp add: page_fault_handler_def prog_simps in_va_region_def word_less_nat_alt word_le_nat_alt)
qed

lemma handler_outside:
  assumes "va_region_ok (vm s)" and "\<not> in_va_region (vm s) va"
  shows "page_fault_handler fuel w va t s = Inr (False, s)"
proof -
  let ?v = "vm s"
  have "application_va_base ?v + va_size_in_pointers ?v * BYTES_PER_VA =
      (of_nat (unat (application_va_base ?v) + unat (va_size_in_pointers ?v) * 8) :: u64)" by simp
  then have "unat (application_va_base ?v + va_size_in_pointers ?v * BYTES_PER_VA) =
      unat (application_va_base ?v) + unat (num_ptes ?v) * 4096"
    using pointers_unat [OF assms(1)] by (simp only: unat_of_nat mod_less len64)
  then show ?thesis using assms(2)
    by (simp add: page_fault_handler_def prog_simps in_va_region_def word_less_nat_alt word_le_nat_alt)
      linarith
qed


section \<open>A store\<close>

lemma store_sys:
  fixes k :: nat and v :: u64
  assumes inv: "sys_inv s C {}" and res: "page_states s i = Resident f"
  defines "u \<equiv> s\<lparr>ram := (ram s)(f := (ram s f)(k := v))\<rparr>"
  shows "sys_inv u C {}" and "virtual_page u = flat_store (i, k, v) (virtual_page s)"
    and "page_states u = page_states s"
proof -
  note inv' = sys_invD [OF inv]
  have b: "book_of u = book_of s" "entries u = entries s" "frames u = frames s" "user_count u = user_count s"
    by (simp_all add: u_def)
  show st: "page_states u = page_states s" unfolding page_states_def b ..
  have pg: "paging_of u = (paging_of s)\<lparr>memory := (memory (paging_of s))(f := (memory (paging_of s) f)(k := v))\<rparr>"
    by (simp add: paging_of_def st) (simp add: u_def)
  have step: "user_store i k v (paging_of s) (paging_of u)"
    unfolding pg by (rule user_store.intros) (simp add: page_states_state res)
  have ok: "pfn_ok u p = pfn_ok s p" for p by (simp add: u_def)
  have "lists_ok u C = lists_ok s C" by (rule lists_ok_cong) (simp_all add: u_def ok)
  moreover have "members_ok u C {} = members_ok s C {}" by (intro members_cong) (simp_all add: b u_def)
  moreover have "paging_inv (paging_of u)" using user_store_inv [OF step inv'(3)] .
  ultimately show "sys_inv u C {}" using inv' ok
    by (simp add: sys_inv_def b st frames_ok_def slots_ok_def locks_ok_def maps_ok_def users_ok_def kernel_va_def
        pfn_free_def pte_free_def) (simp add: u_def)
  show "virtual_page u = flat_store (i, k, v) (virtual_page s)"
    using user_store_content [OF step inv'(3)] by (auto simp: virtual_page_def flat_store_def fun_eq_iff)
qed

definition word_index :: "u64 \<Rightarrow> nat" where
  "word_index va = unat ((va mod PAGE_SIZE) div BYTES_PER_VA)"

lemma store_word_run:
  assumes inv: "sys_inv s C {}" and va: "in_va_region (vm s) va"
  shows "store_word va value s = (case page_states s (pte_of_va (vm s) va) of
      Resident f \<Rightarrow> Inr (True, s\<lparr>ram := (ram s)(f := (ram s f)(word_index va := value))\<rparr>)
    | _ \<Rightarrow> Inr (False, s))"
proof -
  let ?i = "pte_of_va (vm s) va"
  have reg: "va_region_ok (vm s)" using sys_invD(1) [OF inv] by (simp add: frames_ok_def)
  have "?i < entries s" using pte_of_va_less [OF va] by (simp add: entries_def)
  then have "va_map s (page_base va) = (case page_states s ?i of Resident f \<Rightarrow> Some f | _ \<Rightarrow> None)"
    using sys_invD(8) [OF inv] page_base_va_of [OF reg va] by (simp add: maps_ok_def)
  then show ?thesis by (simp add: store_word_def prog_simps word_index_def split: page_state.split)
qed



section \<open>Accesses\<close>

text \<open>The store that an access makes: the address itself, written to the word it names.\<close>

definition store_at :: "vm_state \<Rightarrow> u64 \<Rightarrow> nat \<times> nat \<times> u64" where
  "store_at v va = (pte_of_va v va, word_index va, va)"

text \<open>\<open>stored s sts u\<close>: from \<open>s\<close> to \<open>u\<close> exactly the stores \<open>sts\<close> were made to the virtual pages.\<close>

definition stored :: "machine \<Rightarrow> (nat \<times> nat \<times> u64) list \<Rightarrow> machine \<Rightarrow> bool" where
  "stored s sts u \<longleftrightarrow> (\<exists>C. sys_inv u C {}) \<and> vm u = vm s \<and> user_count u = user_count s \<and>
     (pte_to_trim s < entries s \<longrightarrow> pte_to_trim u < entries s) \<and>
     virtual_page u = fold flat_store sts (virtual_page s)"

lemma stored_managed:
  assumes "managed s u" and "sys_inv s C {}" and "stored u sts v"
  shows "stored s sts v"
  using assms managedD [OF assms(1)] managed_trimmer [OF assms(1)]
    managed_content [OF assms(1) sys_invD(3) [OF assms(2)]]
  by (auto simp: stored_def)

lemma stored_trans: "stored s sts u \<Longrightarrow> stored u sts' v \<Longrightarrow> stored s (sts @ sts') v"
  by (auto simp: stored_def entries_def)

lemma access_resident:
  assumes inv: "sys_inv s C {}" and va: "in_va_region (vm s) va" and b: "8 dvd unat b"
    and res: "page_states s (pte_of_va (vm s) va) = Resident f"
  shows "\<exists>u. access_va (Suc fuel) w a b va t s = Inr ((), u) \<and> stored s [store_at (vm s) va] u"
proof -
  let ?i = "pte_of_va (vm s) va"
  let ?u = "s\<lparr>ram := (ram s)(f := (ram s f)(word_index va := va))\<rparr>"
  have reg: "va_region_ok (vm s)" using sys_invD(1) [OF inv] by (simp add: frames_ok_def)
  have pte: "pte_ok ?u ?i" using pte_of_va_less [OF va] by (simp add: pte_ok_def)
  have "access_va (Suc fuel) w a b va t s = Inr ((), ?u)"
    using store_word_run [OF inv va, of va] res pte get_PTE_from_VA_region [OF reg va] set_accessed_bit_noop [OF b]
    by (simp add: prog_simps)
  moreover have "stored s [store_at (vm s) va] ?u"
    using store_sys [OF inv res, of "word_index va" va] by (auto simp: stored_def store_at_def)
  ultimately show ?thesis by blast
qed

lemma access_faults:
  assumes inv: "sys_inv s C {}" and va: "in_va_region (vm s) va"
    and res: "\<And>f. page_states s (pte_of_va (vm s) va) \<noteq> Resident f"
    and fault: "fault_rounds (Suc fuel) w (pte_of_va (vm s) va) t s = Inr (True, u)"
  shows "access_va (Suc fuel) w a b va t s = access_va fuel w a b va t u"
proof -
  have reg: "va_region_ok (vm s)" using sys_invD(1) [OF inv] by (simp add: frames_ok_def)
  have "store_word va va s = Inr (False, s)"
    using store_word_run [OF inv va, of va] res by (cases "page_states s (pte_of_va (vm s) va)") auto
  then show ?thesis using handler_in_region [OF reg va] fault
    by (simp add: prog_simps del: fault_rounds.simps)
qed

lemma access_va_safe:
  assumes "sys_inv s C {}" and "in_va_region (vm s) va" and "t < user_count s" and b: "8 dvd unat b"
    and w: "awe_spec w" "cooperative w"
  shows "access_va fuel w a b va t s = Inl SpinForever \<or>
    (\<exists>u. access_va fuel w a b va t s = Inr ((), u) \<and> stored s [store_at (vm s) va] u)"
  using assms(1-3)
proof (induction fuel arbitrary: s C)
  case 0
  then show ?case by (simp add: prog_simps)
next
  case (Suc fuel)
  note inv = Suc.prems(1) and va = Suc.prems(2)
  let ?i = "pte_of_va (vm s) va"
  have i: "?i < entries s" using pte_of_va_less [OF va] by (simp add: entries_def)
  show ?case
  proof (cases "\<exists>f. page_states s ?i = Resident f")
    case True
    then show ?thesis using access_resident [OF inv va b] by blast
  next
    case False
    have reg: "va_region_ok (vm s)" using sys_invD(1) [OF inv] by (simp add: frames_ok_def)
    have st: "store_word va va s = Inr (False, s)"
      using store_word_run [OF inv va, of va] False by (cases "page_states s ?i") auto
    from fault_rounds_safe [OF inv i Suc.prems(3) w, of "Suc fuel"] show ?thesis
    proof
      assume "fault_rounds (Suc fuel) w ?i t s = Inl SpinForever"
      then show ?thesis using st handler_in_region [OF reg va] by (simp add: prog_simps del: fault_rounds.simps)
    next
      assume "\<exists>u. fault_rounds (Suc fuel) w ?i t s = Inr (True, u) \<and> resolved s ?i u"
      then obtain u C' where u: "fault_rounds (Suc fuel) w ?i t s = Inr (True, u)" "sys_inv u C' {}" "managed s u"
        by (auto simp: resolved_def)
      have eq: "access_va (Suc fuel) w a b va t s = access_va fuel w a b va t u"
        using access_faults [OF inv va _ u(1)] False by blast
      have "in_va_region (vm u) va" "t < user_count u" using va Suc.prems(3) managedD [OF u(3)] by simp_all
      from Suc.IH [OF u(2) this] show ?thesis
        unfolding eq managedD(1) [OF u(3)] using stored_managed [OF u(3) inv] by blast
    qed
  qed
qed

lemma access_va_progress:
  assumes inv: "sys_inv s C {}" and va: "in_va_region (vm s) va" and t: "t < user_count s" and b: "8 dvd unat b"
    and w: "awe_spec w" and page: "free_page_count (users s t) \<noteq> 0 \<or> C standby_list \<noteq> []"
  shows "\<exists>fuel u. access_va fuel w a b va t s = Inr ((), u) \<and> stored s [store_at (vm s) va] u"
proof (cases "\<exists>f. page_states s (pte_of_va (vm s) va) = Resident f")
  case True
  then show ?thesis using access_resident [OF inv va b] by blast
next
  case False
  have i: "pte_of_va (vm s) va < entries s" using pte_of_va_less [OF va] by (simp add: entries_def)
  obtain n u where u: "fault_rounds n w (pte_of_va (vm s) va) t s = Inr (True, u)" "resolved s (pte_of_va (vm s) va) u"
    using fault_rounds_progress [OF inv i t w page] by blast
  obtain C' f where r: "sys_inv u C' {}" "managed s u" "page_states u (pte_of_va (vm s) va) = Resident f"
    using u(2) by (auto simp: resolved_def)
  have "fault_rounds (Suc (Suc n)) w (pte_of_va (vm s) va) t s = Inr (True, u)"
    using fault_rounds_more [OF u(1), of "Suc (Suc n)"] by simp
  then have eq: "access_va (Suc (Suc n)) w a b va t s = access_va (Suc n) w a b va t u"
    using access_faults [OF inv va] False by blast
  have "in_va_region (vm u) va" using va managedD [OF r(2)] by simp
  then obtain v where "access_va (Suc n) w a b va t u = Inr ((), v)" "stored u [store_at (vm s) va] v"
    using access_resident [OF r(1) _ b, of va f n w a t] r(3) managedD(1) [OF r(2)] by auto
  then show ?thesis using stored_managed [OF r(2) inv] unfolding eq [symmetric] by blast
qed

text \<open>A thread that draws a random number changes its seed only.\<close>

lemma seed_sys:
  fixes t :: nat and seed :: u64
  assumes inv: "sys_inv s C {}"
  shows "sys_inv (s\<lparr>users := (users s)(t := random_seed_update (\<lambda>_. seed) (users s t))\<rparr>) C {}" (is "sys_inv ?s C {}")
proof -
  note parts = sys_invD [OF inv]
  have c: "cache ?s = cache s" by (simp add: cache_def fun_eq_iff)
  have "lists_ok ?s C = lists_ok s C" by (rule lists_ok_cong) simp_all
  moreover have "members_ok ?s C {} = members_ok s C {}"
    by (simp add: members_ok_def pool_def caches_ok_def cached_by_def c listed_def)
  moreover have "users_ok ?s" using users_okD [OF parts(9)] by (intro users_ok_change [OF parts(9)]) simp_all
  moreover have "page_states ?s = page_states s" by (simp add: page_states_def)
  ultimately show ?thesis using parts
    by (simp add: sys_inv_def frames_ok_def slots_ok_def locks_ok_def maps_ok_def pfn_free_def pte_free_def)
qed

lemma user_accesses_safe:
  assumes "sys_inv s C {}" and "word_address (vm s) va" and "t < user_count s" and b: "8 dvd unat b"
    and w: "awe_spec w" "cooperative w" and n: "0 < unat (num_ptes (vm s))"
  shows "user_accesses n fuel w a b va t s = Inl SpinForever \<or>
    (\<exists>u va' vas. user_accesses n fuel w a b va t s = Inr (va', u) \<and> length vas = n \<and>
       (\<forall>x \<in> set vas. word_address (vm s) x) \<and> stored s (map (store_at (vm s)) vas) u)"
  using assms(1-3) n
proof (induction n arbitrary: s C va)
  case 0
  then show ?case by (auto simp: prog_simps stored_def)
next
  case (Suc n)
  note inv = Suc.prems(1)
  have reg: "va_region_ok (vm s)" using sys_invD(1) [OF inv] by (simp add: frames_ok_def)
  obtain x seed where x: "get_next_va (vm s) va (random_seed (users s t)) = Inr (x, seed)" "word_address (vm s) x"
    using get_next_va_word [OF reg Suc.prems(4,2)] by blast
  let ?s = "s\<lparr>users := (users s)(t := random_seed_update (\<lambda>_. seed) (users s t))\<rparr>"
  have step: "user_accesses (Suc n) fuel w a b va t s =
      bind (access_va fuel w a b x t) (\<lambda>_. user_accesses n fuel w a b x t) ?s"
    using x(1) by (simp add: prog_simps)
  have same: "managed s ?s" by (intro managed_same) simp_all
  have inv': "sys_inv ?s C {}" by (rule seed_sys [OF inv])
  have va: "in_va_region (vm ?s) x" using word_address_region x(2) by simp
  have t: "t < user_count ?s" using Suc.prems(3) by simp
  from access_va_safe [OF inv' va t b w, of fuel a] show ?case
  proof
    assume "access_va fuel w a b x t ?s = Inl SpinForever"
    then show ?thesis unfolding step by (simp add: prog_simps)
  next
    assume "\<exists>u. access_va fuel w a b x t ?s = Inr ((), u) \<and> stored ?s [store_at (vm ?s) x] u"
    then obtain u where u: "access_va fuel w a b x t ?s = Inr ((), u)" "stored ?s [store_at (vm s) x] u" by auto
    then obtain C' where C': "sys_inv u C' {}" "vm u = vm s" "user_count u = user_count s" by (auto simp: stored_def)
    have su: "stored s [store_at (vm s) x] u" using stored_managed [OF same inv u(2)] .
    have "user_accesses (Suc n) fuel w a b va t s = user_accesses n fuel w a b x t u"
      unfolding step using u(1) by (simp add: prog_simps)
    moreover from Suc.IH [OF C'(1), of x] x(2) Suc.prems C'(2,3)
    have "user_accesses n fuel w a b x t u = Inl SpinForever \<or>
      (\<exists>v va' vas. user_accesses n fuel w a b x t u = Inr (va', v) \<and> length vas = n \<and>
         (\<forall>y \<in> set vas. word_address (vm s) y) \<and> stored u (map (store_at (vm s)) vas) v)" by simp
    moreover have "stored s (map (store_at (vm s)) (x # vas)) v" if "stored u (map (store_at (vm s)) vas) v" for vas v
      using stored_trans [OF su that] by simp
    ultimately show ?thesis using x(2)
      by (elim disjE exE conjE) (simp, metis length_Cons set_ConsD)
  qed
qed



section \<open>Properties\<close>

lemma small_va: "in_va_region small_vm 77824" "pte_of_va small_vm 77824 = 3" "word_index 77824 = 0"
  "word_address small_vm 77824" "unat (num_ptes small_vm) = 5"
  by (auto simp: in_va_region_def pte_of_va_def word_index_def word_address_def small_vm_def word_le_nat_alt
      intro!: exI [of _ 1536])

lemma resident_mapped:
  assumes "sys_inv s C {}" and "in_va_region (vm s) va" and "page_states s (pte_of_va (vm s) va) = Resident f"
  shows "va_map s (page_base va) = Some f"
  using sys_invD(8) [OF assms(1)] page_base_va_of [OF _ assms(2)] sys_invD(1) [OF assms(1)] pte_of_va_less [OF assms(2)]
    assms(3) by (simp add: maps_ok_def frames_ok_def entries_def)

text \<open>
  C6: a fault at any address of the application region is resolved when the thread has a page in its
  cache or the standby list is not empty, however often other threads hold the entry or the lists.  The
  handler returns \<open>TRUE\<close>, the page is resident, mapped to its frame, the invariant of the whole system
  holds, and no virtual page has changed its content.  From some number of rounds on the result does not
  depend on the fuel.
\<close>

theorem page_fault_is_resolved:
  assumes "sys_inv s C {}" and "t < user_count s" and "awe_spec w" and "in_va_region (vm s) va"
    and "free_page_count (users s t) \<noteq> 0 \<or> C standby_list \<noteq> []"
  shows "\<exists>n u C' f. (\<forall>fuel \<ge> n. page_fault_handler fuel w va t s = Inr (True, u)) \<and> sys_inv u C' {} \<and>
     page_states u (pte_of_va (vm s) va) = Resident f \<and> va_map u (page_base va) = Some f \<and>
     virtual_page u = virtual_page s"
proof -
  let ?i = "pte_of_va (vm s) va"
  have i: "?i < entries s" using pte_of_va_less [OF assms(4)] by (simp add: entries_def)
  have reg: "va_region_ok (vm s)" using sys_invD(1) [OF assms(1)] by (simp add: frames_ok_def)
  obtain n u where u: "fault_rounds n w ?i t s = Inr (True, u)" "resolved s ?i u"
    using fault_rounds_progress [OF assms(1) i assms(2,3,5)] by blast
  then obtain C' f where r: "sys_inv u C' {}" "managed s u" "page_states u ?i = Resident f"
    by (auto simp: resolved_def)
  have "page_fault_handler fuel w va t s = Inr (True, u)" if "n \<le> fuel" for fuel
    using fault_rounds_more [OF u(1) that] handler_in_region [OF reg assms(4)] by simp
  moreover have "va_map u (page_base va) = Some f"
    using resident_mapped [OF r(1)] r(3) assms(4) managedD(1) [OF r(2)] by simp
  ultimately show ?thesis
    using r managed_content [OF r(2) sys_invD(3) [OF assms(1)]] by (intro exI conjI) (blast | assumption)+
qed

lemma page_fault_is_resolved_witness:
  "page_states small_system 3 = OnDisk 2 \<and>
   (\<exists>fuel u f. page_fault_handler fuel small_os 77824 0 small_system = Inr (True, u) \<and>
      page_states u 3 = Resident f \<and> virtual_page u 3 = (\<lambda>_. 3))"
proof -
  have "virtual_page small_system 3 = (\<lambda>_. 3)"
    by (simp add: virtual_page_def content_def paging_of_def small_states small_system_disk)
  moreover obtain n u f where "\<forall>fuel \<ge> n. page_fault_handler fuel small_os 77824 0 small_system = Inr (True, u)"
    and u: "page_states u 3 = Resident f" "virtual_page u = virtual_page small_system"
    using page_fault_is_resolved [OF small_system_ok, of 0 small_os 77824] small_os_ok small_va
    by (auto simp: small_user_def)
  then have "page_fault_handler n small_os 77824 0 small_system = Inr (True, u)" by blast
  ultimately show ?thesis using u by (simp add: small_states) (intro exI [of _ n] exI [of _ u], simp)
qed



text \<open>
  C23: an address outside the application region is refused at once, and nothing is changed.
\<close>

theorem fault_outside_region_is_refused:
  assumes "va_region_ok (vm s)" and "\<not> in_va_region (vm s) va"
  shows "page_fault_handler fuel w va t s = Inr (False, s)"
  using assms by (rule handler_outside)

lemma fault_outside_region_is_refused_witness:
  "page_fault_handler 1 small_os 86016 0 small_system = Inr (False, small_system)"
  using fault_outside_region_is_refused [of small_system 86016 1 small_os 0] sys_invD(1) [OF small_system_ok]
  by (simp add: frames_ok_def in_va_region_def small_vm_def)



text \<open>
  A whole run of a user thread sees flat memory.  After \<open>n\<close> accesses at generated addresses the
  virtual pages are those of a program without paging that made the same \<open>n\<close> stores in order; every
  address lies in the application region, and no step fails.
\<close>

theorem user_run_sees_flat_memory:
  assumes "sys_inv s C {}" and "word_address (vm s) va" and "t < user_count s" and "8 dvd unat snapshot_addr"
    and "awe_spec w" and "cooperative w" and "0 < unat (num_ptes (vm s))"
  shows "user_accesses n fuel w accessed_addr snapshot_addr va t s = Inl SpinForever \<or>
    (\<exists>u C' va' vas. user_accesses n fuel w accessed_addr snapshot_addr va t s = Inr (va', u) \<and> sys_inv u C' {} \<and>
       length vas = n \<and> (\<forall>x \<in> set vas. word_address (vm s) x) \<and>
       virtual_page u = fold flat_store (map (store_at (vm s)) vas) (virtual_page s))"
  using user_accesses_safe [OF assms, of n fuel accessed_addr] unfolding stored_def by blast

lemma user_run_sees_flat_memory_witness:
  "user_accesses 3 9 small_os 4096 8192 77824 0 small_system = Inl SpinForever \<or>
    (\<exists>u va' vas. user_accesses 3 9 small_os 4096 8192 77824 0 small_system = Inr (va', u) \<and> length vas = 3 \<and>
       virtual_page u = fold flat_store (map (store_at small_vm) vas) (virtual_page small_system))"
  using user_run_sees_flat_memory [OF small_system_ok, of 77824 0 8192 small_os 3 9 4096] small_os_ok small_va
  by (auto simp: dvd_def)

end
