(* ===== verification/Whole_System.thy ===== *)
theory Whole_System
  imports Write_Refinement Flat_Memory
begin

text \<open>
  The components together: user threads that access memory while the trimmer and the writer take pages
  away from them.  The activities run in any order; each of them runs to its end before the next one
  starts, and within an activity other threads show as contentions and in the waits.
\<close>

section \<open>Activities in any order\<close>

datatype activity = user_access nat u64 | trim_round | write_round

primrec run_activity :: "nat \<Rightarrow> os \<Rightarrow> u64 \<Rightarrow> u64 \<Rightarrow> activity \<Rightarrow> unit mm" where
  "run_activity fuel w a b (user_access t va) = access_va fuel w a b va t"
| "run_activity fuel w a b trim_round = bind (trim_pages w) (\<lambda>_. return ())"
| "run_activity fuel w a b write_round = bind (write_pages w) (\<lambda>_. return ())"

primrec allowed :: "machine \<Rightarrow> activity \<Rightarrow> bool" where
  "allowed s (user_access t va) \<longleftrightarrow> t < user_count s \<and> in_va_region (vm s) va"
| "allowed s trim_round \<longleftrightarrow> True"
| "allowed s write_round \<longleftrightarrow> True"

primrec activity_stores :: "vm_state \<Rightarrow> activity \<Rightarrow> (nat \<times> nat \<times> u64) list" where
  "activity_stores v (user_access t va) = [store_at v va]"
| "activity_stores v trim_round = []"
| "activity_stores v write_round = []"

definition stores_of :: "vm_state \<Rightarrow> activity list \<Rightarrow> (nat \<times> nat \<times> u64) list" where
  "stores_of v acts = concat (map (activity_stores v) acts)"

lemma managed_stored:
  assumes "managed s u" and "sys_inv s C {}" and "sys_inv u C' {}"
  shows "stored s [] u"
  using stored_managed [OF assms(1,2), of "[]" u] assms(3) by (auto simp: stored_def)

lemma activity_safe:
  assumes inv: "sys_inv s C {}" and pos: "pte_to_trim s < entries s" and ok: "allowed s act" and b: "8 dvd unat b"
    and w: "awe_spec w" "cooperative w"
  shows "run_activity fuel w a b act s = Inl SpinForever \<or>
    (\<exists>u. run_activity fuel w a b act s = Inr ((), u) \<and> stored s (activity_stores (vm s) act) u)"
proof (cases act)
  case (user_access t va)
  then show ?thesis using access_va_safe [OF inv _ _ b w, of va t fuel a] ok by simp
next
  case trim_round
  from trim_pages_run [OF inv pos w(1)] obtain u C' n where
    "trim_pages w s = Inr (n, u)" "sys_inv u C' {}" "managed s u" by blast
  then show ?thesis using managed_stored inv trim_round by (auto simp: prog_simps)
next
  case write_round
  from write_pages_run [OF inv w(1)] obtain u C' n where
    "write_pages w s = Inr (n, u)" "sys_inv u C' {}" "managed s u" by blast
  then show ?thesis using managed_stored inv write_round by (auto simp: prog_simps)
qed

lemma activities_safe:
  assumes "sys_inv s C {}" and "pte_to_trim s < entries s" and "\<forall>act \<in> set acts. allowed s act" and b: "8 dvd unat b"
    and w: "awe_spec w" "cooperative w"
  shows "for_each acts (run_activity fuel w a b) s = Inl SpinForever \<or>
    (\<exists>u. for_each acts (run_activity fuel w a b) s = Inr ((), u) \<and> stored s (stores_of (vm s) acts) u)"
  using assms(1-3)
proof (induction acts arbitrary: s C)
  case Nil
  then show ?case by (auto simp: prog_simps stores_of_def stored_def)
next
  case (Cons act acts)
  have ok: "allowed s act" using Cons.prems(3) by simp
  from activity_safe [OF Cons.prems(1,2) ok b w, of fuel a] show ?case
  proof
    assume "\<exists>u. run_activity fuel w a b act s = Inr ((), u) \<and> stored s (activity_stores (vm s) act) u"
    then obtain u C' where u: "run_activity fuel w a b act s = Inr ((), u)" "stored s (activity_stores (vm s) act) u"
      "sys_inv u C' {}" "vm u = vm s" "user_count u = user_count s" "pte_to_trim u < entries u"
      using Cons.prems(2) by (auto simp: stored_def entries_def)
    have same: "allowed u x = allowed s x" for x using u(4,5) by (cases x) simp_all
    have run: "for_each (act # acts) (run_activity fuel w a b) s = for_each acts (run_activity fuel w a b) u"
      using u(1) by (simp add: prog_simps)
    have "for_each acts (run_activity fuel w a b) u = Inl SpinForever \<or>
      (\<exists>v. for_each acts (run_activity fuel w a b) u = Inr ((), v) \<and> stored u (stores_of (vm u) acts) v)"
      using Cons.IH [OF u(3,6)] Cons.prems(3) by (simp add: same)
    then show ?thesis unfolding run u(4) using stored_trans [OF u(2)] by (auto simp: stores_of_def)
  qed (simp add: prog_simps)
qed


section \<open>Properties\<close>


lemma small_trim: "pte_to_trim small_system = 0" "calm small_system" "unaccessed small_system 2"
  by (simp_all add: small_system_def calm_def unaccessed_def small_word_def IS_PTE_ACCESSED_def accessed_unchanged
      set_PTE_to_valid_def pte_fields pte_tests)


text \<open>
  C8: trimming takes pages from their owners and nothing else.  A batch of at most
  \<open>MAX_TRIM_BATCH_SIZE\<close> resident pages becomes modified, every other page keeps its state, no page
  changes its content, and the invariant of the whole system holds again.  When no other thread
  interferes, the table has at most \<open>MAX_TRIM_ATTEMPTS\<close> entries and some valid entry has not been
  accessed, the batch is not empty.
\<close>

theorem trimming_moves_a_batch:
  assumes "sys_inv s C {}" and "pte_to_trim s < entries s" and "awe_spec w"
  shows "\<exists>u C' T. trim_pages w s = Inr (of_nat (card T), u) \<and> sys_inv u C' {} \<and> pte_to_trim u < entries u \<and>
     card T \<le> unat MAX_TRIM_BATCH_SIZE \<and> (\<forall>i \<in> T. \<exists>f. page_states s i = Resident f) \<and>
     page_states u = trim_states T (page_states s) \<and> virtual_page u = virtual_page s \<and>
     (calm s \<and> entries s \<le> unat MAX_TRIM_ATTEMPTS \<and> (\<exists>j < entries s. unaccessed s j) \<longrightarrow> T \<noteq> {})"
proof -
  obtain u C' T where "trim_pages w s = Inr (of_nat (card T), u)" "sys_inv u C' {}" "managed s u" "pte_to_trim u < entries u"
    "card T \<le> unat MAX_TRIM_BATCH_SIZE" "\<forall>i \<in> T. i < entries s \<and> (\<exists>f. page_states s i = Resident f)"
    "page_states u = trim_states T (page_states s)"
    "calm s \<and> entries s \<le> unat MAX_TRIM_ATTEMPTS \<and> (\<exists>j < entries s. unaccessed s j) \<longrightarrow> T \<noteq> {}"
    using trim_pages_run [OF assms] by blast
  moreover note managed_content [OF calculation(3) sys_invD(3) [OF assms(1)]]
  ultimately show ?thesis by (intro exI conjI) (blast | assumption)+
qed

lemma trimming_moves_a_batch_witness:
  "\<exists>u. trim_pages small_os small_system = Inr (1, u) \<and> page_states u 2 = Modified 3"
proof -
  obtain u T where u: "trim_pages small_os small_system = Inr (of_nat (card T), u)"
    "\<forall>i \<in> T. \<exists>f. page_states small_system i = Resident f" "T \<noteq> {}"
    "page_states u = trim_states T (page_states small_system)"
    using trimming_moves_a_batch [OF small_system_ok, of small_os] small_os_ok small_trim by fastforce
  have "T \<subseteq> {2}" using u(2) by (auto simp: small_states split: if_splits)
  then have "T = {2}" using u(3) by auto
  then show ?thesis using u(1,4) by (intro exI [of _ u]) (simp add: trim_states_def small_states)
qed


lemma small_slots: "empty_disk_slots small_pf \<noteq> 0"
proof
  assume "empty_disk_slots small_pf = 0"
  then have "card (slots_used small_pf) = slot_count small_pf"
    using small_system_disk(1) by (simp add: pf_inv_def)
  moreover have "64 dvd slot_count small_pf" by (simp add: slot_count_def)
  moreover have "card (slots_used small_pf) = 3" unfolding small_system_disk(2) by simp
  ultimately have "64 dvd (3 :: nat)" by metis
  then show False by simp
qed




text \<open>
  C11: a soft fault gives the page back as it is.  Whatever list the page is on, or while it is being
  written, \<open>resolve_soft_fault\<close> succeeds whatever the contentions, the page is resident in the frame it
  had, every other page keeps its state, and no content changes.
\<close>

theorem soft_fault_gives_page_back:
  assumes "sys_inv s C {}" and "i < entries s" and "awe_spec w" and "page_states s i \<in> {Modified f, Writing f, Standby f d}"
  shows "\<exists>u C'. resolve_soft_fault w i s = Inr (True, u) \<and> sys_inv u C' {} \<and>
     page_states u = (page_states s)(i := Resident f) \<and> va_map u (va_of (vm s) i) = Some f \<and>
     virtual_page u = virtual_page s"
proof -
  have "view (book_of s) i = TransitionView f"
    using assms(2,4) by (auto simp: page_states_def entry_state_def split: pte_view.splits if_splits)
  from resolve_soft_fault_run [OF assms(1,2) this assms(3)] obtain u C' where
    u: "resolve_soft_fault w i s = Inr (True, u)" "sys_inv u C' {}" "page_states u = (page_states s)(i := Resident f)"
    "manager_step (paging_of s) (paging_of u)" "vm u = vm s" "committed u = committed s" "pte_to_trim u = pte_to_trim s"
    by blast
  have "managed s u" using u by (intro managed_step) simp_all
  then have "virtual_page u = virtual_page s" using managed_content sys_invD(3) [OF assms(1)] by blast
  moreover have "i < entries u" using assms(2) by (simp add: entries_def u(5))
  then have "va_map u (va_of (vm s) i) = Some f"
    using sys_invD(8) [OF u(2)] by (simp add: maps_ok_def u(3,5))
  ultimately show ?thesis using u by blast
qed

lemma soft_fault_gives_page_back_witness:
  "\<exists>u. resolve_soft_fault small_os 1 small_system = Inr (True, u) \<and> page_states u 1 = Resident 2 \<and>
     page_states u 0 = Modified 1"
  using soft_fault_gives_page_back [OF small_system_ok, of 1 small_os 2 1] small_os_ok(1)
  by (auto simp: small_states)

end
