(* ===== verification/System_Run.thy ===== *)
theory System_Run
  imports Startup Whole_System
begin

text \<open>
  The life of the process: \<open>initialize_system\<close>, then user threads, trimmer and writer at work; and the
  ways the initialisation fails.
\<close>

section \<open>From the start\<close>

definition run_from_start :: "nat \<Rightarrow> os \<Rightarrow> grants \<Rightarrow> u64 \<Rightarrow> u64 \<Rightarrow> activity list \<Rightarrow> unit mm" where
  "run_from_start fuel w r a b acts = block
     [initialize_system w r, start_trimmer, for_each acts (run_activity fuel w a b)]"

text \<open>The accesses stay inside the \<open>n\<close> pages at \<open>base\<close> and belong to existing threads.\<close>

primrec permitted :: "u64 \<Rightarrow> nat \<Rightarrow> nat \<Rightarrow> activity \<Rightarrow> bool" where
  "permitted base n k (user_access t va) \<longleftrightarrow> t < k \<and> base \<le> va \<and> unat va < unat base + n * 4096"
| "permitted base n k trim_round \<longleftrightarrow> True"
| "permitted base n k write_round \<longleftrightarrow> True"

text \<open>What the accesses store: page, word of the page, value.\<close>

primrec activity_writes :: "u64 \<Rightarrow> activity \<Rightarrow> (nat \<times> nat \<times> u64) list" where
  "activity_writes base (user_access t va) = [((unat va - unat base) div 4096, word_index va, va)]"
| "activity_writes base trim_round = []"
| "activity_writes base write_round = []"

lemma activity_writes_stores:
  "application_va_base v = base \<Longrightarrow> stores_of v acts = concat (map (activity_writes base) acts)"
proof -
  assume "application_va_base v = base"
  then have "activity_stores v = activity_writes base"
  proof (intro ext)
    fix act show "application_va_base v = base \<Longrightarrow> activity_stores v act = activity_writes base act"
      by (cases act) (simp_all add: store_at_def pte_of_va_def)
  qed
  then show ?thesis by (simp add: stores_of_def)
qed

lemma permitted_allowed:
  assumes "permitted base n k act" and "user_count u = k" "entries u = n" "application_va_base (vm u) = base"
  shows "allowed u act"
  using assms by (cases act) (simp_all add: in_va_region_def entries_def)


section \<open>A process\<close>

text \<open>A process with one user thread, five frames requested and a page file of 64 pages.\<close>

definition small_start :: machine where
  "small_start = blank\<lparr>vm := zero_vm\<lparr>num_user_threads := 1, allocated_frame_count := 5, pages_in_page_file := 64\<rparr>,
     committed := (\<lambda>_. False)\<rparr>"

definition small_grants :: grants where
  "small_grants = \<lparr>token_opened = True, luid_found = True, privileges_adjusted = True, last_error = 0,
     CreateFileMapping2 = (\<lambda>_. 7), AllocateUserPhysicalPages = (\<lambda>h n. Some [1, 2, 3]),
     application_space = Some 65536, write_space = Some 0x10000000, read_space = (\<lambda>_. Some 0x20000000),
     pfn_space = True, commit_pfn = (\<lambda>_. True), CreateEvent = (\<lambda>_. True), CreateThread = (\<lambda>_. True),
     frequency = 1000\<rparr>"

lemma small_span: "span small_start [1, 2, 3] = 60"
proof -
  have "\<lfloor>6097 / 100 :: rat\<rfloor> = 60" by (rule floor_unique) simp_all
  then show ?thesis by (simp add: span_def small_start_def VA_SPAN_def VA_TO_PHYSICAL_RATIO_def)
qed

lemma small_granted:
  "frames_granted small_start small_grants [1, 2, 3]" "spaces_granted small_start small_grants 65536 60"
  "objects_granted small_grants [1, 2, 3]" "process_start small_start"
  "pages_in_page_file (vm small_start) = 64 * 1" "user_count small_start = 1"
proof -
  have d: "4096 dvd unat (65536 :: u64)" "4096 dvd unat (0x10000000 :: u64)" "4096 dvd unat (0x20000000 :: u64)"
    by simp_all
  show "frames_granted small_start small_grants [1, 2, 3]"
    by (simp add: frames_granted_def small_grants_def small_start_def GetPrivilege_def CreateSharedMemorySection_def)
  show "spaces_granted small_start small_grants 65536 60"
    using d by (simp add: spaces_granted_def small_grants_def region_apart_def)
qed (simp_all add: objects_granted_def small_grants_def process_start_def small_start_def blank_def user_count_def)


section \<open>Properties\<close>





text \<open>
  C24: the ways the acquisition of physical memory fails.  Without the privilege, or when no frames are
  granted, the process ends with a fatal error.  When the section cannot be created the function only
  prints and returns, the initialisation goes on with the null array of frame numbers, and the process
  dies of an access violation in \<open>set_max_frame_number\<close>.
\<close>

theorem initialization_failures:
  "(\<not> GetPrivilege r \<longrightarrow> initialize_system w r s =
      Inl (FatalError ''full_virtual_memory_test : could not get privilege.'')) \<and>
   (GetPrivilege r \<and> CreateSharedMemorySection r \<noteq> 0 \<and>
      AllocateUserPhysicalPages r (CreateSharedMemorySection r) (allocated_frame_count (vm s)) = None \<longrightarrow>
      initialize_system w r s = Inl (FatalError ''full_virtual_memory_test : could not allocate physical pages.'')) \<and>
   (GetPrivilege r \<and> CreateSharedMemorySection r = 0 \<and> allocated_frame_numbers (vm s) = [] \<and>
      allocated_frame_count (vm s) \<noteq> 0 \<longrightarrow> initialize_system w r s = Inl AccessViolation)"
  by (simp_all add: initialize_system_def initialize_physical_pages_def prog_simps set_max_frame_number_def
      allocated_frames_def unat_gt_0)

lemma initialization_failures_witness:
  "initialize_system small_os (small_grants\<lparr>CreateFileMapping2 := (\<lambda>_. 0)\<rparr>) small_start = Inl AccessViolation \<and>
   initialize_system small_os (small_grants\<lparr>last_error := 1300\<rparr>) small_start =
     Inl (FatalError ''full_virtual_memory_test : could not get privilege.'')"
proof -
  have "GetPrivilege (small_grants\<lparr>CreateFileMapping2 := (\<lambda>_. 0)\<rparr>)" "\<not> GetPrivilege (small_grants\<lparr>last_error := 1300\<rparr>)"
    "CreateSharedMemorySection (small_grants\<lparr>CreateFileMapping2 := (\<lambda>_. 0)\<rparr>) = 0"
    "allocated_frame_numbers (vm small_start) = []" "allocated_frame_count (vm small_start) \<noteq> 0"
    by (simp_all add: GetPrivilege_def small_grants_def CreateSharedMemorySection_def small_start_def zero_vm_def)
  then show ?thesis
    using initialization_failures [of "small_grants\<lparr>last_error := 1300\<rparr>" small_os small_start]
      initialization_failures [of "small_grants\<lparr>CreateFileMapping2 := (\<lambda>_. 0)\<rparr>" small_os small_start] by simp
qed

end
