(* ===== verification/Worker_Runs.thy ===== *)
theory Worker_Runs
  imports Workers System_Run
begin

text \<open>
  The worker threads on the whole system: rounds keep the invariant, and what becomes of the threads
  once \<open>begin_system_test\<close> has set the exit event and waits for them.
\<close>

section \<open>Rounds\<close>

lemma managed_counters [simp]:
  "managed s (u\<lparr>stats := a\<rparr>) = managed s u" "managed s (u\<lparr>ticks := b\<rparr>) = managed s u"
  "managed s (u\<lparr>events := c\<rparr>) = managed s u" "managed (s\<lparr>ticks := b\<rparr>) u = managed s u"
  "managed (s\<lparr>events := c\<rparr>) u = managed s u"
  by (simp_all add: managed_def)

lemma trim_turn_run:
  assumes inv: "sys_inv s C {}" and pos: "pte_to_trim s < entries s" and w: "awe_spec w"
  shows "\<exists>u C'. trim_turn w s = Inr ((), u) \<and> sys_inv u C' {} \<and> managed s u"
proof -
  let ?s = "s\<lparr>events := (events s)(initiate_trimming_event := False), ticks := ticks s + 1\<rparr>"
  have "sys_inv ?s C {}" "pte_to_trim ?s < entries ?s" using inv pos by simp_all
  from trim_pages_run [OF this w] obtain t C' n where
    t: "trim_pages w ?s = Inr (n, t)" "sys_inv t C' {}" "managed ?s t" by blast
  define u where "u = snd (projr (trim_turn w s))"
  have "trim_turn w s = Inr ((), u) \<and> u = t\<lparr>ticks := ticks t + 1, stats := stats u\<rparr>"
    using t(1) by (simp add: trim_turn_def prog_simps get_time_difference_def update_estimated_job_time_def u_def)
  then have "trim_turn w s = Inr ((), u)" "u = t\<lparr>ticks := ticks t + 1, stats := stats u\<rparr>" by blast+
  moreover from this(2) t(2,3) have "sys_inv u C' {} \<and> managed s u" by (metis managed_counters sys_inv_irrelevant)
  ultimately show ?thesis by blast
qed

lemma write_turn_run:
  assumes inv: "sys_inv s C {}" and w: "awe_spec w"
  shows "\<exists>u C'. write_turn w s = Inr ((), u) \<and> sys_inv u C' {} \<and> managed s u"
proof -
  let ?s0 = "s\<lparr>ticks := ticks s + 1\<rparr>"
  obtain ev where ev: "signal_event_if_list_is_about_to_run_low modified_list initiate_trimming_event
      TRIMMING_THREAD_ID LOW_PAGE_THRESHOLD ?s0 = Inr ((), ?s0\<lparr>events := ev\<rparr>)"
    using signal_run by blast
  let ?s = "?s0\<lparr>events := ev\<rparr>"
  have "sys_inv ?s C {}" using inv by simp
  from write_pages_run [OF this w] obtain t C' n where
    t: "write_pages w ?s = Inr (of_nat n, t)" "sys_inv t C' {}" "managed ?s t" by blast
  define u where "u = snd (projr (write_turn w s))"
  have "write_turn w s = Inr ((), u) \<and> u = t\<lparr>ticks := ticks t + 1, stats := stats u\<rparr>"
    using t(1) ev by (simp add: write_turn_def prog_simps get_time_difference_def update_estimated_job_time_def u_def)
  then have "write_turn w s = Inr ((), u)" "u = t\<lparr>ticks := ticks t + 1, stats := stats u\<rparr>" by blast+
  moreover from this(2) t(2,3) have "sys_inv u C' {} \<and> managed s u" by (metis managed_counters sys_inv_irrelevant)
  ultimately show ?thesis by blast
qed


section \<open>The end of a run\<close>

lemma start_passed: "events s system_start_event \<Longrightarrow> WaitForSingleObject w system_start_event s = Inr ((), s)"
  by (simp add: WaitForSingleObject_def prog_simps)

lemma trimmer_round:
  assumes "sys_inv s C {}" and "pte_to_trim s < entries s" and "awe_spec w"
  shows "\<exists>u C'. trim_turn w (consumed initiate_trimming_event s) = Inr ((), u) \<and> sys_inv u C' {} \<and> managed s u \<and>
     pte_to_trim u < entries u \<and> \<not> events u initiate_trimming_event \<and> events u system_exit_event = events s system_exit_event"
proof -
  obtain u C' where u: "trim_turn w s = Inr ((), u)" "sys_inv u C' {}" "managed s u" using trim_turn_run [OF assms] by blast
  have "consumed initiate_trimming_event s = s" by (simp add: consumed_def)
  moreover have "events u system_exit_event = events s system_exit_event"
    using keepsD [OF keeps_turns(1) u(1), of "{system_exit_event}" system_exit_event] by simp
  ultimately show ?thesis using u trim_turn_resets [OF u(1)] managed_trimmer [OF u(3) assms(2)] by auto
qed

lemma writer_round:
  assumes inv: "sys_inv s C {}" and w: "awe_spec w"
  shows "\<exists>u C'. write_turn w (consumed initiate_writing_event s) = Inr ((), u) \<and> sys_inv u C' {} \<and> managed s u \<and>
     \<not> events u initiate_writing_event \<and> events u system_exit_event = events s system_exit_event"
proof -
  let ?s = "s\<lparr>events := (events s)(initiate_writing_event := False)\<rparr>"
  have "consumed initiate_writing_event s = ?s" by (simp add: consumed_def)
  moreover obtain u C' where u: "write_turn w ?s = Inr ((), u)" "sys_inv u C' {}" "managed ?s u"
    using write_turn_run [of ?s C w] inv w by auto
  moreover have "events u e = events ?s e" if "e \<in> {system_exit_event, initiate_writing_event}" for e
    using keepsD [OF keeps_turns(2) u(1), of "{system_exit_event, initiate_writing_event}" e] that by auto
  ultimately show ?thesis by auto
qed

text \<open>The trimmer and the writer are workers; with cooperative other threads they go on running.\<close>

definition trimmer_good :: "os \<Rightarrow> machine \<Rightarrow> bool" where
  "trimmer_good w s \<longleftrightarrow> awe_spec w \<and> (\<exists>C. sys_inv s C {}) \<and> pte_to_trim s < entries s"

definition writer_good :: "os \<Rightarrow> machine \<Rightarrow> bool" where
  "writer_good w s \<longleftrightarrow> awe_spec w \<and> (\<exists>C. sys_inv s C {})"

interpretation trimmer: worker initiate_trimming_event trim_turn trimmer_good managed
  by unfold_locales (use trimmer_round in \<open>fastforce simp: trimmer_good_def\<close>, rule managed_refl, rule managed_trans)

interpretation writer: worker initiate_writing_event write_turn writer_good managed
  by unfold_locales (use writer_round in \<open>fastforce simp: writer_good_def\<close>, rule managed_refl, rule managed_trans)

interpretation running_trimmer: running_worker initiate_trimming_event trim_turn
  "\<lambda>w s. cooperative w \<and> trimmer_good w s" managed
proof unfold_locales
  fix w s assume good: "cooperative w \<and> trimmer_good w s"
  then obtain u C' where "others w s = Inr ((), u)" "sys_inv u C' {}" "managed s u"
    by (auto simp: cooperative_def trimmer_good_def)
  then show "\<exists>u. others w s = Inr ((), u) \<and> (cooperative w \<and> trimmer_good w u) \<and> managed s u"
    using good managed_trimmer by (auto simp: trimmer_good_def)
qed (use trimmer.round in fastforce, rule managed_refl, erule (1) managed_trans)

interpretation running_writer: running_worker initiate_writing_event write_turn
  "\<lambda>w s. cooperative w \<and> writer_good w s" managed
proof unfold_locales
  fix w s assume good: "cooperative w \<and> writer_good w s"
  then obtain u C' where "others w s = Inr ((), u)" "sys_inv u C' {}" "managed s u"
    by (auto simp: cooperative_def writer_good_def)
  then show "\<exists>u. others w s = Inr ((), u) \<and> (cooperative w \<and> writer_good w u) \<and> managed s u"
    using good by (auto simp: writer_good_def)
qed (use writer.round in fastforce, rule managed_refl, erule (1) managed_trans)

text \<open>The threads: behind the start event, the trimmer at the first entry.\<close>

lemma thread_bodies:
  assumes "events s system_start_event"
  shows "trim_pages_thread n w s = worker_loop n w initiate_trimming_event (trim_turn w) (s\<lparr>pte_to_trim := 0\<rparr>)"
    and "write_pages_thread n w s = worker_loop n w initiate_writing_event (write_turn w) s"
proof -
  have ret: "bind m return = m" for m :: "unit mm" by (simp add: bind_def return_def fun_eq_iff split: sum.split)
  show "trim_pages_thread n w s = worker_loop n w initiate_trimming_event (trim_turn w) (s\<lparr>pte_to_trim := 0\<rparr>)"
    using start_passed [OF assms, of w] by (simp add: trim_pages_thread_def start_trimmer_def bind_Inr bind_modify ret)
  show "write_pages_thread n w s = worker_loop n w initiate_writing_event (write_turn w) s"
    using start_passed [OF assms, of w] by (simp add: write_pages_thread_def bind_Inr ret)
qed

lemma first_entry_managed: "0 < entries s \<Longrightarrow> managed (s\<lparr>pte_to_trim := 0\<rparr>) u \<Longrightarrow> managed s u"
  by (auto simp: managed_def paging_of_def page_states_def)

lemma trim_thread_stops:
  assumes inv: "sys_inv s C {}" and n: "0 < entries s" and w: "awe_spec w"
    and ev: "events s system_start_event" "events s system_exit_event"
  shows "\<exists>u. trim_pages_thread (Suc (Suc n)) w s = Inr ((), u) \<and> (\<exists>C'. sys_inv u C' {}) \<and> managed s u"
proof -
  have "trimmer_good w (s\<lparr>pte_to_trim := 0\<rparr>)" using inv n w by (auto simp: trimmer_good_def)
  from trimmer.stops [OF this, of n] ev(2) show ?thesis
    using first_entry_managed [OF n] unfolding thread_bodies [OF ev(1)] trimmer_good_def by (simp del: worker_loop.simps) blast
qed

lemma write_thread_stops:
  assumes inv: "sys_inv s C {}" and w: "awe_spec w" and ev: "events s system_start_event" "events s system_exit_event"
  shows "\<exists>u. write_pages_thread (Suc (Suc n)) w s = Inr ((), u) \<and> (\<exists>C'. sys_inv u C' {}) \<and> managed s u"
proof -
  have "writer_good w s" using inv w by (auto simp: writer_good_def)
  from writer.stops [OF this ev(2), of n] show ?thesis
    unfolding thread_bodies [OF ev(1)] writer_good_def by blast
qed

text \<open>
  Nothing left to trim, nothing to write and fewer than 64 standby pages: the state in which the
  trimmer and the writer keep signalling each other.
\<close>

definition idle :: "machine \<Rightarrow> bool" where
  "idle s \<longleftrightarrow> pte_to_trim s < entries s \<and> (\<forall>i < entries s. \<not> IS_PTE_VALID (entire_pte (ptes s i))) \<and>
     list_size (lists s modified_list) = 0 \<and> unat (list_size (lists s standby_list)) < 64 \<and>
     0 \<le> page_consumption_per_second (stats s) \<and> 0 \<le> worker_runtimes (stats s) TRIMMING_THREAD_ID \<and>
     0 < sint (timer_frequency (stats s))"

text \<open>The performance counter never runs backwards.\<close>

definition clock_forward :: "os \<Rightarrow> bool" where
  "clock_forward w \<longleftrightarrow> (\<forall>t. 0 \<le> sint (QueryPerformanceCounter w (t + 1) - QueryPerformanceCounter w t))"

text \<open>Rounds of the two loops in turn, as long as both threads run; the result counts them.\<close>

primrec worker_rounds :: "nat \<Rightarrow> os \<Rightarrow> nat mm" where
  "worker_rounds 0 w = return 0"
| "worker_rounds (Suc n) w =
     bind (worker_turn w initiate_trimming_event (trim_turn w)) (\<lambda>trimming.
     bind (worker_turn w initiate_writing_event (write_turn w)) (\<lambda>writing.
     if trimming \<and> writing then bind (worker_rounds n w) (\<lambda>k. return (k + 1)) else return 0))"

lemma next_pte_less: "i < entries s \<Longrightarrow> next_pte (vm s) i < entries s"
  by (auto simp: next_pte_def entries_def)

lemma idle_walk:
  assumes "idle s" and "i < entries s"
  shows "\<exists>j. trim_walk n i [] s = Inr ((j, []), s)"
  using assms(2)
proof (induction n arbitrary: i)
  case (Suc n)
  have j: "next_pte (vm s) i < entries s" by (rule next_pte_less [OF Suc.prems])
  then have "trim_entry (next_pte (vm s) i) s = Inr (None, s)"
    using assms(1) by (simp add: trim_entry_def prog_simps idle_def pte_ok_def entries_def)
  then show ?case using Suc.IH [OF j] by (simp add: prog_simps)
qed (simp add: prog_simps)

lemma idle_trim_pages:
  assumes "idle s"
  shows "trim_pages w s = Inr (0, s\<lparr>events := (events s)(initiate_writing_event := True)\<rparr>)"
proof -
  obtain j where "trim_walk (unat MAX_TRIM_ATTEMPTS) (pte_to_trim s) [] s = Inr ((j, []), s)"
    using idle_walk [OF assms, of "pte_to_trim s"] assms by (auto simp: idle_def)
  then show ?thesis
    using assms by (simp add: trim_pages_def prog_simps trim_finish_def check_to_start_writer_def get_size_def idle_def)
qed

lemma idle_write_pages: "idle s \<Longrightarrow> write_pages w s = Inr (0, s)"
  by (simp add: write_pages_def write_target_def get_size_def prog_simps idle_def Let_def)

lemma idle_signal:
  assumes "idle s"
  shows "signal_event_if_list_is_about_to_run_low modified_list initiate_trimming_event TRIMMING_THREAD_ID
     LOW_PAGE_THRESHOLD s = Inr ((), s\<lparr>events := (events s)(initiate_trimming_event := True)\<rparr>)"
proof -
  have "0 \<le> to_integer (page_consumption_per_second (stats s) * worker_runtimes (stats s) TRIMMING_THREAD_ID)"
    using assms by (simp add: to_integer_def idle_def)
  then show ?thesis using assms
    by (simp add: signal_event_if_list_is_about_to_run_low_def check_if_list_is_about_to_run_low_def prog_simps idle_def Let_def)
qed

lemma idle_events [simp]:
  "idle (s\<lparr>events := a\<rparr>) = idle s" "idle (s\<lparr>ticks := b\<rparr>) = idle s"
  by (simp_all add: idle_def)

text \<open>The measured time of a round is not negative, so the estimates stay so.\<close>

lemma idle_job_time:
  assumes "idle s" and "0 \<le> d"
  shows "\<exists>x. update_estimated_job_time k d s = Inr ((), s\<lparr>stats := x\<rparr>) \<and> idle (s\<lparr>stats := x\<rparr>)"
  using assms by (auto simp: update_estimated_job_time_def prog_simps idle_def update_estimate_def EWMA_SMOOTHING_FACTOR_def)

lemma measured_time:
  assumes "idle s" and "clock_forward w"
  shows "(0::rat) \<le> of_int (sint (QueryPerformanceCounter w (Suc t) - QueryPerformanceCounter w t)) /
    of_int (sint (timer_frequency (stats s)))"
proof (rule divide_nonneg_nonneg)
  have "0 \<le> sint (QueryPerformanceCounter w (Suc t) - QueryPerformanceCounter w t)"
    using assms(2) unfolding clock_forward_def by simp
  then show "(0::rat) \<le> of_int (sint (QueryPerformanceCounter w (Suc t) - QueryPerformanceCounter w t))"
    by (subst of_int_0_le_iff)
  have "0 \<le> sint (timer_frequency (stats s))" using assms(1) by (simp add: idle_def)
  then show "(0::rat) \<le> of_int (sint (timer_frequency (stats s)))" by (subst of_int_0_le_iff)
qed

lemma idle_trim_turn:
  assumes "idle s" and "clock_forward w"
  shows "\<exists>u. trim_turn w s = Inr ((), u) \<and> idle u \<and> events u = (events s)(initiate_trimming_event := False, initiate_writing_event := True)"
proof -
  let ?s = "s\<lparr>events := (events s)(initiate_trimming_event := False), ticks := Suc (ticks s)\<rparr>"
  let ?t = "?s\<lparr>events := (events ?s)(initiate_writing_event := True), ticks := Suc (Suc (ticks s))\<rparr>"
  let ?d = "of_int (sint (QueryPerformanceCounter w (Suc (ticks s)) - QueryPerformanceCounter w (ticks s))) /
      of_int (sint (timer_frequency (stats s))) :: rat"
  have run: "trim_pages w ?s = Inr (0, ?s\<lparr>events := (events ?s)(initiate_writing_event := True)\<rparr>)"
    using assms(1) by (intro idle_trim_pages) simp
  have "0 \<le> ?d" by (rule measured_time [OF assms])
  moreover have "idle ?t" using assms(1) by simp
  ultimately obtain x where x: "update_estimated_job_time TRIMMING_THREAD_ID ?d ?t = Inr ((), ?t\<lparr>stats := x\<rparr>)"
    "idle (?t\<lparr>stats := x\<rparr>)" using idle_job_time by blast
  have "trim_turn w s = Inr ((), ?t\<lparr>stats := x\<rparr>)"
    using run x(1) by (simp add: trim_turn_def prog_simps get_time_difference_def)
  then show ?thesis using x(2) by (intro exI [of _ "?t\<lparr>stats := x\<rparr>"]) simp
qed

lemma idle_write_turn:
  assumes "idle s" and "clock_forward w"
  shows "\<exists>u. write_turn w s = Inr ((), u) \<and> idle u \<and> events u = (events s)(initiate_trimming_event := True)"
proof -
  let ?s = "s\<lparr>ticks := Suc (ticks s), events := (events s)(initiate_trimming_event := True)\<rparr>"
  let ?t = "?s\<lparr>ticks := Suc (Suc (ticks s))\<rparr>"
  let ?d = "of_int (sint (QueryPerformanceCounter w (Suc (ticks s)) - QueryPerformanceCounter w (ticks s))) /
      of_int (sint (timer_frequency (stats s))) :: rat"
  have signal: "signal_event_if_list_is_about_to_run_low modified_list initiate_trimming_event TRIMMING_THREAD_ID
      LOW_PAGE_THRESHOLD (s\<lparr>ticks := Suc (ticks s)\<rparr>) = Inr ((), ?s)"
    using idle_signal [of "s\<lparr>ticks := Suc (ticks s)\<rparr>"] assms(1) by simp
  have run: "write_pages w ?s = Inr (0, ?s)" using assms(1) by (intro idle_write_pages) simp
  have "0 \<le> ?d" by (rule measured_time [OF assms])
  moreover have "idle ?t" using assms(1) by simp
  ultimately obtain x where x: "update_estimated_job_time WRITING_THREAD_ID ?d ?t = Inr ((), ?t\<lparr>stats := x\<rparr>)"
    "idle (?t\<lparr>stats := x\<rparr>)" using idle_job_time by blast
  have "write_turn w s = Inr ((), ?t\<lparr>stats := x\<rparr>)"
    using run x(1) signal by (simp add: write_turn_def prog_simps get_time_difference_def)
  then show ?thesis using x(2) by (intro exI [of _ "?t\<lparr>stats := x\<rparr>"]) simp
qed


section \<open>Properties\<close>





text \<open>
  C16: together the workers may not end at all.  \<open>WaitForMultipleObjects\<close> prefers the work event to the
  exit event.  When no page can be trimmed, none is left to write and the standby list stays below 64
  pages, the trimmer finds the standby list low and signals the writer, the writer finds the modified list
  low and signals the trimmer: for any number of rounds both loops go on although the exit event is set,
  and \<open>begin_system_test\<close> waits for them.
\<close>

theorem workers_keep_each_other_awake:
  assumes "idle s" and "clock_forward w" and "events s initiate_trimming_event" and "events s system_exit_event"
  shows "\<exists>u. worker_rounds n w s = Inr (n, u) \<and> idle u \<and> events u initiate_trimming_event \<and> events u system_exit_event"
  using assms(1,3,4)
proof (induction n arbitrary: s)
  case (Suc n)
  obtain t where t: "trim_turn w s = Inr ((), t)" "idle t"
    "events t = (events s)(initiate_trimming_event := False, initiate_writing_event := True)"
    using idle_trim_turn [OF Suc.prems(1) assms(2)] by blast
  let ?t = "t\<lparr>events := (events t)(initiate_writing_event := False)\<rparr>"
  have "consumed initiate_writing_event t = ?t" "consumed initiate_trimming_event s = s" by (simp_all add: consumed_def)
  moreover obtain u where u: "write_turn w ?t = Inr ((), u)" "idle u" "events u = (events ?t)(initiate_trimming_event := True)"
    using idle_write_turn [of ?t w] t(2) assms(2) by auto
  moreover have "events u initiate_trimming_event" "events u system_exit_event" using u(3) t(3) Suc.prems(3) by simp_all
  moreover from Suc.IH [OF u(2) this] obtain v where "worker_rounds n w u = Inr (n, v)" "idle v"
    "events v initiate_trimming_event" "events v system_exit_event" by blast
  ultimately show ?case
    using t(1,3) Suc.prems(2) worker_turn_active [of s initiate_trimming_event] worker_turn_active [of t initiate_writing_event]
    by (simp add: prog_simps)
qed (simp add: prog_simps)

definition idle_machine :: machine where
  "idle_machine = blank\<lparr>vm := zero_vm\<lparr>num_ptes := 1\<rparr>, stats := zero_stats\<lparr>timer_frequency := 1000\<rparr>,
     events := (\<lambda>e. e = initiate_trimming_event \<or> e = system_exit_event)\<rparr>"

lemma workers_keep_each_other_awake_witness:
  "\<exists>u. worker_rounds 1000 (small_os\<lparr>QueryPerformanceCounter := (\<lambda>_. 5)\<rparr>) idle_machine = Inr (1000, u) \<and> events u system_exit_event"
proof -
  have "idle idle_machine"
    by (simp add: idle_def idle_machine_def entries_def blank_def zero_pte_def ZERO_PTE_def IS_PTE_VALID_def zero_stats_def
        get_valid_def get_bits_def PTE_VALID_def)
  moreover have "clock_forward (small_os\<lparr>QueryPerformanceCounter := (\<lambda>_. 5)\<rparr>)" by (simp add: clock_forward_def)
  ultimately show ?thesis
    using workers_keep_each_other_awake [of idle_machine "small_os\<lparr>QueryPerformanceCounter := (\<lambda>_. 5)\<rparr>" 1000]
    by (auto simp: idle_machine_def)
qed

end
