(* ===== verification/Process_Run.thy ===== *)
theory Process_Run
  imports User_Events Worker_Runs
begin

text \<open>
  The program from its command line to its end: what a user thread stores, what is left when all
  threads are done, and what the process still owns after the shutdown.
\<close>

section \<open>Arguments\<close>

text \<open>The decimal notation of a number.\<close>

fun decimal :: "nat \<Rightarrow> string" where
  "decimal n = (if n < 10 then [char_of (48 + n)] else decimal (n div 10) @ [char_of (48 + n mod 10)])"

declare decimal.simps [simp del]

lemma digit_value_digit: "d < 10 \<Longrightarrow> digit_value (char_of (48 + d)) = Some d"
  by (simp add: digit_value_def Let_def)

lemma read_digits_append:
  "\<forall>c \<in> set xs. digit_value c \<noteq> None \<Longrightarrow> read_digits acc (xs @ ys) = read_digits (read_digits acc xs) ys"
  by (induction xs arbitrary: acc) auto

lemma decimal_digits: "c \<in> set (decimal n) \<Longrightarrow> digit_value c \<noteq> None"
proof (induction n rule: decimal.induct)
  case (1 n)
  then show ?case using digit_value_digit [of n] digit_value_digit [of "n mod 10"]
    by (subst (asm) (2) decimal.simps) (auto split: if_splits)
qed

lemma read_decimal: "read_digits 0 (decimal n) = n"
proof (induction n rule: decimal.induct)
  case (1 n)
  then show ?case using digit_value_digit [of n] digit_value_digit [of "n mod 10"] decimal_digits [of _ "n div 10"]
    by (subst decimal.simps) (auto simp: read_digits_append)
qed

lemma decimal_first: "\<exists>c cs. decimal n = c # cs \<and> digit_value c \<noteq> None"
  using decimal_digits [of "hd (decimal n)" n] by (cases "decimal n") (subst (asm) decimal.simps, auto split: if_splits)

lemma digit_not_special:
  assumes "digit_value c \<noteq> None"
  shows "\<not> is_space c" "c \<noteq> CHR ''-''" "c \<noteq> CHR ''+''"
  using assms by (auto simp: digit_value_def is_space_def Let_def split: if_splits)

lemma strtol_decimal:
  "strtol (decimal n) = of_int (min (2 ^ 31 - 1) (int n))"
  "strtol (CHR ''-'' # decimal n) = of_int (max (- (2 ^ 31)) (- int n))"
proof -
  obtain c cs where c: "decimal n = c # cs" "digit_value c \<noteq> None" using decimal_first by blast
  have "read_sign (dropWhile is_space (decimal n)) = (False, decimal n)"
    using c digit_not_special [OF c(2)] by (simp add: read_sign_def)
  then show "strtol (decimal n) = of_int (min (2 ^ 31 - 1) (int n))" by (simp add: strtol_def read_decimal max_def)
  have "read_sign (dropWhile is_space (CHR ''-'' # decimal n)) = (True, decimal n)"
    by (simp add: read_sign_def is_space_def)
  then show "strtol (CHR ''-'' # decimal n) = of_int (max (- (2 ^ 31)) (- int n))"
    by (simp add: strtol_def read_decimal)
qed

lemma scast_long: "- (2 ^ 31) \<le> i \<Longrightarrow> i < 2 ^ 31 \<Longrightarrow> scast (of_int i :: u32) = (of_int i :: u64)"
proof -
  assume "- (2 ^ 31) \<le> i" "i < 2 ^ 31"
  then have "signed_take_bit 31 i = i" by (simp only: signed_take_bit_int_eq_self_iff)
  then have "sint (word_of_int i :: u32) = i" by (simp add: sint_sbintrunc')
  then show ?thesis by (simp add: scast_eq)
qed

lemma argument_value:
  "n < 2 ^ 31 \<Longrightarrow> strtol (decimal n) = of_nat n"
  "n < 2 ^ 31 \<Longrightarrow> scast (strtol (decimal n)) = (of_nat n :: u64)"
  "2 ^ 31 \<le> n \<Longrightarrow> scast (strtol (decimal n)) = (2 ^ 31 - 1 :: u64)"
  "n \<le> 2 ^ 31 \<Longrightarrow> scast (strtol (CHR ''-'' # decimal n)) = (- of_nat n :: u64)"
proof -
  show "strtol (decimal n) = of_nat n" if "n < 2 ^ 31" 
  proof -
    have "min (2 ^ 31 - 1) (int n) = int n" using that by simp
    then show ?thesis unfolding strtol_decimal by simp
  qed
  show "scast (strtol (decimal n)) = (of_nat n :: u64)" if "n < 2 ^ 31"
  proof -
    have "min (2 ^ 31 - 1) (int n) = int n" using that by simp
    then show ?thesis unfolding strtol_decimal using scast_long [of "int n"] that by simp
  qed
  show "scast (strtol (decimal n)) = (2 ^ 31 - 1 :: u64)" if "2 ^ 31 \<le> n"
    using that scast_long [of "2 ^ 31 - 1"] by (simp add: strtol_decimal min_def)
  show "scast (strtol (CHR ''-'' # decimal n)) = (- of_nat n :: u64)" if "n \<le> 2 ^ 31"
    using that scast_long [of "- int n"] by (simp add: strtol_decimal max_def)
qed


section \<open>The threads\<close>

lemma stored_irrelevant:
  "stored (s\<lparr>events := a\<rparr>) sts u = stored s sts u" "stored (s\<lparr>ticks := b\<rparr>) sts u = stored s sts u"
proof -
  have "virtual_page (s\<lparr>events := a\<rparr>) = virtual_page s" "virtual_page (s\<lparr>ticks := b\<rparr>) = virtual_page s"
    by (simp_all add: virtual_page_def fun_eq_iff)
  then show "stored (s\<lparr>events := a\<rparr>) sts u = stored s sts u" "stored (s\<lparr>ticks := b\<rparr>) sts u = stored s sts u"
    by (simp_all add: stored_def)
qed

lemma user_body_run:
  assumes inv: "sys_inv s C {}" and t: "t < user_count s" and b: "8 dvd unat b"
    and w: "awe_spec w" "cooperative w" and n: "0 < unat (num_ptes (vm s))" and start: "events s system_start_event"
  shows "run_user_app_simulation fuel w a b t s = Inl SpinForever \<or>
    (\<exists>u vas. run_user_app_simulation fuel w a b t s = Inr ((), u) \<and> length vas = unat (iterations (vm s)) \<and>
       (\<forall>x \<in> set vas. word_address (vm s) x) \<and> stored s (map (store_at (vm s)) vas) u)"
proof -
  have reg: "va_region_ok (vm s)" using sys_invD(1) [OF inv] by (simp add: frames_ok_def)
  obtain x where x: "get_arbitrary_va (vm s) (random_seed (users s t)) = Inr (x, snd (xorshift64 (random_seed (users s t))))"
    "word_address (vm s) x" using get_arbitrary_va_word [OF reg n] by blast
  let ?s = "s\<lparr>users := (users s)(t := random_seed_update (\<lambda>_. snd (xorshift64 (random_seed (users s t)))) (users s t))\<rparr>"
  let ?n = "unat (iterations (vm s))"
  have run: "run_user_app_simulation fuel w a b t s = bind (user_accesses ?n fuel w a b x t) (\<lambda>_. return ()) ?s"
    using x(1) start_passed [OF start, of w] by (simp add: run_user_app_simulation_def prog_simps)
  have inv': "sys_inv ?s C {}" by (rule seed_sys [OF inv])
  have same: "managed s ?s" by (intro managed_same) simp_all
  from user_accesses_safe [OF inv' _ _ b w, of x t ?n fuel a] x(2) t n
  have "user_accesses ?n fuel w a b x t ?s = Inl SpinForever \<or>
    (\<exists>u va' vas. user_accesses ?n fuel w a b x t ?s = Inr (va', u) \<and> length vas = ?n \<and>
       (\<forall>x \<in> set vas. word_address (vm s) x) \<and> stored ?s (map (store_at (vm s)) vas) u)" by simp
  then show ?thesis
  proof (elim disjE exE conjE)
    fix u va' vas
    assume "user_accesses ?n fuel w a b x t ?s = Inr (va', u)" and v: "length vas = ?n"
      "\<forall>x \<in> set vas. word_address (vm s) x" "stored ?s (map (store_at (vm s)) vas) u"
    then have "run_user_app_simulation fuel w a b t s = Inr ((), u)" by (simp add: run prog_simps)
    then show ?thesis using v(1,2) stored_managed [OF same inv v(3)] by blast
  qed (simp add: run prog_simps)
qed

lemma user_bodies_run:
  assumes inv: "sys_inv s C {}" and ts: "\<forall>t \<in> set ts. t < user_count s" and b: "8 dvd unat b"
    and w: "awe_spec w" "cooperative w" "keeps_main (others w)" and n: "0 < unat (num_ptes (vm s))"
    and start: "events s system_start_event"
  shows "for_each (map user_thread ts) (thread_body fuel rounds w a b) s = Inl SpinForever \<or>
    (\<exists>u vas. for_each (map user_thread ts) (thread_body fuel rounds w a b) s = Inr ((), u) \<and>
       length vas = length ts * unat (iterations (vm s)) \<and> (\<forall>x \<in> set vas. word_address (vm s) x) \<and>
       stored s (map (store_at (vm s)) vas) u \<and> events u system_start_event)"
  using inv ts n start
proof (induction ts arbitrary: s C)
  case Nil
  then show ?case by (auto simp: prog_simps stored_def)
next
  case (Cons t ts)
  have t: "t < user_count s" using Cons.prems(2) by simp
  let ?rest = "for_each (map user_thread ts) (thread_body fuel rounds w a b)"
  have step: "for_each (map user_thread (t # ts)) (thread_body fuel rounds w a b) s =
      bind (run_user_app_simulation fuel w a b t) (\<lambda>_. ?rest) s" by simp
  from user_body_run [OF Cons.prems(1) t b w(1,2) Cons.prems(3,4), of fuel a] show ?case
  proof
    assume "run_user_app_simulation fuel w a b t s = Inl SpinForever"
    then show ?thesis unfolding step by (simp add: prog_simps)
  next
    assume "\<exists>u vas. run_user_app_simulation fuel w a b t s = Inr ((), u) \<and> length vas = unat (iterations (vm s)) \<and>
       (\<forall>x \<in> set vas. word_address (vm s) x) \<and> stored s (map (store_at (vm s)) vas) u"
    then obtain u vas where u: "run_user_app_simulation fuel w a b t s = Inr ((), u)" "length vas = unat (iterations (vm s))"
      "\<forall>x \<in> set vas. word_address (vm s) x" "stored s (map (store_at (vm s)) vas) u" by blast
    obtain C' where C': "sys_inv u C' {}" "vm u = vm s" "user_count u = user_count s" using u(4) by (auto simp: stored_def)
    have "events u system_start_event" using keepsD [OF keeps_user_thread [OF w(3)] u(1)] Cons.prems(4) by simp
    from Cons.IH [OF C'(1) _ _ this] Cons.prems(2,3) C'(2,3)
    have "?rest u = Inl SpinForever \<or> (\<exists>v ws. ?rest u = Inr ((), v) \<and> length ws = length ts * unat (iterations (vm s)) \<and>
       (\<forall>x \<in> set ws. word_address (vm s) x) \<and> stored u (map (store_at (vm s)) ws) v \<and> events v system_start_event)" by simp
    then show ?thesis
    proof
      assume "?rest u = Inl SpinForever"
      then show ?thesis unfolding step using u(1) by (simp add: prog_simps)
    next
      assume "\<exists>v ws. ?rest u = Inr ((), v) \<and> length ws = length ts * unat (iterations (vm s)) \<and>
       (\<forall>x \<in> set ws. word_address (vm s) x) \<and> stored u (map (store_at (vm s)) ws) v \<and> events v system_start_event"
      then obtain v ws where v: "?rest u = Inr ((), v)" "length ws = length ts * unat (iterations (vm s))"
        "\<forall>x \<in> set ws. word_address (vm s) x" "stored u (map (store_at (vm s)) ws) v" "events v system_start_event" by blast
      have "stored s (map (store_at (vm s)) (vas @ ws)) v" using stored_trans [OF u(4) v(4)] by simp
      then show ?thesis unfolding step using u(1-3) v
        by (intro disjI2 exI [of _ v] exI [of _ "vas @ ws"]) (auto simp: prog_simps)
    qed
  qed
qed

text \<open>Once the exit event is set the workers come to their end.\<close>

lemma workers_end:
  assumes inv: "sys_inv s C {}" and n: "0 < entries s" and w: "awe_spec w" "keeps_main (others w)"
    and ev: "events s system_start_event" "events s system_exit_event"
  shows "\<exists>u. block (map (thread_body fuel (Suc (Suc k)) w a b) [trimming_thread, writing_thread, scheduling_thread]) s = Inr ((), u) \<and>
     stored s [] u"
proof -
  obtain t C1 where t: "trim_pages_thread (Suc (Suc k)) w s = Inr ((), t)" "sys_inv t C1 {}" "managed s t"
    using trim_thread_stops [OF inv n w(1) ev] by blast
  have trimming: "keeps_main (trim_pages_thread m w)" for m
    unfolding trim_pages_thread_def start_trimmer_def
    by (intro keeps w keeps_worker_loop keeps_turns) simp_all
  have "events t system_start_event" "events t system_exit_event" using keepsD [OF trimming t(1)] ev by simp_all
  moreover from write_thread_stops [OF t(2) w(1) this] obtain v C2 where
    v: "write_pages_thread (Suc (Suc k)) w t = Inr ((), v)" "sys_inv v C2 {}" "managed t v" by blast
  have writing: "keeps_main (write_pages_thread m w)" for m
    unfolding write_pages_thread_def by (intro keeps w keeps_worker_loop keeps_turns) simp_all
  ultimately have "events v system_start_event" "events v system_exit_event" using keepsD [OF writing v(1)] by simp_all
  then have "schedule_tasks (Suc (Suc k)) w v = Inr ((), v\<lparr>ticks := ticks v + 1\<rparr>)"
    by (simp add: schedule_tasks_def prog_simps WaitForSingleObject_def wait_with_timeout_def)
  moreover have "stored s [] (v\<lparr>ticks := ticks v + 1\<rparr>)"
    using managed_trans [OF t(3) v(3)] v(2) by (intro managed_stored [OF _ inv, of _ C2]) simp_all
  ultimately show ?thesis using t(1) v(1) by (auto simp: prog_simps)
qed


text \<open>The test: the users, awaited unless there are too many of them, then the workers.\<close>

lemma system_test_run:
  assumes inv: "sys_inv s C {}" and b: "8 dvd unat b" and w: "awe_spec w" "cooperative w" "keeps_main (others w)"
    and n: "0 < entries s"
  defines "m \<equiv> (if user_count s \<le> MAXIMUM_WAIT_OBJECTS then user_count s else 0)"
  shows "m \<noteq> 0 \<and> begin_system_test (thread_body fuel (Suc (Suc k)) w a b) s = Inl SpinForever \<or>
    (\<exists>u vas. begin_system_test (thread_body fuel (Suc (Suc k)) w a b) s = Inr ((), u) \<and>
       length vas = m * unat (iterations (vm s)) \<and> (\<forall>x \<in> set vas. word_address (vm s) x) \<and>
       stored s (map (store_at (vm s)) vas) u)"
proof -
  let ?run = "thread_body fuel (Suc (Suc k)) w a b"
  let ?s = "s\<lparr>events := (events s)(system_start_event := True)\<rparr>"
  let ?workers = "\<lambda>u. block (map ?run [trimming_thread, writing_thread, scheduling_thread])
    (u\<lparr>events := (events u)(system_exit_event := True)\<rparr>)"
  have awaited: "wait_for_all ?run (map user_thread [0..<user_count s]) = for_each (map user_thread [0..<m]) ?run"
    by (simp add: wait_for_all_def m_def)
  then have step: "begin_system_test ?run s =
      (case for_each (map user_thread [0..<m]) ?run ?s of Inl e \<Rightarrow> Inl e | Inr (_, u) \<Rightarrow> ?workers u)"
    by (simp add: begin_system_test_def prog_simps user_count_def split: sum.split)
  have inv': "sys_inv ?s C {}" using inv by simp
  have small: "\<forall>t \<in> set [0..<m]. t < user_count ?s" by (auto simp: m_def)
  have n': "0 < unat (num_ptes (vm ?s))" using n by (simp add: entries_def)
  have started: "events ?s system_start_event" by simp
  from user_bodies_run [OF inv' small b w n' started, of fuel "Suc (Suc k)" a] show ?thesis
  proof (elim disjE exE conjE)
    assume spin: "for_each (map user_thread [0..<m]) ?run ?s = Inl SpinForever"
    then have "m \<noteq> 0" by (cases "m = 0") (simp_all add: return_def)
    then show ?thesis using spin step by simp
  next
    fix u vas
    assume run: "for_each (map user_thread [0..<m]) ?run ?s = Inr ((), u)" and len: "length vas = length [0..<m] * unat (iterations (vm ?s))"
      and vas: "\<forall>x \<in> set vas. word_address (vm ?s) x" and st: "stored ?s (map (store_at (vm ?s)) vas) u"
      and ev: "events u system_start_event"
    let ?u = "u\<lparr>events := (events u)(system_exit_event := True)\<rparr>"
    obtain C' where C': "sys_inv u C' {}" "vm u = vm s" using st by (auto simp: stored_def)
    have "sys_inv ?u C' {}" "0 < entries ?u" "events ?u system_start_event" "events ?u system_exit_event"
      using C' n ev by (simp_all add: entries_def)
    from workers_end [OF this(1,2) w(1,3) this(3,4)] obtain v where v: "?workers u = Inr ((), v)" "stored ?u [] v" by blast
    have "stored s (map (store_at (vm s)) vas) v"
      using stored_trans [of ?s _ u "[]" v] st v(2) by (simp add: stored_irrelevant)
    moreover have "begin_system_test ?run s = Inr ((), v)" using run v(1) step by simp
    ultimately show ?thesis using len vas by auto
  qed
qed


section \<open>The release\<close>

text \<open>\<open>unmap_all_pages\<close> leaves no page of the application mapped.\<close>

lemma not_valid_unmapped:
  assumes inv: "sys_inv s C {}" and i: "i < entries s" and valid: "get_valid (entire_pte (ptes s i)) = 0"
  shows "va_map s (va_of (vm s) i) = None"
proof -
  have "page_states s i \<noteq> Resident f" for f
  proof
    assume "page_states s i = Resident f"
    then have "sane_view (entire_pte (ptes s i)) = ValidView f"
      using i by (auto simp: page_states_def entry_state_def book_of_def split: pte_view.splits if_splits)
    then have "IS_PTE_VALID (entire_pte (ptes s i))" using sane_viewD(1) pte_view_valid_iff by blast
    then show False using valid by (simp add: IS_PTE_VALID_def PTE_VALID_def)
  qed
  then show ?thesis using sys_invD(8) [OF inv] i by (auto simp: maps_ok_def split: page_state.splits)
qed

lemma unmap_all_pages_run:
  assumes inv: "sys_inv s C {}" and w: "awe_spec w"
  shows "\<exists>m. unmap_all_pages w s = Inr ((), s\<lparr>va_map := m\<rparr>) \<and> (\<forall>i < entries s. m (va_of (vm s) i) = None)"
proof -
  define body where "body = (\<lambda>pte. bind (read_pte pte) (\<lambda>word. if get_valid word = 0 then return ()
     else bind (gets (\<lambda>s. get_VA_from_PTE (vm s) pte)) (\<lambda>r. bind (lift_result r) (\<lambda>va. unmap_pages w 1 va))))"
  have step: "\<exists>m'. body i (s\<lparr>va_map := m\<rparr>) = Inr ((), s\<lparr>va_map := m'\<rparr>) \<and> m' (va_of (vm s) i) = None \<and>
      (\<forall>va. m' va = None \<or> m' va = m va)"
    if i: "i < entries s" and m: "\<forall>va. m va = None \<or> m va = va_map s va" for i m
  proof (cases "get_valid (entire_pte (ptes s i)) = 0")
    case True
    then have "m (va_of (vm s) i) = None" using not_valid_unmapped [OF inv i] m by metis
    then show ?thesis using True i by (intro exI [of _ m]) (simp add: body_def prog_simps pte_ok_def entries_def)
  next
    case False
    have "get_VA_from_PTE (vm s) i = Inr (va_of (vm s) i)" using get_VA_from_PTE_ok i by (simp add: entries_def va_of_def)
    moreover have "unmap_pages w 1 va (s\<lparr>va_map := m\<rparr>) = Inr ((), s\<lparr>va_map := m(va := None)\<rparr>)" for va
      using w by (simp add: unmap_pages_def prog_simps awe_spec_def map_list_def pages_from_def)
    ultimately show ?thesis using False i
      by (intro exI [of _ "m(va_of (vm s) i := None)"]) (auto simp: body_def prog_simps pte_ok_def entries_def)
  qed
  have "k \<le> entries s \<Longrightarrow> \<exists>m. for_each [0..<k] body s = Inr ((), s\<lparr>va_map := m\<rparr>) \<and>
      (\<forall>va. m va = None \<or> m va = va_map s va) \<and> (\<forall>i < k. m (va_of (vm s) i) = None)" for k
  proof (induction k)
    case 0
    then show ?case by (intro exI [of _ "va_map s"]) (simp add: prog_simps)
  next
    case (Suc k)
    then obtain m where m: "for_each [0..<k] body s = Inr ((), s\<lparr>va_map := m\<rparr>)" "\<forall>va. m va = None \<or> m va = va_map s va"
      "\<forall>i < k. m (va_of (vm s) i) = None" by auto
    obtain m' where m': "body k (s\<lparr>va_map := m\<rparr>) = Inr ((), s\<lparr>va_map := m'\<rparr>)" "m' (va_of (vm s) k) = None"
      "\<forall>va. m' va = None \<or> m' va = m va" using step [OF _ m(2), of k] Suc.prems by auto
    have "for_each [0..<Suc k] body s = Inr ((), s\<lparr>va_map := m'\<rparr>)"
      using m(1) m'(1) by (simp add: for_each_append prog_simps)
    moreover have "\<forall>va. m' va = None \<or> m' va = va_map s va" using m(2) m'(3) by metis
    moreover have "\<forall>i < Suc k. m' (va_of (vm s) i) = None" using m(3) m'(2,3) by (metis less_Suc_eq)
    ultimately show ?case by blast
  qed
  from this [of "entries s"] show ?thesis
    by (auto simp: unmap_all_pages_def prog_simps entries_def simp flip: body_def)
qed


text \<open>Acquisition and release of a list of resources.\<close>

lemma acquire_all: "for_each xs acquire p = Inr ((), p\<lparr>ledger := (\<lambda>x. if x \<in> set xs then Live else ledger p x)\<rparr>)"
proof (induction xs arbitrary: p)
  case (Cons x xs)
  then show ?case by (simp add: prog_simps acquire_def fun_eq_iff cong: if_cong)
qed (simp add: prog_simps)

definition dropped :: "resource set \<Rightarrow> process \<Rightarrow> process" where
  "dropped X p = p\<lparr>ledger := (\<lambda>x. if x \<in> X then Dangling else ledger p x)\<rparr>"

lemma release_run: "ledger p x = Live \<Longrightarrow> release x p = Inr ((), dropped {x} p)"
  by (auto simp: release_def prog_simps dropped_def fun_eq_iff intro!: arg_cong [of _ _ "\<lambda>l. p\<lparr>ledger := l\<rparr>"])

lemma dropped_simps [simp]:
  "machine_of (dropped X p) = machine_of p" "dropped Y (dropped X p) = dropped (Y \<union> X) p"
  "ledger (dropped X p) x = (if x \<in> X then Dangling else ledger p x)"
  by (auto simp: dropped_def fun_eq_iff)

lemma on_machine_run [prog_simps]:
  "m (machine_of p) = Inr (x, u) \<Longrightarrow> on_machine m p = Inr (x, p\<lparr>machine_of := u\<rparr>)"
  "m (machine_of p) = Inl e \<Longrightarrow> on_machine m p = Inl e"
  by (simp_all add: on_machine_def zoom_def)

text \<open>What the shutdown releases, and what it forgets.\<close>

lemmas resource_defs = physical_page_resources_def list_resources_def page_file_resources_def event_resources_def
  thread_resources_def

definition given_back :: "nat \<Rightarrow> resource set" where
  "given_back n = {UserThreadArray, UserThreadIdArray, PageFile, PageFileBitmaps, PfnRegion, PageTable, ApplicationRegion,
     WriteRegion, PhysicalPages, FrameNumberArray} \<union> ReadRegion ` {..<n} \<union>
     EventHandle ` {system_start_event, standby_pages_ready_event, initiate_aging_event, initiate_trimming_event,
       initiate_writing_event}"

lemma release_regions:
  assumes "ledger p UserThreadInfo = Live" and "\<forall>i < n. ledger p (ReadRegion i) = Live"
  shows "k \<le> n \<Longrightarrow> for_each [0..<k] (\<lambda>i. bind (gets (\<lambda>p. ledger p UserThreadInfo)) (\<lambda>state.
      bind (check_access (state = Live)) (\<lambda>_. release (ReadRegion i)))) p = Inr ((), dropped (ReadRegion ` {..<k}) p)"
proof (induction k)
  case 0
  then show ?case by (simp add: prog_simps dropped_def)
next
  case (Suc k)
  let ?q = "dropped (ReadRegion ` {..<k}) p"
  have "ledger ?q UserThreadInfo = Live" "ledger ?q (ReadRegion k) = Live" using assms Suc.prems by auto
  moreover have "insert (ReadRegion k) (ReadRegion ` {..<k}) = ReadRegion ` {..<Suc k}" by (simp add: lessThan_Suc)
  ultimately show ?case using Suc by (simp add: for_each_append prog_simps release_run)
qed

lemma free_all_run:
  assumes inv: "sys_inv (machine_of p) C {}" and w: "awe_spec w" and n: "n = user_count (machine_of p)"
    and live: "\<forall>x \<in> insert UserThreadInfo (given_back n). ledger p x = Live"
  shows "\<exists>m. free_all_data_and_shut_down w p = Inr ((), dropped (given_back n) (p\<lparr>machine_of := (machine_of p)\<lparr>va_map := m\<rparr>\<rparr>)) \<and>
     (\<forall>i < entries (machine_of p). m (va_of (vm (machine_of p)) i) = None)"
proof -
  obtain m where m: "unmap_all_pages w (machine_of p) = Inr ((), (machine_of p)\<lparr>va_map := m\<rparr>)"
    "\<forall>i < entries (machine_of p). m (va_of (vm (machine_of p)) i) = None"
    using unmap_all_pages_run [OF inv w] by blast
  have l: "ledger p x = Live" if "x \<in> insert UserThreadInfo (given_back n)" for x using live that by blast
  have live': "ledger p UserThreadArray = Live" "ledger p UserThreadIdArray = Live" "ledger p PageFile = Live"
    "ledger p PageFileBitmaps = Live" "ledger p PfnRegion = Live" "ledger p PageTable = Live"
    "ledger p ApplicationRegion = Live" "ledger p WriteRegion = Live" "ledger p PhysicalPages = Live"
    "ledger p FrameNumberArray = Live" "ledger p (EventHandle system_start_event) = Live"
    "ledger p (EventHandle standby_pages_ready_event) = Live" "ledger p (EventHandle initiate_aging_event) = Live"
    "ledger p (EventHandle initiate_trimming_event) = Live" "ledger p (EventHandle initiate_writing_event) = Live"
    "ledger p UserThreadInfo = Live" "\<forall>i < n. ledger p (ReadRegion i) = Live"
    by (auto intro!: l simp: given_back_def)
  define q0 where "q0 = dropped {UserThreadArray, UserThreadIdArray, EventHandle system_start_event,
      EventHandle standby_pages_ready_event, EventHandle initiate_aging_event, EventHandle initiate_trimming_event,
      EventHandle initiate_writing_event, PageFile, PageFileBitmaps, PfnRegion, PageTable}
    (p\<lparr>machine_of := (machine_of p)\<lparr>va_map := m\<rparr>\<rparr>)"
  have first: "block [bind (gets (\<lambda>p. ledger p PageTable)) (\<lambda>state. check_access (state = Live)), on_machine (unmap_all_pages w),
      free_events, free_page_file_data, free_PFN_data, free_PTE_data] p = Inr ((), q0)"
    using live' m(1)
    by (simp add: prog_simps free_events_def free_page_file_data_def free_PFN_data_def free_PTE_data_def release_run q0_def)
  define q where "q = dropped {ApplicationRegion, WriteRegion} q0"
  have regions: "for_each [0..<n] (\<lambda>i. bind (gets (\<lambda>p. ledger p UserThreadInfo)) (\<lambda>state.
      bind (check_access (state = Live)) (\<lambda>_. release (ReadRegion i)))) q = Inr ((), dropped (ReadRegion ` {..<n}) q)"
    using live' by (intro release_regions [of q n n]) (auto simp: q_def q0_def)
  have count: "unat (num_user_threads (vm (machine_of q0))) = n" using n by (simp add: q0_def user_count_def)
  have second: "free_VA_space_data q0 = Inr ((), dropped (ReadRegion ` {..<n}) q)"
    using live' regions count by (simp add: free_VA_space_data_def prog_simps release_run) (simp add: q_def q0_def release_run prog_simps)
  have "free_all_data_and_shut_down w p = bind free_VA_space_data (\<lambda>_. block [release PhysicalPages, release FrameNumberArray]) q0"
    using first by (auto simp: free_all_data_and_shut_down_def bind_def return_def split: sum.splits)
  then have "free_all_data_and_shut_down w p = Inr ((), dropped {PhysicalPages, FrameNumberArray} (dropped (ReadRegion ` {..<n}) q))"
  proof -
    let ?r = "dropped (ReadRegion ` {..<n}) q"
    have "ledger ?r PhysicalPages = Live" "ledger (dropped {PhysicalPages} ?r) FrameNumberArray = Live"
      using live' by (auto simp: q_def q0_def)
    then have "block [release PhysicalPages, release FrameNumberArray] ?r =
        Inr ((), dropped {FrameNumberArray} (dropped {PhysicalPages} ?r))"
      by (simp add: bind_Inr [OF release_run] return_def)
    then show ?thesis using second \<open>free_all_data_and_shut_down w p = _\<close> by (simp add: bind_Inr)
  qed
  moreover have "dropped {PhysicalPages, FrameNumberArray} (dropped (ReadRegion ` {..<n}) q) =
      dropped (given_back n) (p\<lparr>machine_of := (machine_of p)\<lparr>va_map := m\<rparr>\<rparr>)"
    unfolding q_def q0_def dropped_simps by (rule arg_cong [of _ _ "\<lambda>X. dropped X _"]) (auto simp: given_back_def)
  ultimately show ?thesis using m(2) by auto
qed


section \<open>The program\<close>

text \<open>The machine once the arguments are read.\<close>

definition configured :: "string list \<Rightarrow> machine \<Rightarrow> machine" where
  "configured argv s = s\<lparr>vm := read_arguments argv (set_defaults (vm s))\<rparr>"

text \<open>
  The command line is well formed, and Windows grants frames \<open>fs\<close>, a region at \<open>base\<close> and all objects.
\<close>

definition well_started :: "machine \<Rightarrow> grants \<Rightarrow> u64 list \<Rightarrow> u64 \<Rightarrow> nat \<Rightarrow> nat \<Rightarrow> nat \<Rightarrow> nat \<Rightarrow> string list \<Rightarrow> bool" where
  "well_started s r fs base k n frames_wanted rows argv \<longleftrightarrow>
     (\<exists>name. argv = [name, decimal k, decimal n, decimal frames_wanted, decimal (64 * rows)]) \<and>
     k < 2 ^ 31 \<and> n < 2 ^ 31 \<and> frames_wanted < 2 ^ 31 \<and> 0 < rows \<and> 64 * rows < 2 ^ 31 \<and> process_start s \<and>
     frames_granted (configured argv s) r fs \<and>
     spaces_granted (configured argv s) r base (span (configured argv s) fs) \<and> objects_granted r fs \<and>
     0 < span (configured argv s) fs"

text \<open>A whole run of the process on the machine \<open>s\<close>.\<close>

definition process_run :: "nat \<Rightarrow> nat \<Rightarrow> os \<Rightarrow> u64 \<Rightarrow> u64 \<Rightarrow> grants \<Rightarrow> string list \<Rightarrow> machine \<Rightarrow> fault + outcome \<times> process" where
  "process_run fuel rounds w a b r argv s =
     main (thread_body fuel rounds w a b) w r argv \<lparr>machine_of = s, ledger = (\<lambda>_. Null)\<rparr>"

text \<open>\<open>awaited k\<close> of \<open>k\<close> user threads are waited for.\<close>

definition awaited :: "nat \<Rightarrow> nat" where
  "awaited k = (if k \<le> MAXIMUM_WAIT_OBJECTS then k else 0)"

definition stores_at :: "u64 \<Rightarrow> u64 list \<Rightarrow> (nat \<times> nat \<times> u64) list" where
  "stores_at base vas = map (\<lambda>va. ((unat va - unat base) div 4096, word_index va, va)) vas"

lemma main_run:
  assumes start: "well_started s r fs base k n c rows argv"
    and b: "8 dvd unat b" and w: "awe_spec w" "cooperative w" "keeps_main (others w)"
  shows "awaited k \<noteq> 0 \<and> process_run fuel (Suc (Suc j)) w a b r argv s = Inl SpinForever \<or>
    (\<exists>ratio seconds u vas. process_run fuel (Suc (Suc j)) w a b r argv s = Inr (Finished ratio seconds, u) \<and> length vas = awaited k * n \<and>
       (\<forall>x \<in> set vas. base \<le> x \<and> unat x < unat base + span (configured argv s) fs * 4096) \<and>
       virtual_page (machine_of u) = fold flat_store (stores_at base vas) (\<lambda>_. zero_page) \<and>
       (\<forall>i < span (configured argv s) fs. va_map (machine_of u) (base + of_nat i * PAGE_SIZE) = None) \<and>
       ledger u ApplicationRegion = Dangling)"
proof -
  let ?c = "configured argv s" let ?n = "span (configured argv s) fs"
  let ?run = "thread_body fuel (Suc (Suc j)) w a b"
  obtain name where argv: "argv = [name, decimal k, decimal n, decimal c, decimal (64 * rows)]"
    and small: "k < 2 ^ 31" "n < 2 ^ 31" "c < 2 ^ 31" "0 < rows" "64 * rows < 2 ^ 31"
    using start by (auto simp: well_started_def)
  note granted = start [unfolded well_started_def, THEN conjunct2, THEN conjunct2, THEN conjunct2, THEN conjunct2,
      THEN conjunct2, THEN conjunct2]
  have v: "num_user_threads (vm ?c) = of_nat k" "iterations (vm ?c) = of_nat n" "pages_in_page_file (vm ?c) = 64 * of_nat rows"
    using argument_value(1) [OF small(1)] argument_value(2) [OF small(2)] argument_value(2) [OF small(5)]
    by (simp_all add: configured_def read_arguments_def argv)
  have counts: "user_count ?c = k" "unat (iterations (vm ?c)) = n" "unat (of_nat rows :: u64) = rows"
    using small by (simp_all add: user_count_def v unat_of_nat)
  obtain u C where u: "initialize_system w r ?c = Inr ((), u)" "sys_inv u C {}" "entries u = ?n" "user_count u = k"
    "application_va_base (vm u) = base" "page_states u = (\<lambda>_. Untouched)" "unat (iterations (vm u)) = n"
  proof -
    have "process_start ?c" using granted by (simp add: process_start_def configured_def)
    moreover have "0 < unat (of_nat rows :: u64)" "64 * unat (of_nat rows :: u64) \<le> 2 ^ 40" using small counts(3) by simp_all
    ultimately show thesis using initialize_system_run [of ?c r fs base "of_nat rows" w] granted counts(1,2) v(3) that by auto
  qed
  define p where "p = \<lparr>machine_of = u, ledger = (\<lambda>x. if x \<in> set (initial_resources k) then Live else Null)\<rparr>"
  have made: "initialize_process w r \<lparr>machine_of = ?c, ledger = (\<lambda>_. Null)\<rparr> = Inr ((), p)"
    using u(1,4) by (simp add: initialize_process_def prog_simps acquire_all p_def user_count_def cong: if_cong)
  let ?t = "u\<lparr>ticks := ticks u + 1\<rparr>"
  define rest where "rest = (\<lambda>start_time ratio. bind (on_machine (get_timestamp w)) (\<lambda>end_time.
     bind (on_machine (get_time_difference end_time start_time)) (\<lambda>runtime.
     bind (free_all_data_and_shut_down w) (\<lambda>_. return (Finished ratio runtime)))))"
  obtain ratio start_time where run: "process_run fuel (Suc (Suc j)) w a b r argv s =
      bind (on_machine (begin_system_test ?run)) (\<lambda>_. rest start_time ratio) (p\<lparr>machine_of := ?t\<rparr>)"
  proof
    show "process_run fuel (Suc (Suc j)) w a b r argv s =
      bind (on_machine (begin_system_test ?run)) (\<lambda>_. rest (QueryPerformanceCounter w (ticks u)) (physical_ratio (vm ?c)))
        (p\<lparr>machine_of := ?t\<rparr>)"
      using made by (simp add: process_run_def main_def rest_def prog_simps on_vm_def argv configured_def p_def)
  qed
  have t: "sys_inv ?t C {}" "0 < entries ?t" "user_count ?t = k" "vm ?t = vm u" using u granted by (simp_all add: p_def)
  have m: "awaited k = (if user_count ?t \<le> MAXIMUM_WAIT_OBJECTS then user_count ?t else 0)" using u(4) by (simp add: awaited_def)
  from system_test_run [OF t(1) b w t(2), of fuel j a, folded m] show ?thesis
  proof (elim disjE exE conjE)
    assume "begin_system_test ?run ?t = Inl SpinForever" "awaited k \<noteq> 0"
    then show ?thesis unfolding run by (simp add: prog_simps)
  next
    fix v vas
    assume test: "begin_system_test ?run ?t = Inr ((), v)" and len: "length vas = awaited k * unat (iterations (vm ?t))"
      and vas: "\<forall>x \<in> set vas. word_address (vm ?t) x" and st: "stored ?t (map (store_at (vm ?t)) vas) v"
    obtain C' where C': "sys_inv v C' {}" "vm v = vm u" "user_count v = k" using st t by (auto simp: stored_def)
    let ?p = "p\<lparr>machine_of := v\<lparr>ticks := ticks v + 1\<rparr>\<rparr>"
    have inv: "sys_inv (machine_of ?p) C' {}" "k = user_count (machine_of ?p)" using C' by simp_all
    have live: "\<forall>x \<in> insert UserThreadInfo (given_back k). ledger ?p x = Live"
      by (auto simp: p_def given_back_def initial_resources_def resource_defs)
    obtain m where m: "free_all_data_and_shut_down w ?p =
        Inr ((), dropped (given_back k) (?p\<lparr>machine_of := (machine_of ?p)\<lparr>va_map := m\<rparr>\<rparr>))"
      "\<forall>i < entries (machine_of ?p). m (va_of (vm (machine_of ?p)) i) = None"
      using free_all_run [OF inv(1) w(1) inv(2) live] by blast
    let ?u = "dropped (given_back k) (?p\<lparr>machine_of := (machine_of ?p)\<lparr>va_map := m\<rparr>\<rparr>)"
    obtain seconds where ended: "process_run fuel (Suc (Suc j)) w a b r argv s = Inr (Finished ratio seconds, ?u)"
      using test m(1) by (simp add: run rest_def prog_simps get_time_difference_def)
    have "virtual_page u = (\<lambda>_. zero_page)"
      using u(6) by (simp add: virtual_page_def content_def paging_of_def page_states_def fun_eq_iff)
    then have zero: "virtual_page ?t = (\<lambda>_. zero_page)" by (simp add: virtual_page_def fun_eq_iff)
    have "virtual_page (machine_of ?u) = virtual_page v" by (simp add: virtual_page_def fun_eq_iff)
    also have "\<dots> = fold flat_store (map (store_at (vm u)) vas) (\<lambda>_. zero_page)" using st zero by (simp add: stored_def)
    also have "map (store_at (vm u)) vas = stores_at base vas" using u(5) by (simp add: stores_at_def store_at_def pte_of_va_def)
    finally have content: "virtual_page (machine_of ?u) = fold flat_store (stores_at base vas) (\<lambda>_. zero_page)" .
    have inside: "\<forall>x \<in> set vas. base \<le> x \<and> unat x < unat base + ?n * 4096"
      using vas word_address_region u(3,5) by (fastforce simp: in_va_region_def entries_def)
    have "entries v = ?n" "application_va_base (vm v) = base" using u(3,5) C'(2) by (simp_all add: entries_def)
    then have unmapped: "\<forall>i < ?n. va_map (machine_of ?u) (base + of_nat i * PAGE_SIZE) = None"
      using m(2) by (simp add: va_of_def)
    have freed: "ledger ?u ApplicationRegion = Dangling" by (simp add: given_back_def)
    have "length vas = awaited k * n" using len u(7) by simp
    then show ?thesis using ended content inside unmapped freed by (intro disjI2 exI conjI)
  qed
qed

section \<open>Properties\<close>

text \<open>
  C21: the arguments of the program are read as they are written.  A number below 2^31 in decimal notation
  becomes that count; one from 2^31 on is cut to 2^31 - 1, and a negative one becomes a number of pages
  or iterations just below 2^64.
\<close>

theorem arguments_roundtrip:
  assumes "k < 2 ^ 31" and "n < 2 ^ 31" and "2 ^ 31 \<le> big" and "neg \<le> 2 ^ 31" and "0 < neg"
  shows "let v = read_arguments [name, decimal k, decimal n, decimal big, CHR ''-'' # decimal neg] v0 in
     unat (num_user_threads v) = k \<and> unat (iterations v) = n \<and> unat (allocated_frame_count v) = 2 ^ 31 - 1 \<and>
     unat (pages_in_page_file v) = 2 ^ 64 - neg"
proof -
  have "unat (- of_nat neg :: u64) = 2 ^ 64 - neg"
  proof -
    have "(- of_nat neg :: u64) = of_nat (2 ^ 64 - neg)" using assms(4) by (simp add: of_nat_diff)
    then show ?thesis using assms(5) by (simp only: unat_of_nat) simp
  qed
  moreover have "unat (2 ^ 31 - 1 :: u64) = 2 ^ 31 - 1" by simp
  moreover have "unat (of_nat n :: u64) = n" "unat (of_nat k :: u32) = k" using assms(1,2) by (simp_all add: unat_of_nat)
  moreover note argument_value(1) [OF assms(1)] argument_value(2) [OF assms(2)] argument_value(3) [OF assms(3)]
    argument_value(4) [OF assms(4)]
  ultimately show ?thesis by (simp only: read_arguments_def Let_def) simp
qed

lemma digit_chars:
  "char_of (48 :: nat) = CHR ''0''" "char_of (49 :: nat) = CHR ''1''" "char_of (50 :: nat) = CHR ''2''"
  "char_of (52 :: nat) = CHR ''4''" "char_of (54 :: nat) = CHR ''6''" "char_of (55 :: nat) = CHR ''7''"
  "char_of (56 :: nat) = CHR ''8''" "char_of (57 :: nat) = CHR ''9''"
  by code_simp+

lemma arguments_roundtrip_witness:
  "let v = read_arguments [''MemoryManager'', ''8'', ''1000000'', ''4294967296'', ''-1''] zero_vm in
     unat (num_user_threads v) = 8 \<and> unat (iterations v) = 1000000 \<and> unat (allocated_frame_count v) = 2147483647 \<and>
     unat (pages_in_page_file v) = 18446744073709551615"
proof -
  have "decimal 8 = ''8''" "decimal 1000000 = ''1000000''" "decimal 4294967296 = ''4294967296''" "decimal 1 = ''1''"
    by (simp_all add: decimal.simps [of 8] decimal.simps [of 1000000] decimal.simps [of 4294967296] decimal.simps [of 1] decimal.simps digit_chars)
  then show ?thesis using arguments_roundtrip [of 8 1000000 4294967296 1 "''MemoryManager''" zero_vm] by simp
qed


definition small_process :: process where
  "small_process = \<lparr>machine_of = small_system, ledger = (\<lambda>x. if x \<in> set (initial_resources (user_count small_system)) then Live else Null)\<rparr>"




text \<open>The command lines of the witnesses: five frames, 64 slots, two accesses.\<close>

lemma small_well_started:
  assumes "k < 2 ^ 31"
  shows "well_started small_start small_grants [1, 2, 3] 65536 k 2 5 1 [''mm'', decimal k, ''2'', ''5'', ''64'']"
    and "span (configured [''mm'', decimal k, ''2'', ''5'', ''64''] small_start) [1, 2, 3] = 60"
proof -
  let ?argv = "[''mm'', decimal k, ''2'', ''5'', ''64'']"
  have d: "''2'' = decimal 2" "''5'' = decimal 5" "''64'' = decimal 64" by code_simp+
  let ?c = "configured ?argv small_start"
  have vm: "num_user_threads (vm ?c) = of_nat k" "iterations (vm ?c) = 2" "allocated_frame_count (vm ?c) = 5"
    "pages_in_page_file (vm ?c) = 64"
    using argument_value(1) [OF assms] argument_value(2) [of 2] argument_value(2) [of 5] argument_value(2) [of 64]
    by (simp_all add: configured_def read_arguments_def d)
  show span: "span ?c [1, 2, 3] = 60"
    using small_span by (simp add: span_def vm) (simp add: small_start_def)
  have "4096 dvd unat (65536 :: u64)" "4096 dvd unat (0x10000000 :: u64)" "4096 dvd unat (0x20000000 :: u64)" by simp_all
  then have "spaces_granted ?c small_grants 65536 60"
    by (simp add: spaces_granted_def small_grants_def region_apart_def)
  moreover have "frames_granted ?c small_grants [1, 2, 3]"
    by (simp add: frames_granted_def vm) (simp add: small_grants_def GetPrivilege_def CreateSharedMemorySection_def)
  ultimately show "well_started small_start small_grants [1, 2, 3] 65536 k 2 5 1 ?argv"
    using assms small_granted(3,4) span by (simp add: well_started_def d)
qed

lemma small_os_main: "keeps_main (others small_os)"
  by (simp add: small_os_def keeps_events_def prog_simps)



end
