(* ===== verification/Prune_Refinement.thy ===== *)
theory Prune_Refinement
  imports Batch Pruner Small_System
begin

text \<open>
  The pruner: a batch of standby pages is taken from its owners and dealt out to the free lists that are
  marked low.  The code leaves the descriptors of these pages as they were, standby and with their old
  owner, and unlocks them before they are on a list again.  \<open>pending M L s\<close> is the machine as the invariant
  wants to see it: the descriptors of \<open>M\<close> free, those of \<open>L\<close>, which are on no list, locked.
\<close>

section \<open>Pages whose status is pending\<close>

definition pending :: "u64 set \<Rightarrow> u64 set \<Rightarrow> machine \<Rightarrow> machine" where
  "pending M L s = s\<lparr>pfns := on_cells (FramePfn ` L) locked_pfn (on_cells (FramePfn ` M) set_PFN_free (pfns s))\<rparr>"

lemma pending_fields [simp]:
  "entries (pending M L s) = entries s" "frames (pending M L s) = frames s" "user_count (pending M L s) = user_count s"
  "vm (pending M L s) = vm s" "pf (pending M L s) = pf s" "va_map (pending M L s) = va_map s"
  "ram (pending M L s) = ram s" "ptes (pending M L s) = ptes s" "lists (pending M L s) = lists s"
  "heads (pending M L s) = heads s" "free_lists (pending M L s) = free_lists s" "users (pending M L s) = users s"
  "committed (pending M L s) = committed s" "pte_to_trim (pending M L s) = pte_to_trim s"
  "core_lists (pending M L s) = core_lists s"
  "pfn_ok (pending M L s) p = pfn_ok s p" "pte_ok (pending M L s) i = pte_ok s i"
  by (simp_all add: pending_def core_lists_def pte_ok_def)

lemma pending_links [simp]:
  "flink (pfns (pending M L s) p) = flink (pfns s p)" "blink (pfns (pending M L s) p) = blink (pfns s p)"
  "linked (pfns (pending M L s)) xs = linked (pfns s) xs"
  by (simp_all add: pending_def) (simp_all add: on_cells_def)

lemma pending_lists [simp]:
  "wf_list (pending M L s) l xs = wf_list s l xs" "temp_ok (pending M L s) l fs = temp_ok s l fs"
  "list_free (pending M L s) l = list_free s l"
proof -
  show "wf_list (pending M L s) l xs = wf_list s l xs" for xs by (simp add: wf_list_def) (simp add: pending_def)
  then show "temp_ok (pending M L s) l fs = temp_ok s l fs" by (simp add: temp_ok_def)
qed (simp add: list_free_def)

lemma lock_pending:
  "lock_of (pfns (pending M L s) p) = (if p \<in> FramePfn ` L then 1 else lock_of (pfns s p))"
  by (simp add: pending_def on_cells_def)

lemma pending_unlocked: "unlocked_pfns (pending M L s) X \<Longrightarrow> unlocked_pfns s X"
  by (auto simp: unlocked_pfns_def pfn_free_def lock_pending split: if_splits)

lemma status_pending: "fstatus (book_of (pending M L s)) f = (if f \<in> M then PFN_FREE else fstatus (book_of s) f)"
  by (auto simp: book_of_def pending_def on_cells_def image_frame_iff)

lemma pending_none [simp]: "pending {} {} s = s"
  by (simp add: pending_def)

text \<open>Links are rewritten in the same way.\<close>

lemma free_links:
  "flink_update g (set_PFN_free q) = set_PFN_free (flink_update g q)"
  "blink_update g (set_PFN_free q) = set_PFN_free (blink_update g q)"
  by (simp_all add: set_PFN_free_def lock_of_def)

lemma set_link_free:
  "set_flink p q (on_cells X set_PFN_free m) = on_cells X set_PFN_free (set_flink p q m)"
  "set_blink p q (on_cells X set_PFN_free m) = on_cells X set_PFN_free (set_blink p q m)"
  by (auto simp: on_cells_def fun_eq_iff free_links)

lemma rewrites_pending:
  "pending M L (s\<lparr>pfns := append_page h p (pfns s)\<rparr>) =
     (pending M L s)\<lparr>pfns := append_page h p (pfns (pending M L s))\<rparr>"
  "append_list h a b (on_cells X set_PFN_free m) = on_cells X set_PFN_free (append_list h a b m)"
  by (simp_all add: pending_def rewrites_semaphore append_page_def append_list_def set_link_free on_cells_apply
      set_link_semaphore)


section \<open>The pages leave their owners\<close>

definition to_disk :: "nat \<Rightarrow> u64 \<Rightarrow> machine \<Rightarrow> machine" where
  "to_disk j f s = s\<lparr>ptes := (ptes s)(j := (ptes s j)\<lparr>entire_pte :=
     map_pte_to_disk (slot_of (pfns s (FramePfn f))) (entire_pte (ptes s j))\<rparr>)\<rparr>"

lemma disown_sys:
  assumes inv: "sys_inv s C K" and f: "f \<in> K" and st: "fstatus (book_of s) f = PFN_STANDBY" and maps: "maps_ok s {}"
    and own: "fowner (book_of s) f = Some j" "j < entries s" "frame_at (view (book_of s) j) = Some f"
  defines "u \<equiv> (to_disk j f s)\<lparr>pfns := on_cell (FramePfn f) set_PFN_free (pfns s)\<rparr>"
  shows "sys_inv u C K" and "managed s u" and "maps_ok u {}"
proof -
  let ?d = "fslot (book_of s) f"
  note inv' = sys_invD [OF inv]
  have fields: "entries u = entries s" "frames u = frames s" "user_count u = user_count s" "vm u = vm s" "pf u = pf s"
    "va_map u = va_map s" "ram u = ram s" "lists u = lists s" "heads u = heads s" "free_lists u = free_lists s"
    "users u = users s" "committed u = committed s" "pte_to_trim u = pte_to_trim s" "pfn_ok u p = pfn_ok s p" for p
    by (simp_all add: u_def to_disk_def)
  have "unat (slot_of q) < 2 ^ 40" for q using slot_fits [of q] by (simp only: take_bit_less_iff)
  then have b: "book_of u = book_disown j f (book_of s)"
    by (auto simp: book_of_def u_def to_disk_def book_disown_def change_def sane_map_to_disk on_cells_def fun_eq_iff)
  note dis = book_disown [OF inv'(2) own(2,3) Diff_subset]
  have states: "page_states u = (page_states s)(j := OnDisk ?d)" using dis(2) by (simp add: page_states_def b fields)
  have "entry_ok (frames s) K (book_of s) j" using inv'(2) own(2) by (simp add: book_ok_def)
  then have old: "page_states s j = Standby f ?d"
    using own st by (auto simp: page_states_def entry_state_def entry_ok_def split: pte_view.splits)
  have paging: "paging_of u = (paging_of s)\<lparr>state := (state (paging_of s))(j := OnDisk ?d)\<rparr>"
    by (simp add: paging_of_def states fields)
  have step: "manager_step (paging_of s) (paging_of u)"
    unfolding paging using old by (intro take_standby [where f = f]) (simp add: page_states_state)
  then show "managed s u" by (intro managed_step) (simp_all add: fields)
  show maps': "maps_ok u {}" using maps old by (auto simp: maps_ok_def states fields)
  have "fstatus (book_of u) g = fstatus (book_of s) g" if "g \<notin> K" for g
    using that f by (auto simp: b book_disown_def change_def)
  then have "{g \<in> frames s - K. fstatus (book_of u) g = x} = {g \<in> frames s - K. fstatus (book_of s) g = x}" for x by auto
  moreover have "cache u = cache s" by (simp add: cache_def fields fun_eq_iff)
  ultimately have "members_ok u C K"
    using inv'(6) by (simp add: members_ok_def pool_def caches_ok_def listed_def cached_by_def fields)
  moreover have "lists_ok u C"
    using inv'(5) by (subst lists_ok_cong [of _ s]) (simp_all add: fields u_def to_disk_def on_cells_def)
  moreover have "locks_ok u K"
    using inv'(7) by (auto simp: locks_ok_def pfn_held_def pfn_free_def pte_free_def u_def to_disk_def on_cells_def)
  moreover have "maps_ok u K" using maps' by (simp add: maps_ok_def)
  moreover have "users_ok u" using inv'(9) users_okD by (intro users_ok_change [OF inv'(9)]) (simp_all add: fields)
  moreover have "slots_ok u"
  proof -
    have "slot_held (page_states u k) = slot_held (page_states s k)" for k using old by (simp add: states)
    then show ?thesis using inv'(4) by (simp add: slots_ok_def fields)
  qed
  ultimately show "sys_inv u C K"
    using inv'(1) dis(1) manager_step_inv [OF step inv'(3)] by (simp add: sys_inv_def frames_ok_def b fields)
qed

lemma pending_disown:
  assumes "f \<notin> D" and "lock_of (pfns s (FramePfn f)) = 1"
  shows "pending (insert f D) (insert f D) ((to_disk j f s)\<lparr>pfns := on_cell (FramePfn f) unlocked_pfn (pfns s)\<rparr>) =
    (to_disk j f (pending D D s))\<lparr>pfns := on_cell (FramePfn f) set_PFN_free (pfns (pending D D s))\<rparr>"
  using assms locked_self [of "pfns s (FramePfn f)"]
  by (auto simp: pending_def to_disk_def on_cells_def image_frame_iff fun_eq_iff semaphore_changes intro!: machine.equality)

lemma disown_pages_run:
  assumes "sys_inv (pending D D s) C (D \<union> set fs)" and "maps_ok (pending D D s) {}" and "distinct fs" and "D \<inter> set fs = {}"
    and "\<forall>f \<in> set fs. fstatus (book_of s) f = PFN_STANDBY" and "linked (pfns s) (map FramePfn fs)"
    and "fs \<noteq> [] \<Longrightarrow> p = FramePfn (hd fs)"
  shows "\<exists>pt u. disown_pages (length fs) p s = Inr ((), u) \<and>
     u = s\<lparr>ptes := pt, pfns := on_cells (FramePfn ` set fs) unlocked_pfn (pfns s)\<rparr> \<and>
     sys_inv (pending (D \<union> set fs) (D \<union> set fs) u) C (D \<union> set fs) \<and> maps_ok (pending (D \<union> set fs) (D \<union> set fs) u) {} \<and>
     managed (pending D D s) (pending (D \<union> set fs) (D \<union> set fs) u)"
  using assms
proof (induction fs arbitrary: D s p)
  case Nil
  then show ?case by (intro exI [of _ "ptes s"] exI [of _ s]) (simp add: prog_simps managed_refl)
next
  case (Cons f fs)
  let ?X = "pending D D s" and ?p = "FramePfn f"
  have p: "p = ?p" and D: "f \<notin> D" "f \<notin> set fs" "insert f D \<inter> set fs = {}" using Cons.prems by auto
  note inv' = sys_invD [OF Cons.prems(1)]
  have st: "fstatus (book_of ?X) f = PFN_STANDBY" using Cons.prems(5) D(1) by (simp add: status_pending)
  have K: "f \<in> D \<union> set (f # fs)" by simp
  have fcom: "f \<in> frames s" using locks_okD(5) [OF inv'(7)] by auto
  then obtain j where j: "j < entries ?X" "fowner (book_of ?X) f = Some j" "frame_at (view (book_of ?X) j) = Some f"
    using book_ok_frame [OF inv'(2), of f] st by auto
  have cell: "pfns ?X ?p = pfns s ?p" using D(1) by (simp add: pending_def on_cells_def image_frame_iff)
  have ok: "pfn_ok s ?p" using fcom by (simp add: pfn_ok_def frames_def)
  have held: "lock_of (pfns s ?p) = 1" using locks_okD(2) [OF inv'(7) K] by (simp add: cell)
  have own: "PTE (pfns s ?p) = Some j" "pte_ok s j"
    using j by (simp_all add: book_of_def pte_ok_def entries_def cell)
  let ?u = "(to_disk j f s)\<lparr>pfns := on_cell ?p unlocked_pfn (pfns s)\<rparr>"
  have loop: "disown_pages (length (f # fs)) p s = disown_pages (length fs) (flink (pfns s ?p)) ?u"
    using ok own held by (simp add: p prog_simps unlock_pfn_run pfn_held_def to_disk_def)
  note dis = disown_sys [OF Cons.prems(1) K st Cons.prems(2) j(2,1,3), folded pending_disown [OF D(1) held]]
  have eq: "D \<union> set (f # fs) = insert f D \<union> set fs" by auto
  have "\<exists>pt v. disown_pages (length fs) (flink (pfns s ?p)) ?u = Inr ((), v) \<and>
     v = ?u\<lparr>ptes := pt, pfns := on_cells (FramePfn ` set fs) unlocked_pfn (pfns ?u)\<rparr> \<and>
     sys_inv (pending (insert f D \<union> set fs) (insert f D \<union> set fs) v) C (insert f D \<union> set fs) \<and>
     maps_ok (pending (insert f D \<union> set fs) (insert f D \<union> set fs) v) {} \<and>
     managed (pending (insert f D) (insert f D) ?u) (pending (insert f D \<union> set fs) (insert f D \<union> set fs) v)"
  proof (rule Cons.IH)
    show "sys_inv (pending (insert f D) (insert f D) ?u) C (insert f D \<union> set fs)" using dis(1) unfolding eq .
    show "maps_ok (pending (insert f D) (insert f D) ?u) {}" by (rule dis(3))
    show "\<forall>g \<in> set fs. fstatus (book_of ?u) g = PFN_STANDBY"
      using Cons.prems(5) by (auto simp: book_of_def to_disk_def on_cells_def)
    show "linked (pfns ?u) (map FramePfn fs)" using Cons.prems(6) by (cases fs) simp_all
    show "fs \<noteq> [] \<Longrightarrow> flink (pfns s ?p) = FramePfn (hd fs)" using Cons.prems(6) by (cases fs) auto
  qed (use Cons.prems(3) D in auto)
  then obtain pt v where v: "disown_pages (length fs) (flink (pfns s ?p)) ?u = Inr ((), v)"
    "v = ?u\<lparr>ptes := pt, pfns := on_cells (FramePfn ` set fs) unlocked_pfn (pfns ?u)\<rparr>"
    "sys_inv (pending (D \<union> set (f # fs)) (D \<union> set (f # fs)) v) C (D \<union> set (f # fs))"
    "maps_ok (pending (D \<union> set (f # fs)) (D \<union> set (f # fs)) v) {}"
    "managed (pending (insert f D) (insert f D) ?u) (pending (D \<union> set (f # fs)) (D \<union> set (f # fs)) v)"
    unfolding eq by blast
  have "v = s\<lparr>ptes := pt, pfns := on_cells (FramePfn ` set (f # fs)) unlocked_pfn (pfns s)\<rparr>"
    using D(2) on_cells_union [of "FramePfn ` set fs" "{?p}" unlocked_pfn "pfns s"]
    by (simp add: v(2) to_disk_def image_frame_iff)
  then show ?case using v dis(2) loop managed_trans by (intro exI [of _ pt] exI [of _ v]) auto
qed


section \<open>The pages are dealt out\<close>

lemma on_cells_new_head:
  "on_cells (FramePfn ` X) g (m(HeadPfn n := q)) = (on_cells (FramePfn ` X) g m)(HeadPfn n := q)"
  by (auto simp: on_cells_def fun_eq_iff)

lemma pending_temp:
  assumes inv: "sys_inv (pending M L s) C K" and maps: "maps_ok (pending M L s) {}"
  shows "\<exists>t. initialize_page_list (temp_list j) s = Inr ((), t) \<and> sys_inv (pending M L t) C K \<and>
    maps_ok (pending M L t) {} \<and> temp_ok t (temp_list j) [] \<and> managed (pending M L s) (pending M L t) \<and>
    free_lists t = free_lists s \<and> (\<forall>f. pfns t (FramePfn f) = pfns s (FramePfn f))"
proof -
  let ?h = "HeadPfn (heads s)"
  let ?t = "s\<lparr>heads := heads s + 1, pfns := (pfns s)(?h := zero_pfn\<lparr>blink := ?h, flink := ?h\<rparr>), lists := (lists s)
    (temp_list j := \<lparr>head = ?h, list_size = 0, shared_holders = 0, held_exclusive = False\<rparr>)\<rparr>"
  have run: "initialize_page_list (temp_list j) (pending M L s) = Inr ((), pending M L ?t)"
    unfolding initialize_page_list_run by (simp add: pending_def on_cells_new_head)
  have t: "initialize_page_list (temp_list j) s = Inr ((), ?t)" by (rule initialize_page_list_run)
  obtain u where u: "initialize_page_list (temp_list j) (pending M L s) = Inr ((), u)" "sys_inv u C K"
    "temp_ok u (temp_list j) []" "paging_of u = paging_of (pending M L s)" "vm u = vm (pending M L s)"
    "committed u = committed (pending M L s)" "page_states u = page_states (pending M L s)"
    "va_map u = va_map (pending M L s)" "pte_to_trim u = pte_to_trim (pending M L s)"
    using new_temp [OF inv, of j] by blast
  have eq: "u = pending M L ?t" using u(1) run by simp
  have "maps_ok u {}" using maps u(5,7,8) by (simp add: maps_ok_def entries_def)
  moreover have "managed (pending M L s) u" using u(4,5,6,9) by (intro managed_same) simp_all
  ultimately show ?thesis using t u(2,3) unfolding eq by (intro exI [of _ ?t]) simp
qed

lemma frames_linked:
  "(\<And>f. f \<in> set fs \<Longrightarrow> m' (FramePfn f) = m (FramePfn f)) \<Longrightarrow> linked m' (map FramePfn fs) = linked m (map FramePfn fs)"
  by (rule linked_cong) auto

lemma move_to_temp_run:
  assumes "sys_inv (pending M L s) C K" and "temp_ok s l as" and "set as \<union> set gs \<subseteq> K"
    and "distinct (gs @ hs)" and "set (gs @ hs) \<inter> set as = {}" and "linked (pfns s) (map FramePfn (gs @ hs))"
    and "gs @ hs \<noteq> [] \<Longrightarrow> p = FramePfn (hd (gs @ hs))"
  shows "\<exists>m q. move_to_temp l (length gs) p s = Inr (q, s\<lparr>pfns := m\<rparr>) \<and> sys_inv (pending M L (s\<lparr>pfns := m\<rparr>)) C K \<and>
    temp_ok (s\<lparr>pfns := m\<rparr>) l (as @ gs) \<and> same_data (pfns s) m \<and> linked m (map FramePfn hs) \<and>
    (hs \<noteq> [] \<longrightarrow> q = FramePfn (hd hs)) \<and> paging_of (pending M L (s\<lparr>pfns := m\<rparr>)) = paging_of (pending M L s)"
  using assms
proof (induction gs arbitrary: as s p)
  case Nil
  then show ?case by (intro exI [of _ "pfns s"] exI [of _ p]) (simp add: prog_simps same_data_def)
next
  case (Cons g gs)
  let ?m = "append_page (head (lists s l)) (FramePfn g) (pfns s)"
  let ?t = "s\<lparr>pfns := ?m\<rparr>"
  have p: "p = FramePfn g" and g: "g \<in> K" "g \<notin> set as" "set as \<subseteq> K" using Cons.prems by auto
  have tmp: "temp_ok (pending M L s) l as" using Cons.prems(2) by simp
  have eq: "pending M L ?t = (pending M L s)\<lparr>pfns := append_page (head (lists (pending M L s) l)) (FramePfn g)
      (pfns (pending M L s))\<rparr>" by (simp add: rewrites_pending(1))
  note ins = temp_insert [OF Cons.prems(1) tmp g(3,1,2), folded eq]
  have step: "sys_inv (pending M L ?t) C K" "temp_ok ?t l (as @ [g])" "paging_of (pending M L ?t) = paging_of (pending M L s)"
    using ins(2,3,5) by simp_all
  have wf: "wf_list s l (map FramePfn as)" using Cons.prems(2) by (simp add: temp_ok_def)
  have ok: "pfn_ok s (FramePfn g)" using locks_okD(1) [OF sys_invD(7) [OF Cons.prems(1)] g(1)] by simp
  have run: "insert_to_list_tail l (FramePfn g) s = Inr ((), ?t)"
    using insert_to_list_tail_run [of s l "FramePfn g"] wf_list_head [OF wf] wf_list_ends(2) [OF wf] ok
      dll_ends(2) [OF wf_list_dll [OF wf]] by simp
  have loop: "move_to_temp l (length (g # gs)) p s = move_to_temp l (length gs) (flink (pfns s (FramePfn g))) ?t"
    using ok run by (simp add: p prog_simps)
  have rest: "linked ?m (map FramePfn (gs @ hs))"
  proof -
    obtain k where k: "head (lists s l) = HeadPfn k" using Cons.prems(2) by (auto simp: temp_ok_def)
    have "?m q = pfns s q" if "q \<in> set (map FramePfn (gs @ hs))" for q
      using that Cons.prems(4,5) k by (intro append_page_other [OF wf_list_dll [OF wf]]) auto
    then have "linked ?m (map FramePfn (gs @ hs)) = linked (pfns s) (map FramePfn (gs @ hs))"
      by (intro linked_cong) simp
    then show ?thesis using Cons.prems(6) by (cases "gs @ hs") simp_all
  qed
  have "\<exists>m q. move_to_temp l (length gs) (flink (pfns s (FramePfn g))) ?t = Inr (q, ?t\<lparr>pfns := m\<rparr>) \<and>
    sys_inv (pending M L (?t\<lparr>pfns := m\<rparr>)) C K \<and> temp_ok (?t\<lparr>pfns := m\<rparr>) l ((as @ [g]) @ gs) \<and>
    same_data (pfns ?t) m \<and> linked m (map FramePfn hs) \<and> (hs \<noteq> [] \<longrightarrow> q = FramePfn (hd hs)) \<and>
    paging_of (pending M L (?t\<lparr>pfns := m\<rparr>)) = paging_of (pending M L ?t)"
  proof (rule Cons.IH [OF step(1,2)])
    show "linked (pfns ?t) (map FramePfn (gs @ hs))" using rest by simp
    show "flink (pfns s (FramePfn g)) = FramePfn (hd (gs @ hs))" if "gs @ hs \<noteq> []"
      using Cons.prems(6) that by (cases "gs @ hs") auto
  qed (use Cons.prems(3,4,5) in auto)
  then obtain m q where m: "move_to_temp l (length gs) (flink (pfns s (FramePfn g))) ?t = Inr (q, s\<lparr>pfns := m\<rparr>)"
    "sys_inv (pending M L (s\<lparr>pfns := m\<rparr>)) C K" "temp_ok (s\<lparr>pfns := m\<rparr>) l (as @ g # gs)"
    "same_data ?m m" "linked m (map FramePfn hs)" "hs \<noteq> [] \<longrightarrow> q = FramePfn (hd hs)"
    "paging_of (pending M L (s\<lparr>pfns := m\<rparr>)) = paging_of (pending M L ?t)" by auto
  have "same_data (pfns s) m" using same_data_links(2) [of "pfns s" "head (lists s l)" "FramePfn g"] m(4)
    by (simp add: same_data_def)
  then show ?case unfolding loop using m step(3) by (intro exI [of _ m] exI [of _ q]) simp
qed

text \<open>One share reaches its list.\<close>

definition appended :: "list_id \<Rightarrow> u64 list \<Rightarrow> machine \<Rightarrow> machine" where
  "appended l fs s = s\<lparr>pfns := append_list (head (lists s l)) (FramePfn (hd fs)) (FramePfn (last fs)) (pfns s),
     lists := resize l (of_nat (length fs)) (lists s)\<rparr>"

lemma published_pending:
  assumes "set fs \<subseteq> L" and "\<forall>f \<in> set fs. lock_of (pfns s (FramePfn f)) = 0"
  shows "published l k fs (pending M L s) = pending M (L - set fs) (appended l fs s)"
proof -
  let ?P = "append_list (head (lists s l)) (FramePfn (hd fs)) (FramePfn (last fs)) (pfns s)"
  define Q where "Q = on_cells (FramePfn ` M) set_PFN_free ?P"
  have "lock_of (Q (FramePfn f)) = 0" if "f \<in> set fs" for f
    using assms(2) that same_dataD(3) [OF same_data_links(4) [of "pfns s"]] by (simp add: Q_def on_cells_def)
  then have "on_cells (FramePfn ` set fs) unlocked_pfn (on_cells (FramePfn ` L) locked_pfn Q) =
      on_cells (FramePfn ` (L - set fs)) locked_pfn Q"
    using assms(1) by (auto simp: on_cells_def image_frame_iff fun_eq_iff unlocked_self)
  then show ?thesis by (simp add: published_def pending_def appended_def rewrites_semaphore rewrites_pending Q_def)
qed

lemma feed_run:
  assumes inv: "sys_inv (pending M L s) C L" and maps: "maps_ok (pending M L s) {}"
    and fs: "set fs \<subseteq> L" "L \<subseteq> M" "fs \<noteq> []" "distinct fs" "\<forall>f \<in> set fs. lock_of (pfns s (FramePfn f)) = 0"
    and temp: "temp_ok s k fs" and i: "i < unat (number_of_lists (free_lists s))"
  shows "\<exists>m. insert_list_to_tail_list (free_list i) k s = Inr ((), s\<lparr>pfns := pfns (appended (free_list i) fs s), spin := m\<rparr>)"
    and "sys_inv (pending M (L - set fs) (appended (free_list i) fs s))
       (C(free_list i := C (free_list i) @ map FramePfn fs)) (L - set fs)"
    and "maps_ok (pending M (L - set fs) (appended (free_list i) fs s)) {}"
    and "managed (pending M L s) (pending M (L - set fs) (appended (free_list i) fs s))"
    and "g \<in> L - set fs \<Longrightarrow> pfns (appended (free_list i) fs s) (FramePfn g) = pfns s (FramePfn g)"
proof -
  let ?l = "free_list i"
  have core: "?l \<in> core_lists (pending M L s)" using i by (simp add: core_lists_def)
  have tmp: "temp_ok (pending M L s) k fs" using temp by simp
  have st: "\<forall>f \<in> set fs. fstatus (book_of (pending M L s)) f = home_status ?l"
    using fs(1,2) by (auto simp: status_pending)
  note ok = sys_invD(5) [OF inv]
  note apart = publish_apart [OF inv fs(1) tmp fs(3) core]
  have wf: "wf_list s ?l (C ?l)" and free: "list_free s ?l" using core_wf [OF ok core] core_free [OF ok core] by simp_all
  have locks: "unlocked_pfns s (set (head (lists s ?l) # C ?l))" using pending_unlocked [OF apart(2)] by simp
  have ys: "wf_list s k (map FramePfn fs)" "map FramePfn fs \<noteq> []" using temp fs(3) by (simp_all add: temp_ok_def)
  show "\<exists>m. insert_list_to_tail_list ?l k s = Inr ((), s\<lparr>pfns := pfns (appended ?l fs s), spin := m\<rparr>)"
    using insert_list_to_tail_list_run [OF wf free locks ys] apart(1) fs(3) by (simp add: appended_def hd_map last_map)
  note pub = publish_sys [OF inv fs(1) tmp fs(3,4) core st maps, unfolded published_pending [OF fs(1,5)]]
  show "sys_inv (pending M (L - set fs) (appended ?l fs s)) (C(?l := C ?l @ map FramePfn fs)) (L - set fs)" by (rule pub(1))
  show "managed (pending M L s) (pending M (L - set fs) (appended ?l fs s))"
    using pub(2) by (intro managed_same) (simp_all add: appended_def)
  show "pfns (appended ?l fs s) (FramePfn g) = pfns s (FramePfn g)" if "g \<in> L - set fs"
  proof -
    have "FramePfn g \<notin> set (C ?l)" using held_unlisted [OF inv _ core, of g] that by simp
    moreover obtain n where "head (lists s ?l) = HeadPfn n" using core_head [OF ok core] by auto
    moreover have "FramePfn (hd fs) \<noteq> FramePfn g" "FramePfn (last fs) \<noteq> FramePfn g" using fs(3) that by auto
    ultimately have "FramePfn g \<notin> set (FramePfn (hd fs) # FramePfn (last fs) # head (lists s ?l) # C ?l)" by auto
    from append_list_other [OF wf_list_dll [OF wf] this] show ?thesis by (simp add: appended_def)
  qed
  have "page_states (pending M (L - set fs) (appended ?l fs s)) = page_states (pending M L s)"
    using pub(2) by (metis page_states_state)
  then show "maps_ok (pending M (L - set fs) (appended ?l fs s)) {}"
    using maps by (simp add: maps_ok_def) (simp add: appended_def entries_def)
qed

text \<open>All of them.\<close>

lemma pending_spin [simp]: "pending M L (s\<lparr>spin := m\<rparr>) = (pending M L s)\<lparr>spin := m\<rparr>"
  by (simp add: pending_def)

definition portion :: "nat \<Rightarrow> nat \<Rightarrow> nat list \<Rightarrow> nat" where
  "portion batch num_lists rest = batch div num_lists + (if rest = [] then batch mod num_lists else 0)"

primrec dealt :: "nat \<Rightarrow> nat \<Rightarrow> nat list \<Rightarrow> u64 list \<Rightarrow> (list_id \<Rightarrow> pfn_ptr list) \<Rightarrow> list_id \<Rightarrow> pfn_ptr list" where
  "dealt b n [] fs C = C"
| "dealt b n (i # rest) fs C = dealt b n rest (drop (portion b n rest) fs)
     (C(free_list i := C (free_list i) @ map FramePfn (take (portion b n rest) fs)))"

primrec portions :: "nat \<Rightarrow> nat \<Rightarrow> nat list \<Rightarrow> nat" where
  "portions b n [] = 0"
| "portions b n (i # rest) = portion b n rest + portions b n rest"

lemma fill_step:
  "fill_low_lists b n (i # rest) current =
     bind (initialize_page_list (temp_list PRUNING_THREAD_ID)) (\<lambda>_.
     if portion b n rest = 0 then fill_low_lists b n rest current
     else bind (move_to_temp (temp_list PRUNING_THREAD_ID) (portion b n rest) current) (\<lambda>next_page.
       bind (insert_list_to_tail_list (free_list i) (temp_list PRUNING_THREAD_ID)) (\<lambda>_.
       bind (change_list_size (free_list i) (of_nat (portion b n rest))) (\<lambda>_. fill_low_lists b n rest next_page))))"
  by (simp only: fill_low_lists.simps Let_def portion_def)

lemma fill_run:
  assumes "sys_inv (pending M (set fs) s) C (set fs)" and "maps_ok (pending M (set fs) s) {}" and "set fs \<subseteq> M"
    and "distinct fs" and "\<forall>f \<in> set fs. lock_of (pfns s (FramePfn f)) = 0" and "linked (pfns s) (map FramePfn fs)"
    and "\<forall>i \<in> set is. i < unat (number_of_lists (free_lists s))" and "length fs = portions b n is"
    and "fs \<noteq> [] \<Longrightarrow> p = FramePfn (hd fs)"
  shows "\<exists>u. fill_low_lists b n is p s = Inr ((), u) \<and> sys_inv (pending M {} u) (dealt b n is fs C) {} \<and>
     managed (pending M (set fs) s) (pending M {} u) \<and> free_lists u = free_lists s \<and>
     (\<forall>f. status_of (pfns u (FramePfn f)) = status_of (pfns s (FramePfn f)))"
  using assms
proof (induction "is" arbitrary: fs s C p)
  case Nil
  then show ?case by (intro exI [of _ s]) (simp add: prog_simps managed_refl)
next
  case (Cons i rest)
  let ?l = "temp_list PRUNING_THREAD_ID" and ?k = "portion b n rest"
  let ?gs = "take ?k fs" and ?hs = "drop ?k fs"
  obtain t where t: "initialize_page_list ?l s = Inr ((), t)" "sys_inv (pending M (set fs) t) C (set fs)"
    "maps_ok (pending M (set fs) t) {}" "temp_ok t ?l []" "managed (pending M (set fs) s) (pending M (set fs) t)"
    "free_lists t = free_lists s" "\<forall>f. pfns t (FramePfn f) = pfns s (FramePfn f)"
    using pending_temp [OF Cons.prems(1,2)] by blast
  have links: "linked (pfns t) (map FramePfn fs)"
    using Cons.prems(6) t(7) frames_linked [of fs "pfns t" "pfns s"] by simp
  show ?case
  proof (cases "?k = 0")
    case True
    have "\<exists>u. fill_low_lists b n rest p t = Inr ((), u) \<and> sys_inv (pending M {} u) (dealt b n rest fs C) {} \<and>
       managed (pending M (set fs) t) (pending M {} u) \<and> free_lists u = free_lists t \<and>
       (\<forall>f. status_of (pfns u (FramePfn f)) = status_of (pfns t (FramePfn f)))"
      using Cons.prems True links t by (intro Cons.IH) auto
    then obtain u where u: "fill_low_lists b n rest p t = Inr ((), u)" "sys_inv (pending M {} u) (dealt b n rest fs C) {}"
      "managed (pending M (set fs) t) (pending M {} u)" "free_lists u = free_lists s"
      "\<forall>f. status_of (pfns u (FramePfn f)) = status_of (pfns s (FramePfn f))" using t(6,7) by auto
    have "fill_low_lists b n (i # rest) p s = Inr ((), u)"
      unfolding fill_step using t(1) u(1) True by (simp add: prog_simps)
    then show ?thesis using u True managed_trans [OF t(5) u(3)] by (intro exI [of _ u]) simp
  next
    case False
    have k: "?k \<le> length fs" using Cons.prems(8) by simp
    then have len: "length ?gs = ?k" and ne: "?gs \<noteq> []" using False by (auto simp: min_def)
    have sets: "set fs = set ?gs \<union> set ?hs" "set ?gs \<inter> set ?hs = {}" "distinct ?gs" "distinct ?hs"
      using set_take_disj_set_drop_if_distinct [OF Cons.prems(4), of ?k ?k] Cons.prems(4)
      by (auto simp flip: set_append)
    have sub: "set [] \<union> set ?gs \<subseteq> set fs" by (auto dest: in_set_takeD)
    have "\<exists>m q. move_to_temp ?l (length ?gs) p t = Inr (q, t\<lparr>pfns := m\<rparr>) \<and>
      sys_inv (pending M (set fs) (t\<lparr>pfns := m\<rparr>)) C (set fs) \<and> temp_ok (t\<lparr>pfns := m\<rparr>) ?l ([] @ ?gs) \<and>
      same_data (pfns t) m \<and> linked m (map FramePfn ?hs) \<and> (?hs \<noteq> [] \<longrightarrow> q = FramePfn (hd ?hs)) \<and>
      paging_of (pending M (set fs) (t\<lparr>pfns := m\<rparr>)) = paging_of (pending M (set fs) t)"
      using Cons.prems(4,9) links by (intro move_to_temp_run [OF t(2,4) sub]) simp_all
    then obtain m q where m: "move_to_temp ?l ?k p t = Inr (q, t\<lparr>pfns := m\<rparr>)"
      "sys_inv (pending M (set fs) (t\<lparr>pfns := m\<rparr>)) C (set fs)" "temp_ok (t\<lparr>pfns := m\<rparr>) ?l ?gs"
      "same_data (pfns t) m" "linked m (map FramePfn ?hs)" "?hs \<noteq> [] \<Longrightarrow> q = FramePfn (hd ?hs)"
      "paging_of (pending M (set fs) (t\<lparr>pfns := m\<rparr>)) = paging_of (pending M (set fs) t)"
      unfolding len by auto
    let ?t = "t\<lparr>pfns := m\<rparr>"
    have "page_states (pending M (set fs) ?t) = page_states (pending M (set fs) t)" using m(7) by (metis page_states_state)
    then have maps: "maps_ok (pending M (set fs) ?t) {}" using t(3) by (simp add: maps_ok_def)
    have lock: "\<forall>f \<in> set fs. lock_of (pfns ?t (FramePfn f)) = 0"
      using Cons.prems(5) t(7) same_dataD(3) [OF m(4)] by simp
    have gs: "set ?gs \<subseteq> set fs" "\<forall>f \<in> set ?gs. lock_of (pfns ?t (FramePfn f)) = 0" using sub lock by auto
    have i: "i < unat (number_of_lists (free_lists ?t))" using Cons.prems(7) t(6) by simp
    note feed = feed_run [OF m(2) maps gs(1) Cons.prems(3) ne sets(3) gs(2) m(3) i]
    let ?a = "appended (free_list i) ?gs ?t" and ?C = "C(free_list i := C (free_list i) @ map FramePfn ?gs)"
    obtain x where x: "insert_list_to_tail_list (free_list i) ?l ?t = Inr ((), ?t\<lparr>pfns := pfns ?a, spin := x\<rparr>)"
      using feed(1) by blast
    let ?b = "?a\<lparr>spin := x\<rparr>"
    have size: "change_list_size (free_list i) (of_nat ?k) (?t\<lparr>pfns := pfns ?a, spin := x\<rparr>) = Inr ((), ?b)"
      using len by (simp add: prog_simps appended_def)
    have L: "set fs - set ?gs = set ?hs" using sets by auto
    have same: "pfns ?b (FramePfn f) = m (FramePfn f)" if "f \<in> set ?hs" for f
      using feed(5) [of f] that unfolding L by simp
    have "\<exists>u. fill_low_lists b n rest q ?b = Inr ((), u) \<and> sys_inv (pending M {} u) (dealt b n rest ?hs ?C) {} \<and>
       managed (pending M (set ?hs) ?b) (pending M {} u) \<and> free_lists u = free_lists ?b \<and>
       (\<forall>f. status_of (pfns u (FramePfn f)) = status_of (pfns ?b (FramePfn f)))"
    proof (rule Cons.IH)
      show "sys_inv (pending M (set ?hs) ?b) ?C (set ?hs)" "maps_ok (pending M (set ?hs) ?b) {}"
        using feed(2,3) unfolding L by (simp_all add: maps_ok_def page_states_def)
      show "linked (pfns ?b) (map FramePfn ?hs)"
        using m(5) same frames_linked [of ?hs "pfns ?b" m] by simp
      show "\<forall>f \<in> set ?hs. lock_of (pfns ?b (FramePfn f)) = 0" using lock same sets(1) by auto
      show "\<forall>j \<in> set rest. j < unat (number_of_lists (free_lists ?b))"
        using Cons.prems(7) t(6) by (simp add: appended_def)
    qed (use Cons.prems(3,8) sets m(6) in auto)
    then obtain u where u: "fill_low_lists b n rest q ?b = Inr ((), u)" "sys_inv (pending M {} u) (dealt b n rest ?hs ?C) {}"
       "managed (pending M (set ?hs) ?b) (pending M {} u)" "free_lists u = free_lists s"
       "\<forall>f. status_of (pfns u (FramePfn f)) = status_of (pfns ?b (FramePfn f))"
      using t(6) by (auto simp: appended_def)
    have "fill_low_lists b n (i # rest) p s = Inr ((), u)"
      unfolding fill_step bind_def using t(1) m(1) x size u(1) False by simp
    moreover have "managed (pending M (set fs) s) (pending M {} u)"
    proof -
      have "managed (pending M (set fs) t) (pending M (set fs) ?t)" using m(7) by (intro managed_same) simp_all
      moreover have "managed (pending M (set fs) ?t) (pending M (set ?hs) ?b)"
        using feed(4) unfolding L by (auto simp: managed_def)
      ultimately show ?thesis using t(5) u(3) managed_trans by blast
    qed
    moreover have "status_of (pfns ?b p) = status_of (m p)" for p
      using same_dataD(1) [OF same_data_links(4)] by (simp add: appended_def)
    then have "\<forall>f. status_of (pfns u (FramePfn f)) = status_of (pfns s (FramePfn f))"
      using u(5) t(7) same_dataD(1) [OF m(4)] by simp
    ultimately show ?thesis using u(2,4) by (intro exI [of _ u]) simp
  qed
qed


section \<open>A round of the pruner\<close>

text \<open>The invariant looks at the number and the locks of the free lists only.\<close>

lemma sys_inv_free_lists:
  assumes "number_of_lists g = number_of_lists (free_lists s)" and "free_list_locks g = free_list_locks (free_lists s)"
  shows "sys_inv (s\<lparr>free_lists := g\<rparr>) C K = sys_inv s C K"
proof -
  let ?t = "s\<lparr>free_lists := g\<rparr>"
  have ok: "pfn_ok ?t p = pfn_ok s p" for p by (simp add: pfn_ok_def split: pfn_ptr.split)
  have "lists_ok ?t C = lists_ok s C" using assms by (intro lists_ok_cong) (simp_all add: ok)
  moreover have c: "cache ?t = cache s" by (simp add: cache_def fun_eq_iff)
  have "members_ok ?t C K = members_ok s C K"
    using assms by (simp add: members_ok_def pool_def caches_ok_def listed_def cached_by_def c)
  ultimately show ?thesis
    by (simp add: sys_inv_def frames_ok_def slots_ok_def locks_ok_def maps_ok_def users_ok_def kernel_va_def
        pfn_free_def pfn_held_def pte_free_def ok page_states_def)
qed

lemma pending_free_lists [simp]: "pending M L (s\<lparr>free_lists := g\<rparr>) = (pending M L s)\<lparr>free_lists := g\<rparr>"
  "pending M L (s\<lparr>events := ev\<rparr>) = (pending M L s)\<lparr>events := ev\<rparr>"
  by (simp_all add: pending_def)

lemma clear_bits_run:
  assumes "distinct is" and "\<forall>i \<in> set is. i < 64 \<and> bit (low_list_bitmap (free_lists s)) i"
  shows "\<exists>b. for_each is (\<lambda>i. clear_free_list_bit (of_nat i)) s =
       Inr ((), s\<lparr>free_lists := (free_lists s)\<lparr>low_list_bitmap := b\<rparr>\<rparr>) \<and>
     (\<forall>i < 64. bit b i = (bit (low_list_bitmap (free_lists s)) i \<and> i \<notin> set is))"
  using assms
proof (induction "is" arbitrary: s)
  case Nil
  then show ?case by (intro exI [of _ "low_list_bitmap (free_lists s)"]) (simp add: prog_simps)
next
  case (Cons i rest)
  let ?b = "low_list_bitmap (free_lists s)"
  let ?b1 = "?b AND NOT (push_bit i 1)"
  let ?t = "s\<lparr>free_lists := (free_lists s)\<lparr>low_list_bitmap := ?b1\<rparr>\<rparr>"
  have i: "i < 64" "bit ?b i" using Cons.prems(2) by simp_all
  then have "unat (of_nat i :: u32) = i" by (simp add: unat_of_nat)
  then have step: "clear_free_list_bit (of_nat i) s = Inr ((), ?t)"
    using i by (simp add: clear_free_list_bit_def prog_simps)
  have bits: "bit ?b1 k = (bit ?b k \<and> k \<noteq> i)" if "k < 64" for k
    using that by (auto simp: bit_simps)
  have "\<exists>b. for_each rest (\<lambda>i. clear_free_list_bit (of_nat i)) ?t =
       Inr ((), ?t\<lparr>free_lists := (free_lists ?t)\<lparr>low_list_bitmap := b\<rparr>\<rparr>) \<and>
     (\<forall>i < 64. bit b i = (bit (low_list_bitmap (free_lists ?t)) i \<and> i \<notin> set rest))"
    using Cons.prems bits by (intro Cons.IH) auto
  then obtain b where b: "for_each rest (\<lambda>i. clear_free_list_bit (of_nat i)) ?t =
       Inr ((), s\<lparr>free_lists := (free_lists s)\<lparr>low_list_bitmap := b\<rparr>\<rparr>)"
    "\<forall>i < 64. bit b i = (bit ?b1 i \<and> i \<notin> set rest)" by auto
  then show ?case using step bits by (intro exI [of _ b]) (auto simp: prog_simps)
qed

text \<open>Nothing that is pending is in transition, so the states of the pages do not depend on it.\<close>

lemma pending_states:
  assumes "sys_inv (pending M L s) C K"
  shows "page_states (pending M L s) = page_states s" and "paging_of (pending M L s) = paging_of s"
proof -
  note ok = sys_invD(2) [OF assms]
  have view: "view (book_of (pending M L s)) = view (book_of s)" by (simp add: book_of_def)
  have slot: "fslot (book_of (pending M L s)) f = fslot (book_of s) f" if "f \<notin> M" for f
    using that by (auto simp: book_of_def pending_def on_cells_def image_frame_iff)
  have "entries s \<le> i" if "view (book_of s) i = TransitionView f" "f \<in> M" for i f
    using book_ok_owner [OF ok, of i f] that by (auto simp: view status_pending split: if_splits intro: leI)
  then show st: "page_states (pending M L s) = page_states s"
    by (auto simp: page_states_def entry_state_def view status_pending slot fun_eq_iff split: pte_view.split)
  show "paging_of (pending M L s) = paging_of s" by (simp add: paging_of_def st)
qed

lemma low_lists_facts:
  "distinct (low_lists b)" "i \<in> set (low_lists b) \<longleftrightarrow> i < 16 \<and> bit b i"
  by (auto simp: low_lists_def FREE_LIST_COUNT_def)

text \<open>The batch is off the standby list, its owners are on disk, the marks are cleared.\<close>

lemma prune_start:
  assumes inv: "sys_inv s C {}" and some: "C standby_list \<noteq> []"
  shows "\<exists>k fs u. 0 < k \<and> k \<le> 256 \<and> take k (C standby_list) = map FramePfn fs \<and> length fs = k \<and>
     low_lists (low_list_bitmap (free_lists u)) = [] \<and> number_of_lists (free_lists u) = number_of_lists (free_lists s) \<and>
     prune_pages s = (let lows = low_lists (low_list_bitmap (free_lists s)) in
       if lows = [] then Inr (0, u)
       else block_return [fill_low_lists k (length lows) lows (FramePfn (hd fs)),
              increase_free_lists_total_count (of_nat k)] (of_nat k) u) \<and>
     sys_inv (pending (set fs) (set fs) u) (C(standby_list := drop k (C standby_list))) (set fs) \<and>
     maps_ok (pending (set fs) (set fs) u) {} \<and> managed s (pending (set fs) (set fs) u) \<and> distinct fs \<and>
     linked (pfns u) (map FramePfn fs) \<and>
     (\<forall>f \<in> set fs. lock_of (pfns u (FramePfn f)) = 0 \<and> status_of (pfns u (FramePfn f)) = PFN_STANDBY)"
proof -
  let ?l = standby_list let ?xs = "C ?l"
  note inv' = sys_invD [OF inv]
  have core: "?l \<in> core_lists s" by simp
  have cap: "unat MAX_PRUNE_BATCH_SIZE = 256" by (simp add: MAX_PRUNE_BATCH_SIZE_def)
  from remove_batch_from_list_head_run [OF core_wf [OF inv'(5) core] core_free [OF inv'(5) core]
      locks_apart [OF inv core] _ core_short [OF inv'(5) core], of MAX_PRUNE_BATCH_SIZE]
  obtain m k where k: "0 < k" "k \<le> length ?xs" "k \<le> 256"
    and run: "remove_batch_from_list_head ?l MAX_PRUNE_BATCH_SIZE s =
      Inr ((of_nat k, hd ?xs), (batch_removed ?l ?xs k s)\<lparr>spin := m\<rparr>)"
    unfolding cap using some by auto
  have "\<forall>p \<in> set (take k ?xs). frame_page p" using core_frame [OF inv'(5) core] by (auto dest: in_set_takeD)
  then obtain fs where fs: "take k ?xs = map FramePfn fs" using frame_list by blast
  have len: "length fs = k" using k(2) arg_cong [OF fs, of length] by simp
  have ne: "fs \<noteq> []" and hd: "hd ?xs = FramePfn (hd fs)"
    using len k(1) some arg_cong [OF fs, of hd] by (auto simp: hd_map)
  note removed = batch_removed_sys [OF inv _ k(2) fs]
  obtain ev where ev: "signal_event_if_list_is_about_to_run_low ?l initiate_writing_event WRITING_THREAD_ID
      LOW_PAGE_THRESHOLD ((batch_removed ?l ?xs k s)\<lparr>spin := m\<rparr>) =
      Inr ((), (batch_removed ?l ?xs k s)\<lparr>spin := m, events := ev\<rparr>)" using signal_run by blast
  let ?v = "(batch_removed ?l ?xs k s)\<lparr>spin := m, events := ev\<rparr>"
  have mv: "managed s ?v" using removed(2) by (intro managed_same) (simp_all add: batch_removed_def Let_def)
  have "\<exists>pt u. disown_pages (length fs) (hd ?xs) ?v = Inr ((), u) \<and>
     u = ?v\<lparr>ptes := pt, pfns := on_cells (FramePfn ` set fs) unlocked_pfn (pfns ?v)\<rparr> \<and>
     sys_inv (pending ({} \<union> set fs) ({} \<union> set fs) u) (C(?l := drop k ?xs)) ({} \<union> set fs) \<and>
     maps_ok (pending ({} \<union> set fs) ({} \<union> set fs) u) {} \<and>
     managed (pending {} {} ?v) (pending ({} \<union> set fs) ({} \<union> set fs) u)"
  proof (rule disown_pages_run)
    show "maps_ok (pending {} {} ?v) {}" using removed(3) by (simp add: maps_ok_def page_states_def)
  qed (use removed hd in simp_all)
  then obtain pt u where u: "disown_pages k (hd ?xs) ?v = Inr ((), u)"
    "u = ?v\<lparr>ptes := pt, pfns := on_cells (FramePfn ` set fs) unlocked_pfn (pfns ?v)\<rparr>"
    "sys_inv (pending (set fs) (set fs) u) (C(?l := drop k ?xs)) (set fs)" "maps_ok (pending (set fs) (set fs) u) {}"
    "managed ?v (pending (set fs) (set fs) u)" by (auto simp: len)
  have fl: "free_lists u = free_lists s" by (simp add: u(2) batch_removed_def Let_def)
  let ?lows = "low_lists (low_list_bitmap (free_lists s))"
  have "\<forall>i \<in> set ?lows. i < 64 \<and> bit (low_list_bitmap (free_lists u)) i" by (auto simp: low_lists_facts fl)
  from clear_bits_run [OF low_lists_facts(1) this] obtain b where
    b: "for_each ?lows (\<lambda>i. clear_free_list_bit (of_nat i)) u = Inr ((), u\<lparr>free_lists := (free_lists s)\<lparr>low_list_bitmap := b\<rparr>\<rparr>)"
    "\<forall>i < 64. bit b i = (bit (low_list_bitmap (free_lists s)) i \<and> i \<notin> set ?lows)" by (auto simp: fl)
  let ?u = "u\<lparr>free_lists := (free_lists s)\<lparr>low_list_bitmap := b\<rparr>\<rparr>"
  have none: "low_lists b = []"
    using b(2) low_lists_facts(2) [where b = "low_list_bitmap (free_lists s)"] by (auto simp: low_lists_def FREE_LIST_COUNT_def)
  have "unat (of_nat k :: u64) = k" using k(3) by (simp add: unat_of_nat)
  then have batch: "unat (ucast (of_nat k :: u64) :: u16) = k" using k(3) by (simp add: unsigned_ucast_eq take_bit_nat_eq_self)
  have "prune_pages s = (let lows = ?lows in if lows = [] then Inr (0, ?u)
       else block_return [fill_low_lists k (length lows) lows (FramePfn (hd fs)),
              increase_free_lists_total_count (of_nat k)] (of_nat k) ?u)"
    using run ev u(1) b(1) k(1) unfolding prune_pages_def bind_def Let_def
    by (simp add: batch gets_def return_def fl hd)
  moreover have "sys_inv (pending (set fs) (set fs) ?u) (C(?l := drop k ?xs)) (set fs)"
    using u(3) by (simp add: sys_inv_free_lists fl)
  moreover have "maps_ok (pending (set fs) (set fs) ?u) {}" using u(4) by (simp add: maps_ok_def page_states_def)
  moreover have "managed s (pending (set fs) (set fs) ?u)"
    using managed_trans [OF mv u(5)] by (simp add: managed_def)
  moreover have "linked (pfns ?u) (map FramePfn fs)" using removed(5) by (simp add: u(2))
  moreover have "\<forall>f \<in> set fs. lock_of (pfns ?u (FramePfn f)) = 0 \<and> status_of (pfns ?u (FramePfn f)) = PFN_STANDBY"
    using removed(4) by (auto simp: u(2) on_cells_def book_of_def)
  ultimately show ?thesis using k(1,3) fs len none removed(6)
    by (intro exI [of _ k] exI [of _ fs] exI [of _ ?u]) simp
qed


text \<open>What the dealing amounts to.\<close>

lemma dealt_other: "l \<notin> free_list ` set is \<Longrightarrow> dealt b n is fs C l = C l"
  by (induction "is" arbitrary: fs C) auto

lemma dealt_share:
  "distinct is \<Longrightarrow> j < length is \<Longrightarrow> dealt b n is fs C (free_list (is ! j)) =
     C (free_list (is ! j)) @ map FramePfn
       (take (b div n + (if j = length is - 1 then b mod n else 0)) (drop (j * (b div n)) fs))"
proof (induction "is" arbitrary: fs C j)
  case (Cons i rest)
  show ?case
  proof (cases j)
    case 0
    moreover have "free_list i \<notin> free_list ` set rest" using Cons.prems by auto
    ultimately show ?thesis by (simp add: dealt_other portion_def)
  next
    case (Suc m)
    then have m: "m < length rest" "rest ! m \<noteq> i" using Cons.prems by auto
    then have "portion b n rest = b div n" by (auto simp: portion_def)
    then show ?thesis using Cons.IH [of m] Cons.prems(1) m Suc by (auto simp: add.commute)
  qed
qed simp

lemma portions_total: "is \<noteq> [] \<Longrightarrow> portions b (length is) is = b"
proof -
  have "is \<noteq> [] \<Longrightarrow> portions b n is = length is * (b div n) + b mod n" for n and "is" :: "nat list"
  proof (induction "is")
    case (Cons i rest)
    then show ?case by (cases "rest = []") (simp_all add: portion_def)
  qed simp
  then show "is \<noteq> [] \<Longrightarrow> portions b (length is) is = b" by simp
qed


section \<open>Properties\<close>

text \<open>
  C32: a round of the pruner feeds the low lists.  A batch of at most 256 pages leaves the front of the
  standby list, is dealt out in order and in equal parts to the free lists that are marked low, the last
  of which also takes the rest, and the marks are cleared; no content changes.  The invariant holds but
  for the descriptors of these pages, which still say standby: it holds once they are set free, which
  \<open>prune_pages\<close> forgets.
\<close>

theorem pruning_feeds_low_lists:
  assumes "sys_inv s C {}" and "C standby_list \<noteq> []" and "low_lists (low_list_bitmap (free_lists s)) = lows" and "lows \<noteq> []"
    and "\<forall>i \<in> set lows. i < unat (number_of_lists (free_lists s))"
  shows "\<exists>k fs u C'. prune_pages s = Inr (of_nat k, u) \<and> 0 < k \<and> k \<le> 256 \<and> take k (C standby_list) = map FramePfn fs \<and> length fs = k \<and>
     sys_inv (pending (set fs) {} u) C' {} \<and> (\<forall>f \<in> set fs. status_of (pfns u (FramePfn f)) = PFN_STANDBY) \<and>
     C' standby_list = drop k (C standby_list) \<and>
     (\<forall>j < length lows. C' (free_list (lows ! j)) = C (free_list (lows ! j)) @ map FramePfn
        (take (k div length lows + (if j = length lows - 1 then k mod length lows else 0)) (drop (j * (k div length lows)) fs))) \<and>
     (\<forall>l. l \<noteq> standby_list \<longrightarrow> l \<notin> free_list ` set lows \<longrightarrow> C' l = C l) \<and>
     low_lists (low_list_bitmap (free_lists u)) = [] \<and> virtual_page u = virtual_page s"
proof -
  let ?C = "\<lambda>k. C(standby_list := drop k (C standby_list))"
  note start = prune_start [OF assms(1,2), unfolded assms(3) Let_def if_not_P [OF assms(4)]]
  from start obtain k fs t where t: "0 < k" "k \<le> 256" "take k (C standby_list) = map FramePfn fs" "length fs = k"
    "low_lists (low_list_bitmap (free_lists t)) = []" "number_of_lists (free_lists t) = number_of_lists (free_lists s)"
    "prune_pages s = block_return [fill_low_lists k (length lows) lows (FramePfn (hd fs)),
       increase_free_lists_total_count (of_nat k)] (of_nat k) t"
    "sys_inv (pending (set fs) (set fs) t) (?C k) (set fs)" "maps_ok (pending (set fs) (set fs) t) {}"
    "managed s (pending (set fs) (set fs) t)" "distinct fs" "linked (pfns t) (map FramePfn fs)"
    "\<forall>f \<in> set fs. lock_of (pfns t (FramePfn f)) = 0 \<and> status_of (pfns t (FramePfn f)) = PFN_STANDBY"
    by blast
  have "\<exists>u. fill_low_lists k (length lows) lows (FramePfn (hd fs)) t = Inr ((), u) \<and>
     sys_inv (pending (set fs) {} u) (dealt k (length lows) lows fs (?C k)) {} \<and>
     managed (pending (set fs) (set fs) t) (pending (set fs) {} u) \<and> free_lists u = free_lists t \<and>
     (\<forall>f. status_of (pfns u (FramePfn f)) = status_of (pfns t (FramePfn f)))"
    using t assms(4,5) by (intro fill_run) (simp_all add: portions_total)
  then obtain u where u: "fill_low_lists k (length lows) lows (FramePfn (hd fs)) t = Inr ((), u)"
    "sys_inv (pending (set fs) {} u) (dealt k (length lows) lows fs (?C k)) {}"
    "managed (pending (set fs) (set fs) t) (pending (set fs) {} u)" "free_lists u = free_lists t"
    "\<forall>f. status_of (pfns u (FramePfn f)) = status_of (pfns t (FramePfn f))" by blast
  let ?u = "u\<lparr>free_lists := (free_lists u)\<lparr>page_count := page_count (free_lists u) + of_nat k\<rparr>\<rparr>"
  have run: "prune_pages s = Inr (of_nat k, ?u)"
    unfolding t(7) by (simp add: prog_simps u(1) increase_free_lists_total_count_def)
  have inv: "sys_inv (pending (set fs) {} ?u) (dealt k (length lows) lows fs (?C k)) {}"
    using u(2) by (simp add: sys_inv_free_lists)
  have "virtual_page (pending (set fs) {} ?u) = virtual_page s"
    using managed_content [OF managed_trans [OF t(10) u(3)] sys_invD(3) [OF assms(1)]] by (simp add: virtual_page_def fun_eq_iff)
  then have content: "virtual_page ?u = virtual_page s"
    using pending_states(2) [OF inv] by (simp add: virtual_page_def fun_eq_iff)
  have "distinct lows" using low_lists_facts(1) assms(3) by blast
  note share = dealt_share [OF this, of _ k "length lows" fs "?C k"]
  have "dealt k (length lows) lows fs (?C k) standby_list = drop k (C standby_list)"
    by (subst dealt_other) auto
  then show ?thesis
    using run inv t(1-5,13) u(4,5) content share dealt_other [of _ lows k "length lows" fs "?C k"]
    by (intro exI [of _ k] exI [of _ fs] exI [of _ ?u] exI [of _ "dealt k (length lows) lows fs (?C k)"]) auto
qed

lemma pruning_feeds_low_lists_witness:
  "\<exists>u C'. prune_pages (small_system\<lparr>free_lists := (free_lists small_system)\<lparr>low_list_bitmap := 1\<rparr>\<rparr>) = Inr (1, u) \<and>
     C' standby_list = [] \<and> C' (free_list 0) = [FramePfn 5, FramePfn 2] \<and> sys_inv (pending {2} {} u) C' {} \<and>
     status_of (pfns u (FramePfn 2)) = PFN_STANDBY"
proof -
  let ?s = "small_system\<lparr>free_lists := (free_lists small_system)\<lparr>low_list_bitmap := 1\<rparr>\<rparr>"
  have inv: "sys_inv ?s small_pages {}" using small_system_ok by (simp add: sys_inv_free_lists)
  have pages: "small_pages standby_list = [FramePfn 2]" "small_pages (free_list 0) = [FramePfn 5]"
    by (simp_all add: small_pages_def)
  have low: "low_lists (low_list_bitmap (free_lists ?s)) = [0]"
    by (simp add: low_lists_def upt_rec bit_1_iff)
  have hyps: "small_pages standby_list \<noteq> []" "[0 :: nat] \<noteq> []" "\<forall>i \<in> set [0]. i < unat (number_of_lists (free_lists ?s))"
    by (simp_all add: pages)
  from pruning_feeds_low_lists [OF inv hyps(1) low hyps(2,3)] obtain k fs u C' where
    u: "prune_pages ?s = Inr (of_nat k, u)" "0 < k" "take k (small_pages standby_list) = map FramePfn fs" "length fs = k"
    "sys_inv (pending (set fs) {} u) C' {}" "\<forall>f \<in> set fs. status_of (pfns u (FramePfn f)) = PFN_STANDBY"
    "C' standby_list = drop k (small_pages standby_list)"
    "\<forall>j < length [0 :: nat]. C' (free_list ([0] ! j)) = small_pages (free_list ([0] ! j)) @ map FramePfn
        (take (k div length [0 :: nat] + (if j = length [0 :: nat] - 1 then k mod length [0 :: nat] else 0))
          (drop (j * (k div length [0 :: nat])) fs))"
    by blast
  have "fs = [2]" "k = 1" using u(2-4) by (cases k; auto simp: pages map_eq_Cons_conv)+
  then show ?thesis using u(1,5-8) by (intro exI [of _ u] exI [of _ C']) (simp add: pages)
qed

text \<open>
  C34: a round of the pruner with no free list marked low loses its batch.  The pages leave the standby
  list and their owners, and then nothing holds them: they are on no list, in no cache, and no page table
  entry refers to their frames.  The contents stay, in the page file; the frames are gone for good.
\<close>

theorem pruning_without_low_list_loses_pages:
  assumes "sys_inv s C {}" and "C standby_list \<noteq> []" and "low_lists (low_list_bitmap (free_lists s)) = []"
  shows "\<exists>k fs u. prune_pages s = Inr (0, u) \<and> 0 < k \<and> take k (C standby_list) = map FramePfn fs \<and> length fs = k \<and>
     (\<forall>l \<in> core_lists u. wf_list u l ((C(standby_list := drop k (C standby_list))) l)) \<and>
     (\<forall>f \<in> set fs. (\<forall>l \<in> core_lists u. FramePfn f \<notin> set ((C(standby_list := drop k (C standby_list))) l)) \<and>
        (\<forall>t < user_count u. FramePfn f \<notin> cached_by u t) \<and> (\<forall>i. frame_of (page_states u i) \<noteq> Some f)) \<and>
     virtual_page u = virtual_page s"
proof -
  from prune_start [OF assms(1,2), unfolded Let_def if_P [OF assms(3)]]
  obtain k fs u where u: "0 < k" "take k (C standby_list) = map FramePfn fs" "length fs = k" "prune_pages s = Inr (0, u)"
    "sys_inv (pending (set fs) (set fs) u) (C(standby_list := drop k (C standby_list))) (set fs)"
    "managed s (pending (set fs) (set fs) u)"
    by blast
  let ?C = "C(standby_list := drop k (C standby_list))" and ?p = "pending (set fs) (set fs) u"
  note inv' = sys_invD [OF u(5)]
  have "\<forall>l \<in> core_lists u. wf_list u l (?C l)" using core_wf [OF inv'(5)] by simp
  moreover have "FramePfn f \<notin> set (?C l)" if "f \<in> set fs" "l \<in> core_lists u" for f l
    using held_unlisted [OF u(5), of f l] that by simp
  moreover have "FramePfn f \<notin> cached_by u t" if "f \<in> set fs" "t < user_count u" for f t
  proof -
    have "FramePfn f \<notin> pool ?p ?C" using inv'(6) that(1) by (auto simp: members_ok_def)
    then show ?thesis using that(2) by (auto simp: pool_def cached_by_def cache_def)
  qed
  moreover have "frame_of (page_states u i) \<noteq> Some f" if "f \<in> set fs" for f i
  proof
    assume *: "frame_of (page_states u i) = Some f"
    then have i: "i < entries u" by (simp add: page_states_def entry_state_def split: if_splits)
    then have "frame_at (view (book_of u) i) = Some f" using * by (simp add: page_states_def frame_of_entry_state)
    then have "frame_at (view (book_of ?p) i) = Some f" by (simp add: book_of_def)
    then show False using book_ok_owner [OF inv'(2), of i f] i that by (simp add: status_pending)
  qed
  moreover have "virtual_page u = virtual_page s"
    using managed_content [OF u(6) sys_invD(3) [OF assms(1)]] pending_states(2) [OF u(5)] by (simp add: virtual_page_def fun_eq_iff)
  ultimately show ?thesis using u(1-4) by (intro exI [of _ k] exI [of _ fs] exI [of _ u]) blast
qed

lemma pruning_without_low_list_loses_pages_witness:
  "\<exists>u. prune_pages small_system = Inr (0, u) \<and> wf_list u standby_list [] \<and> (\<forall>i. frame_of (page_states u i) \<noteq> Some 2)"
proof -
  have "low_lists (low_list_bitmap (free_lists small_system)) = []" by (simp add: low_lists_def small_system_def)
  moreover have "small_pages standby_list \<noteq> []" by (simp add: small_pages_def)
  ultimately obtain k fs u where
    u: "prune_pages small_system = Inr (0, u)" "0 < k" "take k (small_pages standby_list) = map FramePfn fs"
    "\<forall>l \<in> core_lists u. wf_list u l ((small_pages(standby_list := drop k (small_pages standby_list))) l)"
    "\<forall>f \<in> set fs. \<forall>i. frame_of (page_states u i) \<noteq> Some f"
    using pruning_without_low_list_loses_pages [OF small_system_ok] by blast
  have "take k (small_pages standby_list) = [FramePfn 2]" "drop k (small_pages standby_list) = []"
    using u(2) by (cases k; simp add: small_pages_def)+
  moreover from this u(3) have "fs = [2]" by (auto simp: map_eq_Cons_conv)
  moreover have "wf_list u standby_list ((small_pages(standby_list := drop k (small_pages standby_list))) standby_list)"
    using u(4) by (rule bspec) simp
  ultimately show ?thesis using u(1,5) by (intro exI [of _ u]) simp
qed

end
