(* ===== verification/Races.thy ===== *)
theory Races
  imports Flat_Memory
begin

text \<open>
  A hard fault maps the frame at the address of the user before the frame is filled.  Between the two
  another thread of the user can already store to the page.
\<close>

lemma fill_page_overwrites:
  assumes "va_map s va = Some f" and "page_base va = va"
  shows "fill_page i va (s\<lparr>ram := (ram s)(f := c)\<rparr>) = fill_page i va s"
  using assms
  by (auto simp: fill_page_def write_page_def on_disk_def zoom_def bind_def Let_def read_pte_def gets_def modify_def
      return_def raise_def assert_that_def check_access_def block_def pte_ok_def split: sum.split prod.split option.split)

text \<open>The address a thread reads the page file through.\<close>

definition read_va :: "machine \<Rightarrow> nat \<Rightarrow> u64" where
  "read_va s t = kernel_va_space (users s t) + ucast (kernel_va_index (users s t)) * PAGE_SIZE"

text \<open>
  C33: a store between the mapping and the filling of a page is lost.  While a thread resolves a hard
  fault, a store of another thread to the same page, after \<open>map_both_va_to_same_page\<close> and before the
  content is there, does not fault and is reported as done; yet the page gets the content it had before
  the fault, whatever was stored, and the machine is the same as if the store had never been.
\<close>

theorem store_before_fill_is_lost:
  assumes "sys_inv s C {f}" and "f \<in> frames s" and "t < user_count s" and "awe_spec w" and "in_va_region (vm s) va"
    and "pte_of_va (vm s) va = i" and "page_states s i \<in> {Untouched, OnDisk d}"
  shows "\<exists>u. bind (map_for_hard_fault w t i (read_va s t) f) (\<lambda>_.
       bind (store_word va v) (\<lambda>stored. bind (fill_page i (read_va s t)) (\<lambda>_. return stored))) s = Inr (True, u) \<and>
     bind (map_for_hard_fault w t i (read_va s t) f) (\<lambda>_. fill_page i (read_va s t)) s = Inr ((), u) \<and>
     ram u f = virtual_page s i"
proof -
  note inv' = sys_invD [OF assms(1)]
  have i: "i < entries s" using pte_of_va_less [OF assms(5)] assms(6) by (simp add: entries_def)
  let ?k = "unat (kernel_va_index (users s t))" and ?kva = "read_va s t" and ?uva = "va_of (vm s) i"
  have k: "?k < 16" using users_okD(1) [OF inv'(9) assms(3)] by (simp add: word_less_nat_alt)
  have kva: "?kva = kernel_va_space (users s t) + of_nat ?k * PAGE_SIZE" by (simp add: read_va_def)
  note ka = kernel_address [OF inv'(9) assms(3) k, folded kva]
  have uva: "page_base va = ?uva" using page_base_va_of [OF _ assms(5)] inv'(1) assms(6) by (simp add: frames_ok_def)
  have pte: "pte_ok s i" using entry_facts [OF assms(1) i] by simp
  let ?s = "s\<lparr>va_map := (va_map s)(?kva := Some f, ?uva := Some f),
    users := (users s)(t := kernel_va_index_update (\<lambda>n. n + 1) (users s t))\<rparr>"
  have map: "map_for_hard_fault w t i ?kva f s = Inr ((), ?s)"
    using pte assms(4) by (simp add: map_for_hard_fault_def prog_simps get_VA_from_PTE_def pte_ok_def va_of_def map_both_run)
  have store: "store_word va v ?s = Inr (True, ?s\<lparr>ram := (ram ?s)(f := (ram s f)(word_index va := v))\<rparr>)"
    by (simp add: store_word_def prog_simps uva word_index_def)
  have at: "va_map ?s ?kva = Some f" "page_base ?kva = ?kva" using ka(1) by simp_all
  have st: "page_states ?s = page_states s" "paging_of ?s = paging_of s" "book_of ?s = book_of s"
    by (simp_all add: page_states_def paging_of_def)
  have "slots_ok ?s" using inv'(4) unfolding slots_ok_def st by simp
  moreover have view: "frame_at (view (book_of s) i) = None"
    using assms(7) i frame_of_entry_state [OF i, of "book_of s"] by (auto simp: page_states_def)
  moreover have "view (book_of s) i \<noteq> LimboView" using inv'(2) i by (auto simp: book_ok_def entry_ok_def)
  ultimately obtain d where fill: "fill_page i ?kva ?s = Inr ((), ?s\<lparr>ram := (ram ?s)(f := incoming ?s i), pf := d\<rparr>)"
    using fill_page_run [of ?s i ?kva f] pte at inv'(3) i unfolding st by auto
  have "incoming ?s i = virtual_page s i"
    using assms(7) unfolding incoming_def st
    by (auto simp: virtual_page_def content_def page_states_state) (simp_all add: paging_of_def)
  then show ?thesis
    using map store fill fill_page_overwrites [OF at] by (simp add: prog_simps)
qed

definition small_in_hand :: machine where
  "small_in_hand = (pop_cache 0 small_system)\<lparr>pfns := on_cell (FramePfn 4) locked_pfn (pfns small_system)\<rparr>"

lemma store_before_fill_is_lost_witness:
  "\<exists>u. bind (map_for_hard_fault small_os 0 3 (read_va small_in_hand 0) 4) (\<lambda>_.
       bind (store_word 77824 7) (\<lambda>stored. bind (fill_page 3 (read_va small_in_hand 0)) (\<lambda>_. return stored))) small_in_hand = Inr (True, u) \<and>
     ram u 4 = (\<lambda>_. 3)"
proof -
  have inv: "sys_inv small_in_hand small_pages {4}"
    using hand_out [OF small_system_ok, of 0] by (auto simp: small_in_hand_def small_user_def)
  have "book_of small_in_hand = book_of small_system" "entries small_in_hand = entries small_system"
    by (simp_all add: small_in_hand_def book_of_def on_cells_def fun_eq_iff)
  then have st: "page_states small_in_hand = page_states small_system" by (simp only: page_states_def)
  have fields: "vm small_in_hand = small_vm" "frames small_in_hand = frames small_system" "user_count small_in_hand = 1"
    by (simp_all add: small_in_hand_def)
  have "virtual_page small_in_hand 3 = (\<lambda>_. 3)"
    by (simp add: virtual_page_def content_def page_states_state st small_states)
      (simp add: paging_of_def small_in_hand_def small_system_disk)
  then show ?thesis
    using store_before_fill_is_lost [OF inv, of 0 small_os 77824 3 2 7] small_os_ok(1) small_va
    by (auto simp: fields st small_states)
qed

end
