(* ===== verification/Debug.thy ===== *)
theory Debug
  imports Page_Queue Ring_Buffer "HOL-Library.Signed_Division"
begin

text \<open>
  utils/debug.c and the debugging part of data_structures/page_list.c: the end of the process on a
  fatal error, the ring buffer of traces, the check of the counters of the free lists and the check of
  a page list.  All but \<open>fatal_error\<close> are compiled with \<open>DEBUG\<close> only.
\<close>

section \<open>Fatal errors\<close>

text \<open>The text that is printed comes from Windows; the process ends.\<close>

definition fatal_error :: "string option \<Rightarrow> 'a mm" where
  "fatal_error msg = raise (FatalError (case msg of None \<Rightarrow> ''system unexpectedly terminated'' | Some m \<Rightarrow> m))"


section \<open>Traces\<close>

definition MAX_STACK_FRAMES :: nat where [simp]: "MAX_STACK_FRAMES = 16"
definition TRACE_BUFFER_SIZE :: nat where [simp]: "TRACE_BUFFER_SIZE = 1024"
definition ACCEPTABLE_MISS :: u32 where [simp]: "ACCEPTABLE_MISS = 1000"

record trace_entry =
  trace_thread :: u32
  trace_time :: u64
  frame_count :: u16
  trace_slot :: u64
  trace_pte :: u64
  trace_pfn :: u64
  trace_frames :: "u64 list"

record trace_state =
  g_traceBuffer :: "nat \<Rightarrow> trace_entry"
  g_traceIndex :: u32

text \<open>
  What the calls of Windows return: the stack above the logging function, the thread and the time.
  \<open>RtlCaptureStackBackTrace\<close> stores at most \<open>MAX_STACK_FRAMES\<close> addresses and leaves the rest of the
  array as it was.
\<close>

record trace_call =
  call_stack :: "u64 list"
  call_thread :: u32
  call_time :: u64
  call_slot :: u64
  call_pfn :: u64
  call_pte :: u64

definition captured :: "trace_call \<Rightarrow> u64 list" where
  "captured c = take MAX_STACK_FRAMES (call_stack c)"

text \<open>The remainder of C takes the sign of the dividend, hence the correction.\<close>

definition trace_slot_of :: "u32 \<Rightarrow> int" where
  "trace_slot_of raw =
     (let idx = sint raw smod int TRACE_BUFFER_SIZE in if idx < 0 then idx + int TRACE_BUFFER_SIZE else idx)"

definition log_stack_trace :: "trace_call \<Rightarrow> trace_state \<Rightarrow> trace_state" where
  "log_stack_trace c t =
     (let raw = g_traceIndex t + 1;
          idx = nat (trace_slot_of raw);
          old = g_traceBuffer t idx;
          frames = captured c in
      t\<lparr>g_traceBuffer := (g_traceBuffer t)(idx :=
           \<lparr>trace_thread = call_thread c, trace_time = call_time c, frame_count = of_nat (length frames),
            trace_slot = call_slot c, trace_pte = call_pte c, trace_pfn = call_pfn c,
            trace_frames = frames @ drop (length frames) (trace_frames old)\<rparr>),
        g_traceIndex := raw\<rparr>)"

lemma corrected_remainder:
  "(if a smod 1024 < 0 then a smod 1024 + 1024 else a smod 1024) = a mod (1024 :: int)"
proof (cases "0 \<le> a")
  case True
  then have "a smod 1024 = a mod 1024" by (cases "a = 0") (simp_all add: signed_modulo_int_def sgn_if)
  then show ?thesis by simp
next
  case False
  then have "a smod 1024 = - ((- a) mod 1024)" by (simp add: signed_modulo_int_def sgn_if)
  moreover have "(- a) mod 1024 = (if a mod 1024 = 0 then 0 else 1024 - a mod 1024)" by (rule zmod_zminus1_eq_if)
  ultimately show ?thesis by (simp add: less_imp_le)
qed

text \<open>The index in use is the index read as an unsigned number, also when the signed one has wrapped.\<close>

lemma trace_slot_of_unsigned: "trace_slot_of raw = int (unat raw mod 1024)"
proof -
  have "trace_slot_of raw = sint raw mod 1024"
    by (simp only: trace_slot_of_def Let_def TRACE_BUFFER_SIZE_def of_nat_numeral corrected_remainder)
  also have "\<dots> = uint raw mod 1024"
  proof -
    have "take_bit 32 (signed_take_bit 31 (uint raw)) = take_bit 32 (uint raw)"
      by (simp only: take_bit_signed_take_bit)
    then have "sint raw mod 2 ^ 32 = uint raw mod 2 ^ 32"
      by (simp add: sint_uint take_bit_eq_mod)
    then have "sint raw mod 2 ^ 32 mod 1024 = uint raw mod 2 ^ 32 mod 1024" by simp
    then show ?thesis by (simp add: mod_mod_cancel)
  qed
  finally show ?thesis by (simp add: zmod_int)
qed

lemma log_stack_trace_run:
  "g_traceIndex (log_stack_trace c t) = g_traceIndex t + 1"
  "g_traceBuffer (log_stack_trace c t) k = (if k = unat (g_traceIndex t + 1) mod 1024
     then \<lparr>trace_thread = call_thread c, trace_time = call_time c, frame_count = of_nat (length (captured c)),
       trace_slot = call_slot c, trace_pte = call_pte c, trace_pfn = call_pfn c,
       trace_frames = captured c @ drop (length (captured c)) (trace_frames (g_traceBuffer t k))\<rparr>
     else g_traceBuffer t k)"
  by (simp_all add: log_stack_trace_def Let_def trace_slot_of_unsigned)

definition entry_of :: "trace_call \<Rightarrow> trace_entry \<Rightarrow> bool" where
  "entry_of c e \<longleftrightarrow> trace_thread e = call_thread c \<and> trace_time e = call_time c \<and> trace_slot e = call_slot c \<and>
     trace_pte e = call_pte c \<and> trace_pfn e = call_pfn c \<and> take (unat (frame_count e)) (trace_frames e) = captured c"

lemma logged_entry: "entry_of c (g_traceBuffer (log_stack_trace c t) (unat (g_traceIndex t + 1) mod 1024))"
proof -
  have "length (captured c) \<le> 16" by (simp add: captured_def)
  then have "unat (of_nat (length (captured c)) :: u16) = length (captured c)" by (simp add: unat_of_nat)
  then show ?thesis unfolding log_stack_trace_run entry_of_def by simp
qed

text \<open>The index is increased before it is used: the head is one further.\<close>

interpretation traces: ring_buffer log_stack_trace g_traceBuffer "\<lambda>t. unat (g_traceIndex t + 1) mod 1024" entry_of 1024
proof
  show "unat (g_traceIndex (log_stack_trace c t) + 1) mod 1024 = (unat (g_traceIndex t + 1) mod 1024 + 1) mod 1024" for c t
    using unat_add_mod [of 10 "g_traceIndex t + 1" 1] by (simp add: log_stack_trace_run mod_simps)
  show "entry_of c (g_traceBuffer (log_stack_trace c t) (unat (g_traceIndex t + 1) mod 1024))" for c t
    by (rule logged_entry)
qed (simp_all add: log_stack_trace_run)


section \<open>The counters of the free lists\<close>

text \<open>\<open>total_count\<close> and \<open>sum\<close> are of type \<open>ULONG\<close>, the counters they are made of of type \<open>ULONG64\<close>.\<close>

definition free_list_sum :: "machine \<Rightarrow> u32" where
  "free_list_sum s = fold (\<lambda>i sum. sum + ucast (list_size (lists s (free_list i)))) [0..<unat (number_of_lists (free_lists s))] 0"

definition validate_free_counts :: "unit mm" where
  "validate_free_counts =
     bind (gets (\<lambda>s. ucast (page_count (free_lists s)) :: u32)) (\<lambda>total_count.
     bind (gets free_list_sum) (\<lambda>sum.
     if sum = total_count then return ()
     else if total_count < sum then assert_that (sum - total_count < ACCEPTABLE_MISS)
     else assert_that (total_count - sum < ACCEPTABLE_MISS)))"


section \<open>The check of a page list\<close>

text \<open>Both directions of the walk test the links around the page they are at.\<close>

definition check_links :: "pfn_ptr \<Rightarrow> unit mm" where
  "check_links current_page =
     bind (bind (read_blink current_page) read_flink) (\<lambda>p.
     bind (assert_that (p = current_page)) (\<lambda>_.
     bind (bind (read_flink current_page) read_blink) (\<lambda>p.
     assert_that (p = current_page))))"

text \<open>
  \<open>left\<close> is \<open>MAX_EXPECTED_LENGTH\<close> less the length so far; the loops run while it is not zero.  The
  forward walk also tests that no other list is entered.  The result is the length.
\<close>

definition check_no_head :: "pfn_ptr \<Rightarrow> unit mm" where
  "check_no_head current_page =
     bind (gets (\<lambda>s. current_page \<noteq> head (lists s modified_list) \<and> current_page \<noteq> head (lists s standby_list) \<and>
       current_page \<noteq> head (lists s zero_list))) assert_that"

primrec validate_forward :: "nat \<Rightarrow> pfn_ptr \<Rightarrow> pfn_ptr \<Rightarrow> nat mm" where
  "validate_forward 0 h current_page = return 0"
| "validate_forward (Suc left) h current_page =
     (if current_page = h then return 0
      else bind (check_no_head current_page) (\<lambda>_.
        bind (check_links current_page) (\<lambda>_.
        bind (read_flink current_page) (\<lambda>current_page.
        bind (validate_forward left h current_page) (\<lambda>n. return (n + 1))))))"

primrec validate_backward :: "nat \<Rightarrow> pfn_ptr \<Rightarrow> pfn_ptr \<Rightarrow> nat mm" where
  "validate_backward 0 h current_page = return 0"
| "validate_backward (Suc left) h current_page =
     (if current_page = h then return 0
      else bind (check_links current_page) (\<lambda>_.
        bind (read_blink current_page) (\<lambda>current_page.
        bind (validate_backward left h current_page) (\<lambda>n. return (n + 1)))))"

definition validate_list :: "list_id \<Rightarrow> unit mm" where
  "validate_list l =
     bind (gets (\<lambda>s. unat (allocated_frame_count (vm s) + 10))) (\<lambda>MAX_EXPECTED_LENGTH.
     bind (list_head l) (\<lambda>h.
     bind (lock_list_exclusive l) (\<lambda>_.
     bind (bind (read_flink h) (validate_forward MAX_EXPECTED_LENGTH h)) (\<lambda>forward_length.
     bind (assert_that (\<not> MAX_EXPECTED_LENGTH \<le> forward_length)) (\<lambda>_.
     bind (bind (read_blink h) (validate_backward MAX_EXPECTED_LENGTH h)) (\<lambda>backward_length.
     bind (assert_that (forward_length = backward_length)) (\<lambda>_.
     unlock_list_exclusive l)))))))"


section \<open>What the check accepts\<close>

text \<open>The walks read memory only.\<close>

definition neighbours :: "machine \<Rightarrow> pfn_ptr \<Rightarrow> bool" where
  "neighbours s p \<longleftrightarrow> pfn_ok s p \<and> pfn_ok s (blink (pfns s p)) \<and> pfn_ok s (flink (pfns s p)) \<and>
     flink (pfns s (blink (pfns s p))) = p \<and> blink (pfns s (flink (pfns s p))) = p"

lemma read_links_iff:
  "read_flink p s = Inr (x, u) \<longleftrightarrow> pfn_ok s p \<and> x = flink (pfns s p) \<and> u = s"
  "read_blink p s = Inr (x, u) \<longleftrightarrow> pfn_ok s p \<and> x = blink (pfns s p) \<and> u = s"
  by (auto simp: read_flink_def read_blink_def read_pfn_def prog_simps)

lemma assert_iff: "assert_that b s = Inr (x, u) \<longleftrightarrow> b \<and> u = s"
  by (auto simp: assert_that_def prog_simps)

lemma check_links_iff: "check_links p s = Inr (x, u) \<longleftrightarrow> neighbours s p \<and> u = s"
  by (auto simp: check_links_def bind_eq_Inr read_links_iff assert_iff neighbours_def)

definition other_heads :: "machine \<Rightarrow> pfn_ptr set" where
  "other_heads s = (\<lambda>l. head (lists s l)) ` {modified_list, standby_list, zero_list}"

lemma check_no_head_iff: "check_no_head p s = Inr (x, u) \<longleftrightarrow> p \<notin> other_heads s \<and> u = s"
  by (auto simp: check_no_head_def bind_eq_Inr assert_iff other_heads_def gets_def)

text \<open>The pages a walk meets from \<open>p\<close> until it stands at \<open>q\<close>.\<close>

fun path :: "(pfn_ptr \<Rightarrow> pfn_ptr) \<Rightarrow> pfn_ptr \<Rightarrow> pfn_ptr list \<Rightarrow> pfn_ptr \<Rightarrow> bool" where
  "path step p [] q \<longleftrightarrow> p = q"
| "path step p (x # xs) q \<longleftrightarrow> p = x \<and> path step (step p) xs q"

lemma forwardD:
  assumes "validate_forward left h p s = Inr (n, u)" and "n < left"
  shows "u = s \<and> (\<exists>xs. path (\<lambda>p. flink (pfns s p)) p xs h \<and> length xs = n \<and>
     (\<forall>x \<in> set xs. x \<noteq> h \<and> x \<notin> other_heads s \<and> neighbours s x))"
  using assms
proof (induction left arbitrary: p n)
  case (Suc left)
  show ?case
  proof (cases "p = h")
    case True
    then show ?thesis using Suc.prems by (intro conjI exI [of _ "[]"]) (simp_all add: return_def)
  next
    case False
    then obtain m where m: "p \<notin> other_heads s" "neighbours s p" "n = Suc m"
      "validate_forward left h (flink (pfns s p)) s = Inr (m, u)"
      using Suc.prems(1) by (auto simp: bind_eq_Inr check_no_head_iff check_links_iff read_links_iff return_def)
    from Suc.IH [OF this(4)] Suc.prems(2) m(3) obtain xs where "u = s" "path (\<lambda>p. flink (pfns s p)) (flink (pfns s p)) xs h"
      "length xs = m" "\<forall>x \<in> set xs. x \<noteq> h \<and> x \<notin> other_heads s \<and> neighbours s x" by auto
    then show ?thesis using False m by (intro conjI exI [of _ "p # xs"]) simp_all
  qed
qed simp

lemma backwardD:
  assumes "validate_backward left h p s = Inr (n, u)" and "n < left"
  shows "u = s \<and> (\<exists>xs. path (\<lambda>p. blink (pfns s p)) p xs h \<and> length xs = n)"
  using assms
proof (induction left arbitrary: p n)
  case (Suc left)
  show ?case
  proof (cases "p = h")
    case True
    then show ?thesis using Suc.prems by (intro conjI exI [of _ "[]"]) (simp_all add: return_def)
  next
    case False
    then obtain m where m: "n = Suc m" "validate_backward left h (blink (pfns s p)) s = Inr (m, u)"
      using Suc.prems(1) by (auto simp: bind_eq_Inr check_links_iff read_links_iff return_def)
    from Suc.IH [OF this(2)] Suc.prems(2) m(1) obtain xs where "u = s" "path (\<lambda>p. blink (pfns s p)) (blink (pfns s p)) xs h"
      "length xs = m" by auto
    then show ?thesis using m by (intro conjI exI [of _ "p # xs"]) simp_all
  qed
qed simp

lemma forward_runs:
  assumes "path (\<lambda>p. flink (pfns s p)) p xs h" and "length xs < left"
    and "\<forall>x \<in> set xs. x \<noteq> h \<and> x \<notin> other_heads s \<and> neighbours s x"
  shows "validate_forward left h p s = Inr (length xs, s)"
  using assms
proof (induction xs arbitrary: p left)
  case (Cons x xs)
  then obtain k where k: "left = Suc k" "p = x" by (cases left) auto
  have "check_no_head x s = Inr ((), s)" "check_links x s = Inr ((), s)"
    using Cons.prems(3) by (simp_all add: check_no_head_iff check_links_iff)
  moreover have "validate_forward k h (flink (pfns s x)) s = Inr (length xs, s)"
    using Cons.prems k by (intro Cons.IH) auto
  ultimately show ?case using Cons.prems(3) k by (simp add: prog_simps neighbours_def)
qed (auto simp: return_def gr0_conv_Suc)

lemma backward_runs:
  assumes "path (\<lambda>p. blink (pfns s p)) p xs h" and "length xs < left" and "\<forall>x \<in> set xs. x \<noteq> h \<and> neighbours s x"
  shows "validate_backward left h p s = Inr (length xs, s)"
  using assms
proof (induction xs arbitrary: p left)
  case (Cons x xs)
  then obtain k where k: "left = Suc k" "p = x" by (cases left) auto
  have "check_links x s = Inr ((), s)" using Cons.prems(3) by (simp add: check_links_iff)
  moreover have "validate_backward k h (blink (pfns s x)) s = Inr (length xs, s)"
    using Cons.prems k by (intro Cons.IH) auto
  ultimately show ?case using Cons.prems(3) k by (simp add: prog_simps neighbours_def)
qed (auto simp: return_def gr0_conv_Suc)

text \<open>A walk that ends outside the pages it meets meets none twice.\<close>

lemma path_unique: "path f p xs h \<Longrightarrow> path f p ys h \<Longrightarrow> h \<notin> set xs \<Longrightarrow> h \<notin> set ys \<Longrightarrow> xs = ys"
proof (induction xs arbitrary: p ys)
  case Nil
  then show ?case by (cases ys) auto
next
  case (Cons x xs)
  then show ?case by (cases ys) auto
qed

lemma path_append: "path f p (xs @ ys) q \<longleftrightarrow> (\<exists>r. path f p xs r \<and> path f r ys q)"
  by (induction xs arbitrary: p) auto

lemma path_distinct: "path f p xs h \<Longrightarrow> h \<notin> set xs \<Longrightarrow> distinct xs"
proof (induction xs arbitrary: p)
  case (Cons x xs)
  have False if x: "x \<in> set xs"
  proof -
    obtain as bs where xs: "xs = as @ x # bs" using split_list [OF x] by blast
    have "path f x (x # bs) h" "path f x (x # as @ x # bs) h"
      using Cons.prems(1) by (auto simp: xs path_append)
    from path_unique [OF this] show False using Cons.prems(2) by (auto simp: xs)
  qed
  then show ?case using Cons by auto
qed simp

lemma path_flink_iff:
  assumes "\<forall>x \<in> set xs. blink (m (flink (m x))) = x"
  shows "path (\<lambda>p. flink (m p)) (hd (xs @ [h])) xs h \<longleftrightarrow> linked m (xs @ [h])"
  using assms
proof (induction xs)
  case (Cons x xs)
  then show ?case by (cases xs) auto
qed simp

text \<open>The backward walk over linked pages meets them in reverse.\<close>

lemma path_blink:
  "linked m xs \<Longrightarrow> xs \<noteq> [] \<Longrightarrow> length ys = length xs \<Longrightarrow> path (\<lambda>p. blink (m p)) (last xs) ys q \<Longrightarrow>
   ys = rev xs \<and> q = blink (m (hd xs))"
proof (induction xs arbitrary: ys rule: rev_induct)
  case (snoc x xs)
  then obtain zs where ys: "ys = x # zs" "length zs = length xs" "path (\<lambda>p. blink (m p)) (blink (m x)) zs q"
    by (cases ys) auto
  show ?case
  proof (cases "xs = []")
    case False
    then have "linked m xs" "blink (m x) = last xs" using snoc.prems(1) linked_append [of xs "[x]" m] by simp_all
    then show ?thesis using snoc.IH [of zs] ys False by simp
  qed (use ys in simp)
qed simp


definition length_limit :: "machine \<Rightarrow> nat" where
  "length_limit s = unat (allocated_frame_count (vm s) + 10)"

lemma wf_neighbours:
  assumes "wf_list s l xs" and "x \<in> set xs"
  shows "neighbours s x"
proof -
  let ?h = "head (lists s l)" and ?m = "pfns s"
  obtain as bs where xs: "xs = as @ x # bs" using split_list [OF assms(2)] by blast
  have d: "dll ?m ?h (as @ x # bs)" using assms(1) xs by (simp add: wf_list_def)
  have "flink (?m x) = hd (bs @ [?h])" "blink (?m x) = last (?h # as)" using dll_at [OF d] .
  moreover have "blink (?m (hd (bs @ [?h]))) = x" using d dll_split [of ?m ?h "as @ [x]" bs] by simp
  moreover have "flink (?m (last (?h # as))) = x" using d dll_split [of ?m ?h as "x # bs"] by simp
  moreover have "hd (bs @ [?h]) \<in> set (?h # xs)" "last (?h # as) \<in> set (?h # xs)"
    by (simp_all add: xs hd_append split: list.split)
  then have "pfn_ok s (hd (bs @ [?h]))" "pfn_ok s (last (?h # as))"
    using assms(1) unfolding wf_list_def by blast+
  moreover have "pfn_ok s x" using assms by (simp add: wf_list_def)
  ultimately show ?thesis by (simp add: neighbours_def)
qed

lemma walks_of_list:
  assumes "wf_list s l xs"
  shows "path (\<lambda>p. flink (pfns s p)) (flink (pfns s (head (lists s l)))) xs (head (lists s l))"
    and "path (\<lambda>p. blink (pfns s p)) (blink (pfns s (head (lists s l)))) (rev xs) (head (lists s l))"
proof -
  let ?h = "head (lists s l)" and ?m = "pfns s"
  have d: "dll ?m ?h xs" using assms by (simp add: wf_list_def)
  have n: "\<forall>x \<in> set xs. blink (?m (flink (?m x))) = x" using wf_neighbours [OF assms] by (simp add: neighbours_def)
  have "linked ?m (xs @ [?h])" using d dll_split [of ?m ?h "[]" xs] by simp
  then show "path (\<lambda>p. flink (?m p)) (flink (?m ?h)) xs ?h" using path_flink_iff [OF n, of ?h] dll_ends(1) [OF d] by simp
  have reverse: "path (\<lambda>p. blink (?m p)) (last (?h # ys)) (rev ys) ?h" if "linked ?m (?h # ys)" for ys
    using that
  proof (induction ys rule: rev_induct)
    case (snoc y ys)
    then have "linked ?m (?h # ys)" "blink (?m y) = last (?h # ys)" using linked_append [of "?h # ys" "[y]" ?m] by auto
    then show ?case using snoc.IH by simp
  qed simp
  have "linked ?m (?h # xs)" using d dll_split [of ?m ?h xs "[]"] by simp
  from reverse [OF this] show "path (\<lambda>p. blink (?m p)) (blink (?m ?h)) (rev xs) ?h" using dll_ends(2) [OF d] by simp
qed

text \<open>Conversely the two walks, of the same length, make the pages a list.\<close>

lemma walks_make_list:
  assumes "path (\<lambda>p. flink (pfns s p)) (flink (pfns s h)) xs h" and "path (\<lambda>p. blink (pfns s p)) (blink (pfns s h)) ys h"
    and "length ys = length xs" and "\<forall>x \<in> set xs. x \<noteq> h \<and> neighbours s x"
  shows "dll (pfns s) h xs"
proof -
  let ?m = "pfns s"
  have start: "flink (?m h) = hd (xs @ [h])" using assms(1) by (cases xs) auto
  have "path (\<lambda>p. flink (?m p)) (hd (xs @ [h])) xs h" using assms(1) start by simp
  then have linked: "linked ?m (xs @ [h])" using path_flink_iff [of xs ?m h] assms(4) by (auto simp: neighbours_def)
  have first: "blink (?m (hd (xs @ [h]))) = h"
  proof (cases "xs = []")
    case True
    then show ?thesis using assms(2,3) by simp
  next
    case False
    have "linked ?m xs" "blink (?m h) = last xs" using linked linked_append [of xs "[h]" ?m] False by simp_all
    then show ?thesis using path_blink [of ?m xs ys h] assms(2,3) False by simp
  qed
  have "linked ?m (h # xs @ [h])" using linked start first by (cases xs) auto
  moreover have "distinct xs" using assms(1,4) by (intro path_distinct) auto
  ultimately show ?thesis using assms(4) by (auto simp: dll_def)
qed


lemma unheld: "\<not> held_exclusive (lists s l) \<Longrightarrow> s\<lparr>lists := (lists s)(l := (lists s l)\<lparr>held_exclusive := False\<rparr>)\<rparr> = s"
proof -
  assume "\<not> held_exclusive (lists s l)"
  then have "(lists s l)\<lparr>held_exclusive := False\<rparr> = lists s l" by (cases "lists s l") simp
  then have "(lists s)(l := (lists s l)\<lparr>held_exclusive := False\<rparr>) = lists s" by (simp only: fun_upd_triv)
  then show ?thesis by (cases s) simp
qed

section \<open>Properties\<close>

text \<open>
  C17: the check of a page list is exact.  On a list nobody has locked \<open>validate_list\<close> returns, and then
  has changed nothing, if and only if the links make up a proper list from its head, through memory
  that may be read, that meets no head of another list and is shorter than the number of frames plus
  ten; on anything else it stops the program.  The tests of single pages do not see that the first page
  points back to the head; the comparison of the two lengths does.
\<close>

theorem validate_list_is_exact:
  assumes "list_free s l" and "pfn_ok s (head (lists s l))"
  shows "(validate_list l s = Inr ((), u)) =
     (u = s \<and> (\<exists>xs. wf_list s l xs \<and> set xs \<inter> other_heads s = {} \<and> length xs < length_limit s))"
proof -
  let ?h = "head (lists s l)"
  let ?t = "s\<lparr>lists := (lists s)(l := (lists s l)\<lparr>held_exclusive := True\<rparr>)\<rparr>"
  have same: "other_heads ?t = other_heads s" "\<And>p. neighbours ?t p = neighbours s p"
    by (simp_all add: other_heads_def neighbours_def)
  have unlock: "unlock_list_exclusive l ?t = Inr ((), s)"
    using assms(1) by (simp add: unlock_list_exclusive_def prog_simps list_free_def unheld)
  have lock: "lock_list_exclusive l s = Inr ((), ?t)"
    using assms(1) by (simp add: lock_list_exclusive_def prog_simps list_free_def)
  define forward where "forward = validate_forward (length_limit s) ?h (flink (pfns s ?h)) ?t"
  define backward where "backward = validate_backward (length_limit s) ?h (blink (pfns s ?h)) ?t"
  have run: "validate_list l s = (case forward of Inl e \<Rightarrow> Inl e | Inr (n, t) \<Rightarrow>
      bind (assert_that (\<not> length_limit s \<le> n)) (\<lambda>_.
      bind (bind (read_blink ?h) (validate_backward (length_limit s) ?h)) (\<lambda>k.
      bind (assert_that (n = k)) (\<lambda>_. unlock_list_exclusive l))) t)"
    using lock assms(2) unfolding length_limit_def forward_def by (simp add: validate_list_def prog_simps)
  show ?thesis
  proof (intro iffI)
    assume "validate_list l s = Inr ((), u)"
    with run obtain n t where fw: "forward = Inr (n, t)" "n < length_limit s"
      "bind (bind (read_blink ?h) (validate_backward (length_limit s) ?h)) (\<lambda>k.
        bind (assert_that (n = k)) (\<lambda>_. unlock_list_exclusive l)) t = Inr ((), u)"
      by (auto simp: bind_assert split: sum.splits if_splits)
    from forwardD [OF fw(1) [unfolded forward_def] fw(2)] obtain xs where t: "t = ?t"
      and xs: "path (\<lambda>p. flink (pfns s p)) (flink (pfns s ?h)) xs ?h" "length xs = n"
        "\<forall>x \<in> set xs. x \<noteq> ?h \<and> x \<notin> other_heads s \<and> neighbours s x" by (auto simp: same)
    from fw(3) obtain k v where bw: "backward = Inr (k, v)" "n = k" "unlock_list_exclusive l v = Inr ((), u)"
      using assms(2) by (auto simp: t bind_eq_Inr read_links_iff assert_iff backward_def)
    from backwardD [OF bw(1) [unfolded backward_def]] fw(2) bw(2) obtain ys where v: "v = ?t"
      and ys: "path (\<lambda>p. blink (pfns s p)) (blink (pfns s ?h)) ys ?h" "length ys = n" by auto
    have "dll (pfns s) ?h xs" using walks_make_list [OF xs(1) ys(1)] xs(2,3) ys(2) by auto
    moreover have "\<forall>x \<in> set xs. pfn_ok s x" using xs(3) by (simp add: neighbours_def)
    ultimately have "wf_list s l xs" using assms(2) by (simp add: wf_list_def)
    then show "u = s \<and> (\<exists>xs. wf_list s l xs \<and> set xs \<inter> other_heads s = {} \<and> length xs < length_limit s)"
      using xs(2,3) fw(2) bw(3) unlock by (auto simp: v)
  next
    assume "u = s \<and> (\<exists>xs. wf_list s l xs \<and> set xs \<inter> other_heads s = {} \<and> length xs < length_limit s)"
    then obtain xs where u: "u = s" and xs: "wf_list s l xs" "set xs \<inter> other_heads s = {}" "length xs < length_limit s" by blast
    have "\<forall>x \<in> set xs. x \<noteq> ?h \<and> x \<notin> other_heads s \<and> neighbours s x"
      using xs(1,2) wf_neighbours [OF xs(1)] by (auto simp: wf_list_def dll_def)
    then have "forward = Inr (length xs, ?t)" "backward = Inr (length xs, ?t)"
      using forward_runs [of ?t _ xs ?h] backward_runs [of ?t _ "rev xs" ?h] walks_of_list [OF xs(1)] xs(3)
      by (auto simp: forward_def backward_def same)
    then show "validate_list l s = Inr ((), u)"
      using xs(3) assms(2) unlock by (simp add: run prog_simps backward_def u)
  qed
qed

definition torn_list :: machine where
  "torn_list = (let s = list_made modified_list blank in s\<lparr>pfns := (pfns s)(HeadPfn 0 := (pfns s (HeadPfn 0))\<lparr>blink := FramePfn 1\<rparr>)\<rparr>)"

lemma validate_list_is_exact_witness:
  "validate_list modified_list (list_made modified_list blank) = Inr ((), list_made modified_list blank) \<and>
   \<not> (\<exists>u. validate_list modified_list torn_list = Inr ((), u))"
proof -
  let ?s = "list_made modified_list blank"
  have s: "list_free ?s modified_list" "wf_list ?s modified_list []" "pfn_ok ?s (head (lists ?s modified_list))"
    using list_made_ready [of modified_list blank] by (simp_all add: ready_def wf_list_def)
  have t: "list_free torn_list modified_list" "pfn_ok torn_list (head (lists torn_list modified_list))"
    using s by (simp_all add: torn_list_def Let_def list_free_def)
  have "xs = []" "False" if "wf_list torn_list modified_list xs" for xs
  proof -
    have d: "dll (pfns torn_list) (HeadPfn 0) xs"
      using that by (simp add: wf_list_def torn_list_def Let_def list_made_def blank_def)
    moreover have "flink (pfns torn_list (HeadPfn 0)) = HeadPfn 0" "blink (pfns torn_list (HeadPfn 0)) = FramePfn 1"
      by (simp_all add: torn_list_def Let_def list_made_def blank_def)
    ultimately show "xs = []" "False" using dll_empty [OF d] dll_ends(2) [OF d] by simp_all
  qed
  then have "\<not> (\<exists>xs. wf_list torn_list modified_list xs \<and> set xs \<inter> other_heads torn_list = {} \<and> length xs < length_limit torn_list)"
    by blast
  moreover have "length_limit ?s = 10" by (simp add: length_limit_def list_made_def blank_def zero_vm_def)
  ultimately show ?thesis using validate_list_is_exact [OF s(1,3), of ?s] validate_list_is_exact [OF t] s(2)
    by (auto intro!: exI [of _ "[]"])
qed

text \<open>
  C18: the trace buffer holds the last 1024 calls.  Whatever the signed 32-bit index was, and across its
  overflow into negative numbers, after any sequence of calls each of the last 1024 of them, its stack
  cut to 16 frames, is in the slot the index had at the call.
\<close>

theorem trace_buffer_keeps_last_calls:
  assumes "i < length calls" and "i < TRACE_BUFFER_SIZE"
  shows "entry_of (rev calls ! i) (g_traceBuffer (fold log_stack_trace calls t)
      (nat (trace_slot_of (g_traceIndex t + of_nat (length calls) - of_nat i)))) \<and>
    0 \<le> trace_slot_of raw \<and> trace_slot_of raw < int TRACE_BUFFER_SIZE"
proof -
  have "g_traceIndex t + of_nat (length calls) - of_nat i = g_traceIndex t + 1 + of_nat (length calls - 1 - i)"
    using assms(1) by (simp add: of_nat_diff)
  then have "unat (g_traceIndex t + of_nat (length calls) - of_nat i) mod 1024 =
      (unat (g_traceIndex t + 1) mod 1024 + (length calls - 1 - i)) mod 1024"
    using unat_add_mod [of 10 "g_traceIndex t + 1" "length calls - 1 - i"] by (simp only: mod_add_left_eq) simp
  then show ?thesis
    using traces.keeps_last [of i calls t] assms by (simp only: trace_slot_of_unsigned nat_int) simp
qed

lemma trace_buffer_keeps_last_calls_witness:
  "entry_of \<lparr>call_stack = [7], call_thread = 1, call_time = 9, call_slot = 3, call_pfn = 64, call_pte = 32\<rparr>
     (g_traceBuffer (log_stack_trace \<lparr>call_stack = [], call_thread = 2, call_time = 9, call_slot = 4, call_pfn = 64, call_pte = 32\<rparr>
       (log_stack_trace \<lparr>call_stack = [7], call_thread = 1, call_time = 9, call_slot = 3, call_pfn = 64, call_pte = 32\<rparr>
         \<lparr>g_traceBuffer = (\<lambda>_. \<lparr>trace_thread = 0, trace_time = 0, frame_count = 0, trace_slot = 0, trace_pte = 0,
            trace_pfn = 0, trace_frames = replicate 16 0\<rparr>), g_traceIndex = 2 ^ 31 + 4\<rparr>)) 5)"
  using trace_buffer_keeps_last_calls [of 1
      "[\<lparr>call_stack = [7], call_thread = 1, call_time = 9, call_slot = 3, call_pfn = 64, call_pte = 32\<rparr>,
        \<lparr>call_stack = [], call_thread = 2, call_time = 9, call_slot = 4, call_pfn = 64, call_pte = 32\<rparr>]"
      "\<lparr>g_traceBuffer = (\<lambda>_. \<lparr>trace_thread = 0, trace_time = 0, frame_count = 0, trace_slot = 0, trace_pte = 0,
            trace_pfn = 0, trace_frames = replicate 16 0\<rparr>), g_traceIndex = 2 ^ 31 + 4\<rparr>" 0]
  by (simp add: trace_slot_of_unsigned)

end
